(* ===== verification/Prelude.thy ===== *)
theory Prelude
  imports "HOL-Library.Word" "HOL-Library.AList" "HOL-Library.Monad_Syntax" "HOL-Library.Multiset"
begin

text \<open>
  Shared vocabulary of the development: the collections of facts the component theories feed
  into the simplifier, the machine integers of the Go program, and the generic lemmas on lists,
  association lists and arenas that several components use.

  Conventions. A Go panic is the value \<open>None\<close> of an \<open>option\<close>, so a function that cannot
  panic has a plain result type. A Go \<open>error\<close> is a value (a sum or an option of an error
  datatype). Pointers are indices into an arena, a list to which allocation appends.
\<close>

unbundle bit_operations_syntax

type_synonym byte = "8 word"
type_synonym u8 = "8 word"
type_synonym u16 = "16 word"
type_synonym u32 = "32 word"
type_synonym u64 = "64 word"

named_theorems effects \<open>what an operation of the media pipeline can change\<close>
named_theorems http_defs \<open>how a response is written, for unfolding\<close>

section \<open>The option monad as the panic monad\<close>

lemma bind_Some_iff: "Option.bind m f = Some y \<longleftrightarrow> (\<exists>x. m = Some x \<and> f x = Some y)"
  by (cases m) auto

lemma bind_NoneE:
  assumes "Option.bind m f = None"
  obtains "m = None" | x where "m = Some x" "f x = None"
  using assms by (cases m) auto

section \<open>Arenas\<close>

text \<open>Dereferencing an index: a dangling one panics, as a nil pointer would.\<close>

definition deref :: "'a list \<Rightarrow> nat \<Rightarrow> 'a option" where
  "deref xs i = (if i < length xs then Some (xs ! i) else None)"

lemma deref_Some_iff [simp]: "deref xs i = Some x \<longleftrightarrow> i < length xs \<and> x = xs ! i"
  by (auto simp: deref_def)

lemma deref_None_iff [simp]: "deref xs i = None \<longleftrightarrow> length xs \<le> i"
  by (auto simp: deref_def)

lemma deref_in [simp]: "i < length xs \<Longrightarrow> deref xs i = Some (xs ! i)"
  by (simp add: deref_def)

lemma sum_list_update_nat:
  fixes f :: "'a \<Rightarrow> nat"
  assumes "i < length xs"
  shows "sum_list (map f (xs[i := y])) + f (xs ! i) = sum_list (map f xs) + f y"
  using assms
proof (induction xs arbitrary: i)
  case Nil
  then show ?case by simp
next
  case (Cons x xs)
  then show ?case by (cases i) auto
qed

lemma sum_list_update_same:
  fixes f :: "'a \<Rightarrow> nat"
  assumes "i < length xs" and "f y = f (xs ! i)"
  shows "sum_list (map f (xs[i := y])) = sum_list (map f xs)"
  using sum_list_update_nat [OF assms(1), of f y] assms(2) by simp

lemma member_le_sum_list_nth:
  fixes f :: "'a \<Rightarrow> nat"
  assumes "i < length xs"
  shows "f (xs ! i) \<le> sum_list (map f xs)"
  using assms by (metis elem_le_sum_list length_map nth_map)

section \<open>Overwriting part of a list\<close>

text \<open>\<open>copy(dst[off:], src)\<close> when \<open>src\<close> fits.\<close>

definition blit :: "nat \<Rightarrow> 'a list \<Rightarrow> 'a list \<Rightarrow> 'a list" where
  "blit off src dst = take off dst @ src @ drop (off + length src) dst"

lemma length_blit [simp]:
  "off + length src \<le> length dst \<Longrightarrow> length (blit off src dst) = length dst"
  by (simp add: blit_def)

lemma take_blit_prefix:
  "off + length src \<le> length dst \<Longrightarrow> take (off + length src) (blit off src dst) = take off dst @ src"
  by (simp add: blit_def)

lemma blit_Nil [simp]: "off \<le> length dst \<Longrightarrow> blit off [] dst = dst"
  by (simp add: blit_def)

section \<open>Association lists as Go maps\<close>

text \<open>
  A Go map that the program iterates over is an association list with distinct keys; the
  order of the list stands for the order the runtime happens to choose.
\<close>

definition keys :: "('k \<times> 'v) list \<Rightarrow> 'k list" where
  "keys m = map fst m"

lemma set_keys: "set (keys m) = dom (map_of m)"
  by (simp add: keys_def dom_map_of_conv_image_fst)

lemma length_keys [simp]: "length (keys m) = length m"
  by (simp add: keys_def)

lemma keys_update_mem: "k \<in> set (keys m) \<Longrightarrow> keys (AList.update k v m) = keys m"
  by (induction m) (auto simp: keys_def)

lemma keys_update_new: "k \<notin> set (keys m) \<Longrightarrow> keys (AList.update k v m) = keys m @ [k]"
  by (induction m) (auto simp: keys_def)

lemma distinct_keys_update: "distinct (keys m) \<Longrightarrow> distinct (keys (AList.update k v m))"
  by (cases "k \<in> set (keys m)") (simp_all add: keys_update_mem keys_update_new)

lemma update_existing:
  "distinct (keys m) \<Longrightarrow> k \<in> set (keys m) \<Longrightarrow>
     AList.update k v m = map (\<lambda>(x, d). (x, if x = k then v else d)) m"
proof (induction m)
  case (Cons kv m)
  obtain x d where kv: "kv = (x, d)" by (cases kv)
  have same: "map (\<lambda>(y, e). (y, if y = k then v else e)) m = m" if "k \<notin> set (keys m)"
    using that by (intro map_idI) (auto simp: keys_def image_iff)
  show ?case using Cons same by (auto simp: kv keys_def)
qed (simp add: keys_def)

lemma map_of_keys_Some: "k \<in> set (keys m) \<longleftrightarrow> (\<exists>v. map_of m k = Some v)"
  by (simp add: set_keys dom_def)

lemma mem_map_of: "distinct (keys m) \<Longrightarrow> (k, v) \<in> set m \<Longrightarrow> map_of m k = Some v"
  by (simp add: keys_def)

lemma keys_map_values [simp]: "keys (map (\<lambda>(x, d). (x, f x d)) m) = keys m"
  by (induction m) (auto simp: keys_def)

lemma mem_delete: "(y, q) \<in> set (AList.delete k m) \<longleftrightarrow> (y, q) \<in> set m \<and> y \<noteq> k"
  by (induction m) auto

lemma keys_delete: "keys (AList.delete k m) = filter (\<lambda>x. x \<noteq> k) (keys m)"
  by (induction m) (auto simp: keys_def)

lemma distinct_keys_delete: "distinct (keys m) \<Longrightarrow> distinct (keys (AList.delete k m))"
  by (simp add: keys_delete)

text \<open>A choice of iteration order: any permutation.\<close>

definition permutes_keys :: "('a list \<Rightarrow> 'a list) \<Rightarrow> bool" where
  "permutes_keys perm \<longleftrightarrow> (\<forall>xs. mset (perm xs) = mset xs)"

lemma permutes_keysD:
  assumes "permutes_keys perm"
  shows "set (perm xs) = set xs" "length (perm xs) = length xs" "distinct (perm xs) = distinct xs"
proof -
  have "mset (perm xs) = mset xs" using assms by (simp add: permutes_keys_def)
  then show "set (perm xs) = set xs" "length (perm xs) = length xs" "distinct (perm xs) = distinct xs"
    by (auto dest: mset_eq_setD mset_eq_length mset_eq_imp_distinct_iff)
qed

section \<open>Signed 32-bit words\<close>

lemma top_bit32: "0 \<le> (x::int) \<Longrightarrow> x < 4294967296 \<Longrightarrow> odd (x div 2147483648) \<longleftrightarrow> 2147483648 \<le> x"
proof (cases "2147483648 \<le> x")
  case True
  assume "x < 4294967296"
  with True have "x div 2147483648 = 1" by linarith
  then show ?thesis using True by simp
qed (simp add: div_pos_pos_trivial)

lemma sint_neg_iff32: "sint (w :: 32 word) < 0 \<longleftrightarrow> 2147483648 \<le> unat w"
proof -
  have "sint w < 0 \<longleftrightarrow> bit (uint w) 31"
    by (simp add: sint_uint)
  also have "\<dots> \<longleftrightarrow> odd (uint w div 2147483648)"
    by (simp add: bit_iff_odd)
  also have "\<dots> \<longleftrightarrow> 2147483648 \<le> uint w"
    using uint_lt2p [of w] by (intro top_bit32) auto
  also have "uint w = int (unat w)" by simp
  finally show ?thesis by linarith
qed

lemma unat_add_of_nat32: "unat (w :: 32 word) + n < 2147483648 \<Longrightarrow> unat (w + of_nat n) = unat w + n"
  by (simp add: unat_word_ariths unat_of_nat take_bit_nat_eq_self mod_less)

lemma unat_minus_one32: "0 < unat (w :: 32 word) \<Longrightarrow> unat (w - 1) = unat w - 1"
  by (metis Suc_pred' neq0_conv unat_minus_one unat_0)

end
