(* ===== verification/GoErrors.thy ===== *)
theory GoErrors
  imports GoStrings
begin

text \<open>
  Go's wrapped errors: the sentinels of \<open>core/error.go\<close>, the driver's \<open>sql.ErrNoRows\<close>, any other
  error of a library, and what \<open>fmt.Errorf\<close> makes of them with \<open>%w\<close>. \<open>errors_is\<close> is \<open>errors.Is\<close>
  for a sentinel of \<open>core\<close>, which looks through the wrappers.
\<close>

datatype core_err = ErrEntityNotFound | ErrInvalidCredentials | ErrUsernameTaken | ErrInactiveStreamKey

datatype go_error =
  CoreErr core_err
| SqlNoRows
| LibErr string
| WrapErr string go_error

fun errors_is :: "go_error \<Rightarrow> core_err \<Rightarrow> bool" where
  "errors_is (CoreErr c) t = (c = t)"
| "errors_is SqlNoRows t = False"
| "errors_is (LibErr m) t = False"
| "errors_is (WrapErr m e) t = errors_is e t"

text \<open>An error in whose chain there is no sentinel of \<open>core\<close>.\<close>

definition plain_error :: "go_error \<Rightarrow> bool" where
  "plain_error e \<longleftrightarrow> (\<forall>t. \<not> errors_is e t)"

lemma plain_error_simps [simp]:
  "plain_error SqlNoRows" "plain_error (LibErr m)" "plain_error (WrapErr m e) = plain_error e" "\<not> plain_error (CoreErr c)"
  by (auto simp: plain_error_def)

lemma plain_error_is [simp]: "plain_error e \<Longrightarrow> \<not> errors_is e t"
  by (simp add: plain_error_def)

end
