(* ===== verification/Database.thy ===== *)
theory Database
  imports GoErrors
begin

text \<open>
  \<open>core/model\<close>, \<open>store/users.go\<close>, \<open>store/stream_keys.go\<close>, \<open>db/db.go\<close> and the transactions of
  \<open>db/pg/pg.go\<close>. The database is a parameter: \<open>query\<close> runs a statement with its arguments and gives
  the row \<open>QueryRowContext\<close> scans or the error, which the driver reports when the row is scanned.
  What the statements of the stores do is the contract \<open>sql_database\<close>, stated over the rows of the
  two tables, and \<open>sql_transactions\<close> adds \<open>BeginTx\<close> and \<open>Commit\<close>. A destination of \<open>Scan\<close> is
  only read when the scan succeeded.
\<close>

section \<open>Models\<close>

record user =
  us_id :: u64
  us_username :: string
  us_password :: string
  us_created :: int

record stream_key =
  sk_id :: u64
  sk_key :: string
  sk_userID :: u64
  sk_active :: bool
  sk_created :: int

section \<open>Rows\<close>

datatype sql_value = SqlInt int | SqlText string | SqlBool bool | SqlTime int

type_synonym 'db sql_query = "string \<Rightarrow> sql_value list \<Rightarrow> 'db \<Rightarrow> (go_error + sql_value list) \<times> 'db"

definition fits_uint64 :: "int \<Rightarrow> bool" where
  "fits_uint64 i \<longleftrightarrow> 0 \<le> i \<and> i < 2 ^ 64"

lemma fits_uint [simp]: "fits_uint64 (uint (w :: u64))"
  using uint_bounded [of w] by (simp add: fits_uint64_def)

definition scan_error :: go_error where
  "scan_error = LibErr ''sql: Scan error''"

fun scan_user :: "sql_value list \<Rightarrow> go_error + user" where
  "scan_user [SqlInt i, SqlText n, SqlText p, SqlTime t] =
     (if fits_uint64 i then Inr \<lparr>us_id = of_int i, us_username = n, us_password = p, us_created = t\<rparr> else Inl scan_error)"
| "scan_user row = Inl scan_error"

fun scan_stream_key :: "sql_value list \<Rightarrow> go_error + stream_key" where
  "scan_stream_key [SqlInt i, SqlText k, SqlInt u, SqlBool a, SqlTime t] =
     (if fits_uint64 i \<and> fits_uint64 u
      then Inr \<lparr>sk_id = of_int i, sk_key = k, sk_userID = of_int u, sk_active = a, sk_created = t\<rparr>
      else Inl scan_error)"
| "scan_stream_key row = Inl scan_error"

text \<open>\<open>GetByUserID\<close> does not select the user, so that field keeps its zero value.\<close>

fun scan_key_of_user :: "sql_value list \<Rightarrow> go_error + stream_key" where
  "scan_key_of_user [SqlInt i, SqlText k, SqlBool a, SqlTime t] =
     (if fits_uint64 i then Inr \<lparr>sk_id = of_int i, sk_key = k, sk_userID = 0, sk_active = a, sk_created = t\<rparr>
      else Inl scan_error)"
| "scan_key_of_user row = Inl scan_error"

fun scan_id_created :: "sql_value list \<Rightarrow> go_error + u64 \<times> int" where
  "scan_id_created [SqlInt i, SqlTime t] = (if fits_uint64 i then Inr (of_int i, t) else Inl scan_error)"
| "scan_id_created row = Inl scan_error"

section \<open>Stores\<close>

text \<open>\<open>MapError\<close> of an error that is not nil.\<close>

definition map_error :: "go_error \<Rightarrow> go_error" where
  "map_error e = (if e = SqlNoRows then CoreErr ErrEntityNotFound else e)"

definition query_row ::
    "'db sql_query \<Rightarrow> string \<Rightarrow> sql_value list \<Rightarrow> (sql_value list \<Rightarrow> go_error + 'r) \<Rightarrow> 'db \<Rightarrow> (go_error + 'r) \<times> 'db" where
  "query_row query sql args scan db =
     (case query sql args db of
        (Inl e, db) \<Rightarrow> (Inl (map_error e), db)
      | (Inr row, db) \<Rightarrow> (case scan row of Inl e \<Rightarrow> (Inl (map_error e), db) | Inr r \<Rightarrow> (Inr r, db)))"

definition sqlUserByID :: string where
  "sqlUserByID = ''SELECT id, username, password, created_at FROM users WHERE id = $1''"
definition sqlUserByName :: string where
  "sqlUserByName = ''SELECT id, username, password, created_at FROM users WHERE username = $1''"
definition sqlSaveUser :: string where
  "sqlSaveUser = ''INSERT INTO users(username, password) VALUES ($1,$2) RETURNING id, created_at''"
definition sqlCountUsers :: string where
  "sqlCountUsers = ''SELECT count(1) FROM users WHERE username = $1''"
definition sqlKeyByKey :: string where
  "sqlKeyByKey = ''SELECT id, stream_key, user_id, active, created_at FROM stream_keys WHERE stream_key = $1''"
definition sqlKeyByUser :: string where
  "sqlKeyByUser = ''SELECT id, stream_key, active, created_at FROM stream_keys WHERE user_id = $1''"
definition sqlSaveKey :: string where
  "sqlSaveKey = ''INSERT INTO stream_keys(stream_key, user_id, active) VALUES ($1,$2,$3) RETURNING id, created_at''"

definition users_get_by_id :: "'db sql_query \<Rightarrow> u64 \<Rightarrow> 'db \<Rightarrow> (go_error + user) \<times> 'db" where
  "users_get_by_id query i = query_row query sqlUserByID [SqlInt (uint i)] scan_user"

definition users_get_by_username :: "'db sql_query \<Rightarrow> string \<Rightarrow> 'db \<Rightarrow> (go_error + user) \<times> 'db" where
  "users_get_by_username query name = query_row query sqlUserByName [SqlText name] scan_user"

definition users_save :: "'db sql_query \<Rightarrow> user \<Rightarrow> 'db \<Rightarrow> (go_error + user) \<times> 'db" where
  "users_save query u db =
     (case query_row query sqlSaveUser [SqlText (us_username u), SqlText (us_password u)] scan_id_created db of
        (Inl e, db) \<Rightarrow> (Inl e, db)
      | (Inr (i, t), db) \<Rightarrow> (Inr (u\<lparr>us_id := i, us_created := t\<rparr>), db))"

text \<open>\<open>ExistsByUsername\<close> answers no when the query fails.\<close>

definition users_exists_by_username :: "'db sql_query \<Rightarrow> string \<Rightarrow> 'db \<Rightarrow> bool \<times> 'db" where
  "users_exists_by_username query name db =
     (case query sqlCountUsers [SqlText name] db of
        (Inr [SqlInt n], db) \<Rightarrow> (n > 0, db)
      | (_, db) \<Rightarrow> (False, db))"

definition keys_get_by_key :: "'db sql_query \<Rightarrow> string \<Rightarrow> 'db \<Rightarrow> (go_error + stream_key) \<times> 'db" where
  "keys_get_by_key query key = query_row query sqlKeyByKey [SqlText key] scan_stream_key"

definition keys_get_by_user_id :: "'db sql_query \<Rightarrow> u64 \<Rightarrow> 'db \<Rightarrow> (go_error + stream_key) \<times> 'db" where
  "keys_get_by_user_id query u = query_row query sqlKeyByUser [SqlInt (uint u)] scan_key_of_user"

definition keys_save :: "'db sql_query \<Rightarrow> stream_key \<Rightarrow> 'db \<Rightarrow> (go_error + stream_key) \<times> 'db" where
  "keys_save query k db =
     (case query_row query sqlSaveKey [SqlText (sk_key k), SqlInt (uint (sk_userID k)), SqlBool (sk_active k)]
        scan_id_created db of
        (Inl e, db) \<Rightarrow> (Inl e, db)
      | (Inr (i, t), db) \<Rightarrow> (Inr (k\<lparr>sk_id := i, sk_created := t\<rparr>), db))"

section \<open>Transactions\<close>

text \<open>
  \<open>ExecTrx\<close>: the callback works on the transaction's view of the database. The deferred \<open>Rollback\<close>
  throws that view away; after a \<open>Commit\<close> it does nothing.
\<close>

definition exec_trx ::
    "('db \<Rightarrow> go_error option) \<Rightarrow> ('db \<Rightarrow> 'db \<Rightarrow> go_error option \<times> 'db) \<Rightarrow>
       ('db \<Rightarrow> (go_error + 'r) \<times> 'db) \<Rightarrow> 'db \<Rightarrow> (go_error + 'r) \<times> 'db" where
  "exec_trx begin_tx commit fn db =
     (case begin_tx db of
        Some e \<Rightarrow> (Inl (WrapErr ''begin tx'' e), db)
      | None \<Rightarrow>
          (case fn db of
             (Inl e, trx) \<Rightarrow> (Inl (WrapErr ''exec transaction callback'' e), db)
           | (Inr r, trx) \<Rightarrow>
               (case commit db trx of
                  (Some e, db) \<Rightarrow> (Inl (WrapErr ''commit transaction'' e), db)
                | (None, db) \<Rightarrow> (Inr r, db))))"

section \<open>What the stores rely on\<close>

definition user_row :: "user \<Rightarrow> sql_value list" where
  "user_row u = [SqlInt (uint (us_id u)), SqlText (us_username u), SqlText (us_password u), SqlTime (us_created u)]"

definition key_row :: "stream_key \<Rightarrow> sql_value list" where
  "key_row k = [SqlInt (uint (sk_id k)), SqlText (sk_key k), SqlInt (uint (sk_userID k)), SqlBool (sk_active k),
     SqlTime (sk_created k)]"

definition user_key_row :: "stream_key \<Rightarrow> sql_value list" where
  "user_key_row k = [SqlInt (uint (sk_id k)), SqlText (sk_key k), SqlBool (sk_active k), SqlTime (sk_created k)]"

lemma scan_rows [simp]: "scan_user (user_row u) = Inr u" "scan_stream_key (key_row k) = Inr k"
  "scan_key_of_user (user_key_row k) = Inr (k\<lparr>sk_userID := 0\<rparr>)"
  by (simp_all add: user_row_def key_row_def user_key_row_def)

text \<open>An error of the driver, which says nothing about the rows.\<close>

definition driver_error :: "go_error \<Rightarrow> bool" where
  "driver_error e \<longleftrightarrow> plain_error e \<and> e \<noteq> SqlNoRows"

text \<open>
  A \<open>SELECT\<close> gives the first row of its result: that of a matching element, if there is one. It may
  also fail.
\<close>

definition selects :: "('a \<Rightarrow> bool) \<Rightarrow> ('a \<Rightarrow> sql_value list) \<Rightarrow> 'a list \<Rightarrow> go_error + sql_value list \<Rightarrow> bool" where
  "selects matching row xs r \<longleftrightarrow>
     (case r of
        Inl e \<Rightarrow> driver_error e \<or> e = SqlNoRows \<and> (\<forall>x \<in> set xs. \<not> matching x)
      | Inr vs \<Rightarrow> (\<exists>x \<in> set xs. matching x \<and> vs = row x))"

locale sql_database =
  fixes query :: "'db sql_query"
    and users :: "'db \<Rightarrow> user list" and stream_keys :: "'db \<Rightarrow> stream_key list"
    and valid :: "'db \<Rightarrow> bool"
  assumes users_distinct: "valid db \<Longrightarrow> distinct (map us_id (users db)) \<and> distinct (map us_username (users db))"
    and keys_refer: "valid db \<Longrightarrow> k \<in> set (stream_keys db) \<Longrightarrow> sk_userID k \<in> us_id ` set (users db)"
    and select_user_by_id: "valid db \<Longrightarrow> query sqlUserByID [SqlInt (uint i)] db = (r, db') \<Longrightarrow>
      db' = db \<and> selects (\<lambda>u. us_id u = i) user_row (users db) r"
    and select_user_by_name: "valid db \<Longrightarrow> query sqlUserByName [SqlText n] db = (r, db') \<Longrightarrow>
      db' = db \<and> selects (\<lambda>u. us_username u = n) user_row (users db) r"
    and count_users: "valid db \<Longrightarrow> query sqlCountUsers [SqlText n] db = (r, db') \<Longrightarrow>
      db' = db \<and> (case r of Inl e \<Rightarrow> driver_error e
        | Inr vs \<Rightarrow> vs = [SqlInt (int (length (filter (\<lambda>u. us_username u = n) (users db))))])"
    and insert_user: "valid db \<Longrightarrow> query sqlSaveUser [SqlText n, SqlText p] db = (r, db') \<Longrightarrow>
      valid db' \<and> stream_keys db' = stream_keys db \<and> (case r of Inl e \<Rightarrow> driver_error e \<and> users db' = users db
        | Inr vs \<Rightarrow> (\<exists>u. us_username u = n \<and> us_password u = p
            \<and> vs = [SqlInt (uint (us_id u)), SqlTime (us_created u)] \<and> users db' = users db @ [u]))"
    and select_key_by_key: "valid db \<Longrightarrow> query sqlKeyByKey [SqlText x] db = (rk, db') \<Longrightarrow>
      db' = db \<and> selects (\<lambda>k. sk_key k = x) key_row (stream_keys db) rk"
    and select_key_by_user: "valid db \<Longrightarrow> query sqlKeyByUser [SqlInt (uint i)] db = (rk, db') \<Longrightarrow>
      db' = db \<and> selects (\<lambda>k. sk_userID k = i) user_key_row (stream_keys db) rk"
    and insert_key: "valid db \<Longrightarrow> query sqlSaveKey [SqlText x, SqlInt (uint i), SqlBool a] db = (rk, db') \<Longrightarrow>
      valid db' \<and> users db' = users db \<and> (case rk of Inl e \<Rightarrow> driver_error e \<and> stream_keys db' = stream_keys db
        | Inr vs \<Rightarrow> (\<exists>k. sk_key k = x \<and> sk_userID k = i \<and> sk_active k = a
            \<and> vs = [SqlInt (uint (sk_id k)), SqlTime (sk_created k)] \<and> stream_keys db' = stream_keys db @ [k]))"
begin

text \<open>What the stores make of it. A row that is found is the one that is looked for.\<close>

lemma users_get_by_id_ok:
  assumes "valid db" and "users_get_by_id query i db = (r, db')"
  shows "db' = db \<and> (case r of Inl e \<Rightarrow> driver_error e \<or> e = CoreErr ErrEntityNotFound \<and> i \<notin> us_id ` set (users db)
     | Inr u \<Rightarrow> u \<in> set (users db) \<and> us_id u = i)"
proof -
  obtain q d where q: "query sqlUserByID [SqlInt (uint i)] db = (q, d)" by fastforce
  from select_user_by_id [OF assms(1) q] assms(2) q show ?thesis
    by (cases q) (auto simp: users_get_by_id_def query_row_def selects_def map_error_def
      driver_error_def split: if_splits)
qed

lemma users_get_by_username_ok:
  assumes "valid db" and "users_get_by_username query n db = (r, db')"
  shows "db' = db \<and> (case r of Inl e \<Rightarrow> driver_error e \<or> e = CoreErr ErrEntityNotFound \<and> n \<notin> us_username ` set (users db)
     | Inr u \<Rightarrow> u \<in> set (users db) \<and> us_username u = n)"
proof -
  obtain q d where q: "query sqlUserByName [SqlText n] db = (q, d)" by fastforce
  from select_user_by_name [OF assms(1) q] assms(2) q show ?thesis
    by (cases q) (auto simp: users_get_by_username_def query_row_def selects_def map_error_def
      driver_error_def split: if_splits)
qed

lemma users_exists_by_username_ok:
  assumes "valid db" and "users_exists_by_username query n db = (b, db')"
  shows "db' = db \<and> (b \<longrightarrow> n \<in> us_username ` set (users db))"
proof -
  obtain q d where q: "query sqlCountUsers [SqlText n] db = (q, d)" by fastforce
  from count_users [OF assms(1) q] assms(2) q show ?thesis
    by (cases q) (auto simp: users_exists_by_username_def filter_empty_conv dest!: sym [of _ "[_]"])
qed

lemma users_save_ok:
  assumes "valid db" and "users_save query u db = (r, db')"
  shows "valid db' \<and> stream_keys db' = stream_keys db
    \<and> (case r of Inl e \<Rightarrow> driver_error e \<and> users db' = users db
       | Inr v \<Rightarrow> us_username v = us_username u \<and> us_password v = us_password u \<and> users db' = users db @ [v])"
proof -
  obtain q d where q: "query sqlSaveUser [SqlText (us_username u), SqlText (us_password u)] db = (q, d)" by fastforce
  from insert_user [OF assms(1) q] assms(2) q show ?thesis
    by (cases q) (auto simp: users_save_def query_row_def map_error_def driver_error_def)
qed

lemma keys_get_by_key_ok:
  assumes "valid db" and "keys_get_by_key query x db = (r, db')"
  shows "db' = db \<and> (case r of Inl e \<Rightarrow> driver_error e \<or> e = CoreErr ErrEntityNotFound \<and> x \<notin> sk_key ` set (stream_keys db)
     | Inr k \<Rightarrow> k \<in> set (stream_keys db) \<and> sk_key k = x)"
proof -
  obtain q d where q: "query sqlKeyByKey [SqlText x] db = (q, d)" by fastforce
  from select_key_by_key [OF assms(1) q] assms(2) q show ?thesis
    by (cases q) (auto simp: keys_get_by_key_def query_row_def selects_def map_error_def
      driver_error_def split: if_splits)
qed

lemma keys_get_by_user_id_ok:
  assumes "valid db" and "keys_get_by_user_id query i db = (r, db')"
  shows "db' = db \<and> (case r of Inl e \<Rightarrow> driver_error e \<or> e = CoreErr ErrEntityNotFound \<and> i \<notin> sk_userID ` set (stream_keys db)
     | Inr k \<Rightarrow> (\<exists>k' \<in> set (stream_keys db). sk_userID k' = i \<and> k = k'\<lparr>sk_userID := 0\<rparr>))"
proof -
  obtain q d where q: "query sqlKeyByUser [SqlInt (uint i)] db = (q, d)" by fastforce
  from select_key_by_user [OF assms(1) q] assms(2) q show ?thesis
    by (cases q) (auto simp: keys_get_by_user_id_def query_row_def selects_def map_error_def
      driver_error_def split: if_splits, blast)
qed

lemma keys_save_ok:
  assumes "valid db" and "keys_save query k db = (r, db')"
  shows "valid db' \<and> users db' = users db
    \<and> (case r of Inl e \<Rightarrow> driver_error e \<and> stream_keys db' = stream_keys db
       | Inr j \<Rightarrow> sk_key j = sk_key k \<and> sk_userID j = sk_userID k \<and> sk_active j = sk_active k
           \<and> stream_keys db' = stream_keys db @ [j])"
proof -
  obtain q d where q: "query sqlSaveKey [SqlText (sk_key k), SqlInt (uint (sk_userID k)), SqlBool (sk_active k)] db = (q, d)"
    by fastforce
  from insert_key [OF assms(1) q] assms(2) q show ?thesis
    by (cases q) (auto simp: keys_save_def query_row_def map_error_def driver_error_def)
qed

end

text \<open>Transactions: a commit puts the transaction's view into place, or fails and leaves the database alone.\<close>

locale sql_transactions = sql_database query users stream_keys valid
  for query :: "'db sql_query" and users stream_keys valid +
  fixes begin_tx :: "'db \<Rightarrow> go_error option" and commit :: "'db \<Rightarrow> 'db \<Rightarrow> go_error option \<times> 'db"
  assumes begin_error: "begin_tx db = Some e \<Longrightarrow> driver_error e"
    and commit_result: "commit db trx = (None, db') \<Longrightarrow> db' = trx"
    and commit_error: "commit db trx = (Some e, db') \<Longrightarrow> driver_error e \<and> db' = db"
begin

lemma exec_trx_ok:
  assumes "exec_trx begin_tx commit fn db = (r, db')"
  shows "case r of
      Inl e \<Rightarrow> db' = db \<and> (plain_error e \<or> (\<exists>x trx. fn db = (Inl x, trx) \<and> e = WrapErr ''exec transaction callback'' x))
    | Inr v \<Rightarrow> fn db = (Inr v, db')"
proof -
  obtain v trx where fn: "fn db = (v, trx)" by fastforce
  obtain c d where c: "commit db trx = (c, d)" by fastforce
  show ?thesis using assms fn c begin_error [of db] commit_result [of db trx d] commit_error [of db trx _ d]
    by (cases v; cases c; cases "begin_tx db") (auto simp: exec_trx_def driver_error_def)
qed

end

end
