(* ===== verification/SchemaTables.thy ===== *)
theory SchemaTables
  imports Database
begin

text \<open>
  The tables of \<open>db/pg/migrations\<close> as a database: the columns' lengths and the constraints
  (serial identifiers of 32 bits, unique user names, keys that refer to users, unique pairs of key and
  user) decide which \<open>INSERT\<close> fails. It shows that the contract of theory \<open>Database\<close> is what these
  tables give; a database that also fails for other reasons meets it as well.
\<close>

record tables =
  tb_users :: "user list"
  tb_keys :: "stream_key list"
  tb_nextUser :: nat
  tb_nextKey :: nat
  tb_now :: int

definition empty_tables :: tables where
  "empty_tables = \<lparr>tb_users = [], tb_keys = [], tb_nextUser = 1, tb_nextKey = 1, tb_now = 0\<rparr>"

definition serial_limit :: nat where
  "serial_limit = 2 ^ 31"

definition first_row :: "('a \<Rightarrow> bool) \<Rightarrow> ('a \<Rightarrow> sql_value list) \<Rightarrow> 'a list \<Rightarrow> go_error + sql_value list" where
  "first_row matching row xs = (case filter matching xs of [] \<Rightarrow> Inl SqlNoRows | x # _ \<Rightarrow> Inr (row x))"

definition violation :: "string \<Rightarrow> go_error" where
  "violation c = LibErr (''ERROR: '' @ c)"

definition insert_user_row :: "string \<Rightarrow> string \<Rightarrow> tables \<Rightarrow> (go_error + sql_value list) \<times> tables" where
  "insert_user_row n p t =
     (if length n > 50 \<or> length p > 512 then (Inl (violation ''value too long''), t)
      else if n \<in> us_username ` set (tb_users t) then (Inl (violation ''users_username_key''), t)
      else if tb_nextUser t \<ge> serial_limit then (Inl (violation ''users_id_seq''), t)
      else let u = \<lparr>us_id = of_nat (tb_nextUser t), us_username = n, us_password = p, us_created = tb_now t\<rparr>
           in (Inr [SqlInt (uint (us_id u)), SqlTime (us_created u)],
               t\<lparr>tb_users := tb_users t @ [u], tb_nextUser := Suc (tb_nextUser t)\<rparr>))"

definition insert_key_row :: "string \<Rightarrow> u64 \<Rightarrow> bool \<Rightarrow> tables \<Rightarrow> (go_error + sql_value list) \<times> tables" where
  "insert_key_row x u a t =
     (if length x > 512 then (Inl (violation ''value too long''), t)
      else if u \<notin> us_id ` set (tb_users t) then (Inl (violation ''stream_keys_user_id_fkey''), t)
      else if (x, u) \<in> (\<lambda>k. (sk_key k, sk_userID k)) ` set (tb_keys t)
      then (Inl (violation ''stream_keys_stream_key_user_id_key''), t)
      else if tb_nextKey t \<ge> serial_limit then (Inl (violation ''stream_keys_id_seq''), t)
      else let k = \<lparr>sk_id = of_nat (tb_nextKey t), sk_key = x, sk_userID = u, sk_active = a, sk_created = tb_now t\<rparr>
           in (Inr [SqlInt (uint (sk_id k)), SqlTime (sk_created k)],
               t\<lparr>tb_keys := tb_keys t @ [k], tb_nextKey := Suc (tb_nextKey t)\<rparr>))"

definition table_query :: "tables sql_query" where
  "table_query sql args t =
     (if sql = sqlUserByID then
        (case args of [SqlInt i] \<Rightarrow> (first_row (\<lambda>u. uint (us_id u) = i) user_row (tb_users t), t) | _ \<Rightarrow> (Inl (LibErr sql), t))
      else if sql = sqlUserByName then
        (case args of [SqlText n] \<Rightarrow> (first_row (\<lambda>u. us_username u = n) user_row (tb_users t), t) | _ \<Rightarrow> (Inl (LibErr sql), t))
      else if sql = sqlCountUsers then
        (case args of
           [SqlText n] \<Rightarrow> (Inr [SqlInt (int (length (filter (\<lambda>u. us_username u = n) (tb_users t))))], t)
         | _ \<Rightarrow> (Inl (LibErr sql), t))
      else if sql = sqlSaveUser then
        (case args of [SqlText n, SqlText p] \<Rightarrow> insert_user_row n p t | _ \<Rightarrow> (Inl (LibErr sql), t))
      else if sql = sqlKeyByKey then
        (case args of [SqlText x] \<Rightarrow> (first_row (\<lambda>k. sk_key k = x) key_row (tb_keys t), t) | _ \<Rightarrow> (Inl (LibErr sql), t))
      else if sql = sqlKeyByUser then
        (case args of
           [SqlInt i] \<Rightarrow> (first_row (\<lambda>k. uint (sk_userID k) = i) user_key_row (tb_keys t), t)
         | _ \<Rightarrow> (Inl (LibErr sql), t))
      else if sql = sqlSaveKey then
        (case args of
           [SqlText x, SqlInt u, SqlBool a] \<Rightarrow> insert_key_row x (of_int u) a t
         | _ \<Rightarrow> (Inl (LibErr sql), t))
      else (Inl (LibErr ''syntax error''), t))"

definition table_begin :: "tables \<Rightarrow> go_error option" where
  "table_begin t = None"

definition table_commit :: "tables \<Rightarrow> tables \<Rightarrow> go_error option \<times> tables" where
  "table_commit t trx = (None, trx)"

definition tables_valid :: "tables \<Rightarrow> bool" where
  "tables_valid t \<longleftrightarrow> distinct (map us_username (tb_users t)) \<and> distinct (map us_id (tb_users t))
     \<and> (\<forall>u \<in> set (tb_users t). unat (us_id u) < tb_nextUser t) \<and> tb_nextUser t \<le> serial_limit
     \<and> (\<forall>k \<in> set (tb_keys t). sk_userID k \<in> us_id ` set (tb_users t))"

lemma empty_tables_valid: "tables_valid empty_tables"
  by (simp add: tables_valid_def empty_tables_def serial_limit_def)

lemma statements_differ [simp]:
  "sqlUserByName \<noteq> sqlUserByID" "sqlCountUsers \<noteq> sqlUserByID" "sqlCountUsers \<noteq> sqlUserByName"
  "sqlSaveUser \<noteq> sqlUserByID" "sqlSaveUser \<noteq> sqlUserByName" "sqlSaveUser \<noteq> sqlCountUsers"
  "sqlKeyByKey \<noteq> sqlUserByID" "sqlKeyByKey \<noteq> sqlUserByName" "sqlKeyByKey \<noteq> sqlCountUsers" "sqlKeyByKey \<noteq> sqlSaveUser"
  "sqlKeyByUser \<noteq> sqlUserByID" "sqlKeyByUser \<noteq> sqlUserByName" "sqlKeyByUser \<noteq> sqlCountUsers"
  "sqlKeyByUser \<noteq> sqlSaveUser" "sqlKeyByUser \<noteq> sqlKeyByKey"
  "sqlSaveKey \<noteq> sqlUserByID" "sqlSaveKey \<noteq> sqlUserByName" "sqlSaveKey \<noteq> sqlCountUsers"
  "sqlSaveKey \<noteq> sqlSaveUser" "sqlSaveKey \<noteq> sqlKeyByKey" "sqlSaveKey \<noteq> sqlKeyByUser"
  by (simp_all add: sqlUserByID_def sqlUserByName_def sqlCountUsers_def sqlSaveUser_def sqlKeyByKey_def
    sqlKeyByUser_def sqlSaveKey_def)

lemma first_row_selects:
  assumes "\<And>x. x \<in> set xs \<Longrightarrow> m x = matching x"
  shows "selects matching row xs (first_row m row xs)"
proof (cases "filter m xs")
  case Nil
  with assms show ?thesis by (auto simp: first_row_def selects_def filter_empty_conv)
next
  case (Cons y ys)
  then have "y \<in> set (filter m xs)" by simp
  then have "y \<in> set xs" "matching y" using assms [of y] by simp_all
  with Cons show ?thesis by (auto simp: first_row_def selects_def)
qed

lemma violation_driver [simp]: "driver_error (violation c)"
  by (simp add: violation_def driver_error_def)

lemma insert_user_row_ok:
  assumes v: "tables_valid t" and "insert_user_row n p t = (r, t')"
  shows "tables_valid t' \<and> tb_keys t' = tb_keys t \<and> (case r of Inl e \<Rightarrow> driver_error e \<and> tb_users t' = tb_users t
     | Inr vs \<Rightarrow> (\<exists>u. us_username u = n \<and> us_password u = p
         \<and> vs = [SqlInt (uint (us_id u)), SqlTime (us_created u)] \<and> tb_users t' = tb_users t @ [u]))"
proof (cases r)
  case (Inl e)
  with assms show ?thesis by (auto simp: insert_user_row_def Let_def split: if_splits)
next
  case (Inr vs)
  with assms(2) have g: "n \<notin> us_username ` set (tb_users t)" "tb_nextUser t < serial_limit"
    and t': "t' = t\<lparr>tb_users := tb_users t @ [\<lparr>us_id = of_nat (tb_nextUser t), us_username = n, us_password = p,
      us_created = tb_now t\<rparr>], tb_nextUser := Suc (tb_nextUser t)\<rparr>"
    and vs: "vs = [SqlInt (uint (of_nat (tb_nextUser t) :: u64)), SqlTime (tb_now t)]"
    by (auto simp: insert_user_row_def Let_def split: if_splits)
  have id: "unat (of_nat (tb_nextUser t) :: u64) = tb_nextUser t"
    using g(2) by (simp add: serial_limit_def unat_of_nat take_bit_nat_eq_self)
  then have "(of_nat (tb_nextUser t) :: u64) \<notin> us_id ` set (tb_users t)"
    using v by (auto simp: tables_valid_def)
  then have "tables_valid t'" using v g id by (auto simp: tables_valid_def t' less_Suc_eq)
  with Inr t' vs show ?thesis by auto
qed

lemma insert_key_row_ok:
  assumes v: "tables_valid t" and "insert_key_row x i a t = (r, t')"
  shows "tables_valid t' \<and> tb_users t' = tb_users t \<and> (case r of Inl e \<Rightarrow> driver_error e \<and> tb_keys t' = tb_keys t
     | Inr vs \<Rightarrow> (\<exists>k. sk_key k = x \<and> sk_userID k = i \<and> sk_active k = a
         \<and> vs = [SqlInt (uint (sk_id k)), SqlTime (sk_created k)] \<and> tb_keys t' = tb_keys t @ [k]))"
  using assms by (auto simp: insert_key_row_def Let_def tables_valid_def split: if_splits)

interpretation schema: sql_transactions table_query tb_users tb_keys tables_valid table_begin table_commit
proof (unfold_locales, goal_cases)
  case (3 db i r db')
  then show ?case by (auto simp: table_query_def word_uint_eq_iff intro!: first_row_selects)
next
  case (4 db n r db')
  then show ?case by (auto simp: table_query_def word_uint_eq_iff intro!: first_row_selects)
next
  case (5 db n r db')
  then show ?case by (auto simp: table_query_def)
next
  case (6 db n p r db')
  then show ?case using insert_user_row_ok [of db n p r db'] by (simp add: table_query_def)
next
  case (7 db x rk db')
  then show ?case by (auto simp: table_query_def word_uint_eq_iff intro!: first_row_selects)
next
  case (8 db i rk db')
  then show ?case by (auto simp: table_query_def word_uint_eq_iff intro!: first_row_selects)
next
  case (9 db x i a rk db')
  then show ?case using insert_key_row_ok [of db x i a rk db'] by (simp add: table_query_def)
qed (auto simp: tables_valid_def table_begin_def table_commit_def)

end
