(* ===== verification/Accounts.thy ===== *)
theory Accounts
  imports SchemaTables
begin

text \<open>
  \<open>core/service/auth.go\<close>, \<open>core/service/stream_key.go\<close> and \<open>security/password/password.go\<close>: signing
  up and in, and the stream keys. The bcrypt library (\<open>generate\<close>, \<open>compare_hash\<close>) and the sixteen
  random bytes (\<open>None\<close> when \<open>rand.Read\<close> fails) are arguments.
\<close>

section \<open>Passwords and stream keys\<close>

definition hash_password :: "(string \<Rightarrow> nat \<Rightarrow> go_error + string) \<Rightarrow> string \<Rightarrow> go_error + string" where
  "hash_password generate password = generate password 14"

definition verify_password :: "(string \<Rightarrow> string \<Rightarrow> go_error option) \<Rightarrow> string \<Rightarrow> string \<Rightarrow> bool" where
  "verify_password compare_hash password hash = (compare_hash hash password = None)"

definition hex_digit :: "nat \<Rightarrow> char" where
  "hex_digit d = (''0123456789abcdef'' ! d)"

definition hex_encode :: "byte list \<Rightarrow> string" where
  "hex_encode bs = concat (map (\<lambda>b. [hex_digit (unat b div 16), hex_digit (unat b mod 16)]) bs)"

definition create_stream_key :: "byte list option \<Rightarrow> go_error + string" where
  "create_stream_key random =
     (case random of
        None \<Rightarrow> Inl (LibErr ''rand: read failed'')
      | Some b \<Rightarrow> Inr (''sk_'' @ hex_encode b))"

section \<open>The services\<close>

definition sign_in ::
    "'db sql_query \<Rightarrow> (string \<Rightarrow> string \<Rightarrow> go_error option) \<Rightarrow> string \<Rightarrow> string \<Rightarrow> 'db \<Rightarrow> (go_error + user) \<times> 'db" where
  "sign_in query compare_hash username password db =
     (case users_get_by_username query username db of
        (Inl e, db) \<Rightarrow> (Inl (WrapErr ''get client by email'' e), db)
      | (Inr u, db) \<Rightarrow>
          if \<not> verify_password compare_hash password (us_password u) then (Inl (CoreErr ErrInvalidCredentials), db)
          else (Inr u, db))"

text \<open>The callback of \<open>SignUp\<close>'s transaction.\<close>

definition save_account :: "'db sql_query \<Rightarrow> string \<Rightarrow> string \<Rightarrow> string \<Rightarrow> 'db \<Rightarrow> (go_error + user) \<times> 'db" where
  "save_account query username hashed key trx =
     (case users_save query \<lparr>us_id = 0, us_username = username, us_password = hashed, us_created = 0\<rparr> trx of
        (Inl e, trx) \<Rightarrow> (Inl (WrapErr ''save user'' e), trx)
      | (Inr u, trx) \<Rightarrow>
          (case keys_save query
              \<lparr>sk_id = 0, sk_key = key, sk_userID = us_id u, sk_active = True, sk_created = 0\<rparr> trx of
             (Inl e, trx) \<Rightarrow> (Inl (WrapErr ''save stream key'' e), trx)
           | (Inr _, trx) \<Rightarrow> (Inr u, trx)))"

text \<open>\<open>SignUp\<close> after its check of the name; other requests may come between the two.\<close>

definition sign_up_insert ::
    "'db sql_query \<Rightarrow> ('db \<Rightarrow> go_error option) \<Rightarrow> ('db \<Rightarrow> 'db \<Rightarrow> go_error option \<times> 'db) \<Rightarrow>
       (string \<Rightarrow> nat \<Rightarrow> go_error + string) \<Rightarrow> byte list option \<Rightarrow> string \<Rightarrow> string \<Rightarrow> 'db \<Rightarrow> (go_error + user) \<times> 'db" where
  "sign_up_insert query begin_tx commit generate random username password db =
     (case hash_password generate password of
        Inl e \<Rightarrow> (Inl (WrapErr ''hash password'' e), db)
      | Inr hashed \<Rightarrow>
          (case create_stream_key random of
             Inl e \<Rightarrow> (Inl (WrapErr ''create stream key'' e), db)
           | Inr key \<Rightarrow> exec_trx begin_tx commit (save_account query username hashed key) db))"

definition sign_up ::
    "'db sql_query \<Rightarrow> ('db \<Rightarrow> go_error option) \<Rightarrow> ('db \<Rightarrow> 'db \<Rightarrow> go_error option \<times> 'db) \<Rightarrow>
       (string \<Rightarrow> nat \<Rightarrow> go_error + string) \<Rightarrow> byte list option \<Rightarrow> string \<Rightarrow> string \<Rightarrow> 'db \<Rightarrow> (go_error + user) \<times> 'db" where
  "sign_up query begin_tx commit generate random username password db =
     (case users_exists_by_username query username db of
        (True, db) \<Rightarrow> (Inl (CoreErr ErrUsernameTaken), db)
      | (False, db) \<Rightarrow> sign_up_insert query begin_tx commit generate random username password db)"

definition copy_stream_key :: "stream_key \<Rightarrow> go_error + stream_key" where
  "copy_stream_key k = (if \<not> sk_active k then Inl (CoreErr ErrInactiveStreamKey) else Inr k)"

definition sk_get_by_user_id :: "'db sql_query \<Rightarrow> u64 \<Rightarrow> 'db \<Rightarrow> (go_error + stream_key) \<times> 'db" where
  "sk_get_by_user_id query u db =
     (case keys_get_by_user_id query u db of
        (Inl e, db) \<Rightarrow> (Inl e, db)
      | (Inr k, db) \<Rightarrow> (copy_stream_key k, db))"

definition sk_get_by_key :: "'db sql_query \<Rightarrow> string \<Rightarrow> 'db \<Rightarrow> (go_error + stream_key) \<times> 'db" where
  "sk_get_by_key query key db =
     (case keys_get_by_key query key db of
        (Inl e, db) \<Rightarrow> (Inl e, db)
      | (Inr k, db) \<Rightarrow> (copy_stream_key k, db))"

section \<open>Stream keys are as random as their bytes\<close>

lemma hex_digit_inject: "a < 16 \<Longrightarrow> b < 16 \<Longrightarrow> hex_digit a = hex_digit b \<Longrightarrow> a = b"
proof -
  have "distinct ''0123456789abcdef''" "length ''0123456789abcdef'' = 16" by simp_all
  then show "a < 16 \<Longrightarrow> b < 16 \<Longrightarrow> hex_digit a = hex_digit b \<Longrightarrow> a = b"
    unfolding hex_digit_def by (metis nth_eq_iff_index_eq)
qed

lemma length_hex_encode [simp]: "length (hex_encode bs) = 2 * length bs"
  by (induction bs) (simp_all add: hex_encode_def)

lemma hex_encode_inject: "hex_encode as = hex_encode bs \<longleftrightarrow> as = bs"
proof (induction "as" arbitrary: bs)
  case Nil
  then show ?case by (cases bs) (simp_all add: hex_encode_def)
next
  case (Cons a as)
  show ?case
  proof (cases bs)
    case Nil
    then show ?thesis by (simp add: hex_encode_def)
  next
    case [simp]: (Cons b cs)
    have lt: "unat x div 16 < 16" "unat x mod 16 < 16" for x :: byte
      using unsigned_less [of x, where ?'a = nat] by simp_all
    have "a = b" if "hex_digit (unat a div 16) = hex_digit (unat b div 16)" "hex_digit (unat a mod 16) = hex_digit (unat b mod 16)"
      using hex_digit_inject [OF lt(1) lt(1) that(1)] hex_digit_inject [OF lt(2) lt(2) that(2)]
      by (metis div_mult_mod_eq word_unat_eq_iff)
    moreover have "hex_encode (x # xs) = hex_digit (unat x div 16) # hex_digit (unat x mod 16) # hex_encode xs" for x xs
      by (simp add: hex_encode_def)
    ultimately show ?thesis using Cons.IH by auto
  qed
qed

lemma create_stream_key_inject:
  "create_stream_key (Some as) = Inr k \<Longrightarrow> create_stream_key (Some bs) = Inr k \<Longrightarrow> as = bs"
  by (auto simp: create_stream_key_def hex_encode_inject)

section \<open>What the services promise\<close>

text \<open>Every user has exactly one stream key, and it is active: what \<open>SignUp\<close> keeps.\<close>

definition one_key_each :: "user list \<Rightarrow> stream_key list \<Rightarrow> bool" where
  "one_key_each us ks \<longleftrightarrow> map sk_userID ks = map us_id us \<and> list_all sk_active ks"

lemma one_key_each_snoc:
  "one_key_each us ks \<Longrightarrow> sk_userID k = us_id u \<Longrightarrow> sk_active k \<Longrightarrow> one_key_each (us @ [u]) (ks @ [k])"
  by (simp add: one_key_each_def)

context sql_transactions
begin

lemma save_account_ok:
  assumes "valid db" and "save_account query n h x db = (r, db')"
  shows "valid db' \<and> (case r of Inl e \<Rightarrow> plain_error e
     | Inr u \<Rightarrow> us_username u = n \<and> us_password u = h \<and> users db' = users db @ [u]
         \<and> (\<exists>k. sk_active k \<and> sk_userID k = us_id u \<and> sk_key k = x \<and> stream_keys db' = stream_keys db @ [k]))"
proof -
  obtain v d where save: "users_save query \<lparr>us_id = 0, us_username = n, us_password = h, us_created = 0\<rparr> db = (v, d)"
    by fastforce
  note s = users_save_ok [OF assms(1) save]
  show ?thesis
  proof (cases v)
    case (Inl e)
    with s save assms(2) show ?thesis by (auto simp: save_account_def driver_error_def)
  next
    case (Inr u)
    obtain k d2 where key: "keys_save query
        \<lparr>sk_id = 0, sk_key = x, sk_userID = us_id u, sk_active = True, sk_created = 0\<rparr> d = (k, d2)" by fastforce
    from s have "valid d" by simp
    from keys_save_ok [OF this key] s Inr save key assms(2) show ?thesis
      by (cases k) (auto simp: save_account_def driver_error_def)
  qed
qed

lemma sign_up_insert_ok:
  assumes "valid db" and "sign_up_insert query begin_tx commit generate random n p db = (r, db')"
    and "\<And>e. generate p 14 = Inl e \<Longrightarrow> plain_error e"
  shows "valid db' \<and> (case r of Inl e \<Rightarrow> db' = db \<and> plain_error e
     | Inr u \<Rightarrow> us_username u = n \<and> generate p 14 = Inr (us_password u) \<and> users db' = users db @ [u]
         \<and> (\<exists>k. sk_active k \<and> sk_userID k = us_id u \<and> create_stream_key random = Inr (sk_key k)
             \<and> stream_keys db' = stream_keys db @ [k]))"
proof -
  have ?thesis if g: "generate p 14 = Inr h" "create_stream_key random = Inr x" for h x
  proof -
    have run: "exec_trx begin_tx commit (save_account query n h x) db = (r, db')"
      using assms(2) g by (simp add: sign_up_insert_def hash_password_def)
    have saved: "valid d \<and> (case s of Inl e \<Rightarrow> plain_error e | Inr u \<Rightarrow> us_username u = n \<and> us_password u = h
        \<and> users d = users db @ [u] \<and> (\<exists>k. sk_active k \<and> sk_userID k = us_id u \<and> sk_key k = x
            \<and> stream_keys d = stream_keys db @ [k]))" if "save_account query n h x db = (s, d)" for s d
      by (rule save_account_ok [OF assms(1) that])
    show ?thesis
    proof (cases r)
      case (Inl e)
      with exec_trx_ok [OF run] saved assms(1) show ?thesis by fastforce
    next
      case (Inr u)
      with exec_trx_ok [OF run] saved [of r db'] g show ?thesis by auto
    qed
  qed
  then show ?thesis using assms by (cases "generate p 14"; cases random)
    (auto simp: sign_up_insert_def hash_password_def create_stream_key_def)
qed

lemma sign_up_ok:
  assumes "valid db" and "sign_up query begin_tx commit generate random n p db = (r, db')"
    and "\<And>e. generate p 14 = Inl e \<Longrightarrow> plain_error e"
  shows "valid db' \<and> (case r of
       Inl e \<Rightarrow> db' = db \<and> (plain_error e \<or> e = CoreErr ErrUsernameTaken \<and> n \<in> us_username ` set (users db))
     | Inr u \<Rightarrow> us_username u = n \<and> generate p 14 = Inr (us_password u) \<and> users db' = users db @ [u]
         \<and> (\<exists>k. sk_active k \<and> sk_userID k = us_id u \<and> create_stream_key random = Inr (sk_key k)
             \<and> stream_keys db' = stream_keys db @ [k]))"
proof -
  obtain b d where ex: "users_exists_by_username query n db = (b, d)" by fastforce
  note e = users_exists_by_username_ok [OF assms(1) ex]
  show ?thesis
  proof (cases b)
    case True
    with e ex assms(1,2) show ?thesis by (auto simp: sign_up_def)
  next
    case False
    with e ex assms(2) have "sign_up_insert query begin_tx commit generate random n p db = (r, db')"
      by (simp add: sign_up_def)
    from sign_up_insert_ok [OF assms(1) this assms(3)] show ?thesis by (auto split: sum.splits)
  qed
qed

lemma sign_in_ok:
  assumes "valid db" and "sign_in query compare_hash n p db = (r, db')"
  shows "db' = db \<and> (case r of
       Inl e \<Rightarrow> plain_error e
         \<or> errors_is e ErrEntityNotFound \<and> n \<notin> us_username ` set (users db)
         \<or> e = CoreErr ErrInvalidCredentials
             \<and> (\<exists>u \<in> set (users db). us_username u = n \<and> compare_hash (us_password u) p \<noteq> None)
     | Inr u \<Rightarrow> u \<in> set (users db) \<and> us_username u = n \<and> compare_hash (us_password u) p = None)"
proof -
  obtain q d where get: "users_get_by_username query n db = (q, d)" by fastforce
  from users_get_by_username_ok [OF assms(1) get] get assms(2) show ?thesis
    by (cases q) (auto simp: sign_in_def verify_password_def driver_error_def split: if_splits, blast)
qed

lemma sk_get_by_key_ok:
  assumes "valid db" and "sk_get_by_key query x db = (r, db')"
  shows "db' = db \<and> (case r of
       Inl e \<Rightarrow> plain_error e \<or> e = CoreErr ErrEntityNotFound \<and> x \<notin> sk_key ` set (stream_keys db)
         \<or> e = CoreErr ErrInactiveStreamKey \<and> (\<exists>k \<in> set (stream_keys db). sk_key k = x \<and> \<not> sk_active k)
     | Inr k \<Rightarrow> k \<in> set (stream_keys db) \<and> sk_key k = x \<and> sk_active k)"
proof -
  obtain q d where get: "keys_get_by_key query x db = (q, d)" by fastforce
  from keys_get_by_key_ok [OF assms(1) get] get assms(2) show ?thesis
    by (cases q) (auto simp: sk_get_by_key_def copy_stream_key_def driver_error_def split: if_splits)
qed

lemma sk_get_by_user_id_ok:
  assumes "valid db" and "sk_get_by_user_id query i db = (r, db')"
  shows "db' = db \<and> (case r of
       Inl e \<Rightarrow> plain_error e \<or> e = CoreErr ErrEntityNotFound \<and> i \<notin> sk_userID ` set (stream_keys db)
         \<or> e = CoreErr ErrInactiveStreamKey \<and> (\<exists>k \<in> set (stream_keys db). sk_userID k = i \<and> \<not> sk_active k)
     | Inr k \<Rightarrow> (\<exists>k' \<in> set (stream_keys db). sk_userID k' = i \<and> sk_active k' \<and> k = k'\<lparr>sk_userID := 0\<rparr>))"
proof -
  obtain q d where get: "keys_get_by_user_id query i db = (q, d)" by fastforce
  note k = keys_get_by_user_id_ok [OF assms(1) get]
  show ?thesis
  proof (cases q)
    case (Inl e)
    with k get assms(2) show ?thesis by (auto simp: sk_get_by_user_id_def driver_error_def)
  next
    case (Inr k)
    with k obtain k' where "d = db" "k' \<in> set (stream_keys db)" "sk_userID k' = i" "k = k'\<lparr>sk_userID := 0\<rparr>" by auto
    with Inr get assms(2) show ?thesis by (cases "sk_active k'") (auto simp: sk_get_by_user_id_def copy_stream_key_def)
  qed
qed

text \<open>What exists is found, unless the database fails.\<close>

lemma sign_in_finds:
  assumes "valid db" and "u \<in> set (users db)" and "us_username u = n" and "compare_hash (us_password u) p = None"
  shows "case fst (sign_in query compare_hash n p db) of Inl e \<Rightarrow> plain_error e | Inr v \<Rightarrow> v = u"
proof -
  have only: "v = u" if "v \<in> set (users db)" "us_username v = n" for v
    using users_distinct [OF assms(1)] assms(2,3) that by (auto simp: distinct_map inj_on_def)
  obtain r d where run: "sign_in query compare_hash n p db = (r, d)" by fastforce
  note ok = sign_in_ok [OF assms(1) run]
  show ?thesis
  proof (cases r)
    case (Inl e)
    have "n \<in> us_username ` set (users db)" using assms(2,3) by blast
    moreover have "\<not> (\<exists>v \<in> set (users db). us_username v = n \<and> compare_hash (us_password v) p \<noteq> None)"
    proof (rule notI, elim bexE conjE)
      fix v assume "v \<in> set (users db)" "us_username v = n" "compare_hash (us_password v) p \<noteq> None"
      with only [of v] assms(4) show False by simp
    qed
    ultimately have "plain_error e" using ok unfolding Inl sum.case by blast
    with run Inl show ?thesis by simp
  next
    case (Inr v)
    with ok only run show ?thesis by auto
  qed
qed

lemma sk_get_by_user_id_finds:
  assumes "valid db" and "k \<in> set (stream_keys db)" and "sk_active k" and "sk_userID k = i"
    and only: "\<And>j. j \<in> set (stream_keys db) \<Longrightarrow> sk_userID j = i \<Longrightarrow> j = k"
  shows "case fst (sk_get_by_user_id query i db) of Inl e \<Rightarrow> plain_error e | Inr j \<Rightarrow> sk_key j = sk_key k"
proof -
  obtain r d where run: "sk_get_by_user_id query i db = (r, d)" by fastforce
  note ok = sk_get_by_user_id_ok [OF assms(1) run]
  show ?thesis
  proof (cases r)
    case (Inl e)
    have "i \<in> sk_userID ` set (stream_keys db)" using assms(2,4) by blast
    moreover have "\<not> (\<exists>j \<in> set (stream_keys db). sk_userID j = i \<and> \<not> sk_active j)" using only assms(3) by blast
    ultimately have "plain_error e" using ok unfolding Inl sum.case by blast
    with run Inl show ?thesis by simp
  next
    case (Inr j)
    with ok obtain k' where "k' \<in> set (stream_keys db)" "sk_userID k' = i" "j = k'\<lparr>sk_userID := 0\<rparr>" by auto
    with only [of k'] run Inr show ?thesis by simp
  qed
qed

lemma sk_get_by_key_finds:
  assumes "valid db" and "k \<in> set (stream_keys db)" and "sk_active k" and "sk_key k = x"
    and only: "\<And>j. j \<in> set (stream_keys db) \<Longrightarrow> sk_key j = x \<Longrightarrow> j = k"
  shows "case fst (sk_get_by_key query x db) of Inl e \<Rightarrow> plain_error e | Inr j \<Rightarrow> j = k"
proof -
  obtain r d where run: "sk_get_by_key query x db = (r, d)" by fastforce
  note ok = sk_get_by_key_ok [OF assms(1) run]
  show ?thesis
  proof (cases r)
    case (Inl e)
    have "x \<in> sk_key ` set (stream_keys db)" using assms(2,4) by blast
    moreover have "\<not> (\<exists>j \<in> set (stream_keys db). sk_key j = x \<and> \<not> sk_active j)" using only assms(3) by blast
    ultimately have "plain_error e" using ok unfolding Inl sum.case by blast
    with run Inl show ?thesis by simp
  next
    case (Inr j)
    with ok only run show ?thesis by auto
  qed
qed

end

end
