(* ===== verification/Http.thy ===== *)
theory Http
  imports GoErrors
begin

text \<open>
  The part of \<open>net/http\<close> the handlers use, and \<open>transport/http/codec\<close>. A handler maps the state of
  the response and of the program to their next value; \<open>None\<close> is a panic. \<open>WriteHeader\<close> works once and
  fixes the header as it is then; writing a body first sends status 200.
\<close>

section \<open>Requests and responses\<close>

record request =
  rq_method :: string
  rq_path :: string
  rq_header :: "string \<Rightarrow> string"
  rq_remoteAddr :: string
  rq_body :: string
  rq_user :: "u64 option"

record writer =
  wr_header :: "string \<rightharpoonup> string"
  wr_status :: "nat option"
  wr_sent :: "string \<rightharpoonup> string"
  wr_body :: string

type_synonym 's handler = "request \<Rightarrow> writer \<times> 's \<Rightarrow> (writer \<times> 's) option"

definition new_writer :: writer where
  "new_writer = \<lparr>wr_header = Map.empty, wr_status = None, wr_sent = Map.empty, wr_body = ''''\<rparr>"

definition set_header :: "string \<Rightarrow> string \<Rightarrow> writer \<Rightarrow> writer" where
  "set_header k v w = w\<lparr>wr_header := (wr_header w)(k \<mapsto> v)\<rparr>"

definition write_header :: "nat \<Rightarrow> writer \<Rightarrow> writer" where
  "write_header code w =
     (if wr_status w = None then w\<lparr>wr_status := Some code, wr_sent := wr_header w\<rparr> else w)"

definition write_bytes :: "string \<Rightarrow> writer \<Rightarrow> writer" where
  "write_bytes data w = (let w = write_header 200 w in w\<lparr>wr_body := wr_body w @ data\<rparr>)"

definition newline :: string where
  "newline = [CHR 0x0A]"

definition http_error :: "string \<Rightarrow> nat \<Rightarrow> writer \<Rightarrow> writer" where
  "http_error msg code w =
     write_bytes (msg @ newline) (write_header code
       (set_header ''X-Content-Type-Options'' ''nosniff'' (set_header ''Content-Type'' ''text/plain; charset=utf-8'' w)))"

definition StatusOK :: nat where "StatusOK = 200"
definition StatusCreated :: nat where "StatusCreated = 201"
definition StatusBadRequest :: nat where "StatusBadRequest = 400"
definition StatusUnauthorized :: nat where "StatusUnauthorized = 401"
definition StatusNotFound :: nat where "StatusNotFound = 404"
definition StatusInternalServerError :: nat where "StatusInternalServerError = 500"

lemmas http_status = StatusOK_def StatusCreated_def StatusBadRequest_def StatusUnauthorized_def StatusNotFound_def
  StatusInternalServerError_def

section \<open>JSON\<close>

text \<open>\<open>json\<close> is the library's encoding of a string, quotes included.\<close>

type_synonym json_strings = "string \<Rightarrow> string"

definition json_member :: "string \<Rightarrow> string \<Rightarrow> string" where
  \<open>json_member k v = ''"'' @ k @ ''":'' @ v\<close>

fun json_members :: "string list \<Rightarrow> string" where
  "json_members [] = ''''"
| "json_members [m] = m"
| "json_members (m # ms) = m @ '','' @ json_members ms"

definition json_object :: "string list \<Rightarrow> string" where
  "json_object ms = ''{'' @ json_members ms @ ''}''"

text \<open>A map of strings is written with its keys in order.\<close>

type_synonym field_errors = "(string \<times> string) list"

definition json_errors :: "json_strings \<Rightarrow> field_errors \<Rightarrow> string" where
  "json_errors json es = json_object (map (\<lambda>(k, v). json_member k (json v)) es)"

section \<open>Decoding and encoding bodies\<close>

fun error_text :: "go_error \<Rightarrow> string" where
  "error_text (CoreErr ErrEntityNotFound) = ''entity not found''"
| "error_text (CoreErr ErrInvalidCredentials) = ''invalid credentials''"
| "error_text (CoreErr ErrUsernameTaken) = ''username taken''"
| "error_text (CoreErr ErrInactiveStreamKey) = ''inactive stream key''"
| "error_text SqlNoRows = ''sql: no rows in result set''"
| "error_text (LibErr m) = m"
| "error_text (WrapErr m e) = m @ '': '' @ error_text e"

text \<open>
  \<open>DecodeBody\<close> for a pointer type: \<open>decode\<close> is the JSON decoder, which leaves the pointer nil for
  the document \<open>null\<close>; the method \<open>Valid\<close> then dereferences it.
\<close>

definition decode_body ::
    "json_strings \<Rightarrow> (string \<Rightarrow> go_error + 'a option) \<Rightarrow> ('a \<Rightarrow> field_errors) \<Rightarrow> request \<Rightarrow> writer \<Rightarrow>
       ('a option \<times> writer) option" where
  "decode_body json decode valid req w =
     (case decode (rq_body req) of
        Inl e \<Rightarrow> Some (None, http_error (error_text e) StatusBadRequest w)
      | Inr None \<Rightarrow> None
      | Inr (Some body) \<Rightarrow>
          let errors = valid body
          in if length errors > 0
             then Some (None, write_bytes (json_errors json errors)
               (write_header StatusBadRequest (set_header ''Content-Type'' ''application/json'' w)))
             else Some (Some body, w))"

definition encode_body :: "nat \<Rightarrow> string \<Rightarrow> writer \<Rightarrow> writer" where
  "encode_body status v w =
     write_bytes (v @ newline) (write_header status (set_header ''Content-Type'' ''application/json'' w))"

section \<open>What is sent\<close>

definition fresh :: "writer \<Rightarrow> bool" where
  "fresh w \<longleftrightarrow> wr_status w = None \<and> wr_body w = ''''"

lemmas [http_defs] = fresh_def write_bytes_def write_header_def set_header_def Let_def

lemma new_writer_fresh [simp]: "fresh new_writer"
  by (simp add: fresh_def new_writer_def)

lemma fresh_set_header [simp]: "fresh (set_header k v w) = fresh w"
  by (simp add: fresh_def set_header_def)

lemma http_error_sends [simp]:
  assumes "fresh w"
  shows "wr_status (http_error m c w) = Some c" "wr_body (http_error m c w) = m @ newline"
  using assms by (simp_all add: http_error_def http_defs)

lemma encode_body_sends [simp]:
  assumes "fresh w"
  shows "wr_status (encode_body c v w) = Some c" "wr_body (encode_body c v w) = v @ newline"
  using assms by (simp_all add: encode_body_def http_defs)

end
