(* ===== verification/Security.thy ===== *)
theory Security
  imports Http
begin

text \<open>
  \<open>security/jwt\<close>: access tokens and the middleware that lets only their holders through. The JWT
  library is a parameter: \<open>sign\<close> makes a token with the method HS256, \<open>parse\<close> checks one at a time
  of the clock and asks a callback for the key of the token's signing method. Times are whole seconds,
  as the library rounds them.
\<close>

datatype sign_method = HMAC | OtherMethod string

record user_claims =
  cl_id :: string
  cl_subject :: string
  cl_issuedAt :: int
  cl_expiresAt :: int
  cl_userID :: u64

record jwt_token =
  jt_secret :: string
  jt_duration :: int

type_synonym jwt_sign = "user_claims \<Rightarrow> string \<Rightarrow> go_error + string"
type_synonym jwt_parse = "int \<Rightarrow> string \<Rightarrow> (sign_method \<Rightarrow> go_error + string) \<Rightarrow> go_error + user_claims"

text \<open>\<open>Create\<close>: the UUID library's answer and what the two calls of \<open>time.Now\<close> give are arguments.\<close>

definition token_create :: "jwt_sign \<Rightarrow> string option \<Rightarrow> int \<Rightarrow> int \<Rightarrow> jwt_token \<Rightarrow> u64 \<Rightarrow> go_error + string" where
  "token_create sign uuid now now' t userID =
     (case uuid of
        None \<Rightarrow> Inl (WrapErr ''create JWT ID'' (LibErr ''uuid''))
      | Some tokenID \<Rightarrow>
          sign \<lparr>cl_id = tokenID, cl_subject = format_uint userID, cl_issuedAt = now,
            cl_expiresAt = now' + jt_duration t, cl_userID = userID\<rparr> (jt_secret t))"

definition token_key :: "jwt_token \<Rightarrow> sign_method \<Rightarrow> go_error + string" where
  "token_key t m = (if m \<noteq> HMAC then Inl (LibErr ''invalid token signing method'') else Inr (jt_secret t))"

text \<open>\<open>Verify\<close>; the claims have the type it passed to the library.\<close>

definition token_verify :: "jwt_parse \<Rightarrow> int \<Rightarrow> jwt_token \<Rightarrow> string \<Rightarrow> go_error + u64" where
  "token_verify parse now t token =
     (case parse now token (token_key t) of
        Inl e \<Rightarrow> Inl (WrapErr ''parse with claims'' e)
      | Inr claims \<Rightarrow> Inr (cl_userID claims))"

section \<open>The middleware\<close>

definition get_bearer_token :: "request \<Rightarrow> string" where
  "get_bearer_token req =
     (let hdr = rq_header req ''Authorization''
      in if \<not> has_prefix hdr ''Bearer '' then '''' else trim_prefix hdr ''Bearer '')"

definition auth_wrap :: "jwt_parse \<Rightarrow> int \<Rightarrow> jwt_token \<Rightarrow> 's handler \<Rightarrow> 's handler" where
  "auth_wrap parse now t handler req ws =
     (case ws of (w, s) \<Rightarrow>
        let token = get_bearer_token req
        in if token = '''' then Some (http_error '''' StatusUnauthorized w, s)
           else case token_verify parse now t token of
             Inl e \<Rightarrow> Some (http_error '''' StatusUnauthorized w, s)
           | Inr userID \<Rightarrow> handler (req\<lparr>rq_user := Some userID\<rparr>) (w, s))"

definition get_user :: "request \<Rightarrow> writer \<Rightarrow> u64 option \<times> writer" where
  "get_user req w =
     (case rq_user req of
        None \<Rightarrow> (None, http_error ''jwt user missing'' StatusUnauthorized w)
      | Some u \<Rightarrow> (Some u, w))"

section \<open>What the library promises\<close>

text \<open>
  A token is accepted until it expires when the callback gives the key it was signed with, and only
  a token whose method has a key is accepted.
\<close>

definition jwt_contract :: "jwt_sign \<Rightarrow> jwt_parse \<Rightarrow> bool" where
  "jwt_contract sign parse \<longleftrightarrow>
     (\<forall>c k token now kf. sign c k = Inr token \<and> kf HMAC = Inr k \<and> now < cl_expiresAt c \<longrightarrow> parse now token kf = Inr c)
     \<and> (\<forall>c now token kf. parse now token kf = Inr c \<longrightarrow> (\<exists>m k. kf m = Inr k) \<and> now < cl_expiresAt c)"

lemma jwt_contractD:
  assumes "jwt_contract sign parse"
  shows "sign c k = Inr token \<Longrightarrow> kf HMAC = Inr k \<Longrightarrow> now < cl_expiresAt c \<Longrightarrow> parse now token kf = Inr c"
    and "parse now token kf = Inr c \<Longrightarrow> now < cl_expiresAt c"
  using assms unfolding jwt_contract_def by blast+

lemma token_round_trip:
  assumes "jwt_contract sign parse" and "token_create sign uuid now now' t u = Inr token"
    and "later < now' + jt_duration t"
  shows "token_verify parse later t token = Inr u"
proof (cases uuid)
  case None
  with assms(2) show ?thesis by (simp add: token_create_def)
next
  case (Some i)
  let ?c = "\<lparr>cl_id = i, cl_subject = format_uint u, cl_issuedAt = now,
      cl_expiresAt = now' + jt_duration t, cl_userID = u\<rparr>"
  have "sign ?c (jt_secret t) = Inr token" using assms(2) Some by (simp add: token_create_def)
  from jwt_contractD(1) [OF assms(1) this, of "token_key t" later] assms(3)
  have "parse later token (token_key t) = Inr ?c" by (simp add: token_key_def)
  then show ?thesis by (simp add: token_verify_def)
qed

lemma auth_wrap_cases:
  assumes "fresh w"
  shows "(\<exists>u. token_verify parse now t (get_bearer_token req) = Inr u
      \<and> auth_wrap parse now t h req (w, s) = h (req\<lparr>rq_user := Some u\<rparr>) (w, s))
    \<or> (\<exists>w'. auth_wrap parse now t h req (w, s) = Some (w', s) \<and> wr_status w' = Some 401 \<and> wr_body w' = newline)"
  using assms by (auto simp: auth_wrap_def Let_def http_status split: sum.splits)

lemma get_bearer_token_of: "rq_header req ''Authorization'' = ''Bearer '' @ token \<Longrightarrow> get_bearer_token req = token"
  using has_prefix_append [of "''Bearer ''" token] trim_prefix_append [of "''Bearer ''" token]
  by (simp add: get_bearer_token_def)

end
