(* ===== verification/HttpApi.thy ===== *)
theory HttpApi
  imports Accounts Security
begin

text \<open>
  \<open>transport/http/handler\<close>: the REST interface. What the handlers are given (the database, the
  bcrypt, JWT and JSON libraries, the access token's settings) is the record \<open>http_deps\<close>; what the
  clock and the random sources answer while a request is served is the record \<open>http_oracle\<close>.
\<close>

section \<open>Dependencies\<close>

record credentials =
  cr_username :: string
  cr_password :: string

record 'db http_deps =
  hd_query :: "'db sql_query"
  hd_begin :: "'db \<Rightarrow> go_error option"
  hd_commit :: "'db \<Rightarrow> 'db \<Rightarrow> go_error option \<times> 'db"
  hd_generate :: "string \<Rightarrow> nat \<Rightarrow> go_error + string"
  hd_compare :: "string \<Rightarrow> string \<Rightarrow> go_error option"
  hd_sign :: jwt_sign
  hd_parse :: jwt_parse
  hd_token :: jwt_token
  hd_json :: json_strings
  hd_decode :: "string \<Rightarrow> go_error + credentials option"

record http_oracle =
  ho_random :: "byte list option"
  ho_uuid :: "string option"
  ho_now :: int
  ho_now' :: int

section \<open>Validation\<close>

definition ERequiredField :: string where
  "ERequiredField = ''required field''"

text \<open>The regular expression for user names.\<close>

definition username_char :: "char \<Rightarrow> bool" where
  "username_char c \<longleftrightarrow> c \<in> set ''0123456789''
     \<or> c \<in> set ''abcdefghijklmnopqrstuvwxyz'' \<or> c \<in> set ''ABCDEFGHIJKLMNOPQRSTUVWXYZ'' \<or> c \<in> set ''_-''"

definition username_matches :: "string \<Rightarrow> bool" where
  "username_matches s \<longleftrightarrow> s \<noteq> '''' \<and> list_all username_char s"

text \<open>The keys in the order JSON writes them.\<close>

definition sign_up_valid :: "credentials \<Rightarrow> field_errors" where
  "sign_up_valid req =
     (let password = (if cr_password req = '''' then [(''password'', ERequiredField)]
            else if length (cr_password req) < 6 \<or> length (cr_password req) > 100
            then [(''password'', ''must be between 6 and 100 characters'')] else []);
          username = (if cr_username req = '''' then [(''username'', ERequiredField)]
            else if length (cr_username req) < 4 \<or> length (cr_username req) > 40
            then [(''username'', ''must be between 6 and 40 characters'')]
            else if \<not> username_matches (cr_username req)
            then [(''username'', ''must contain only valid characters: a-z, A-Z, _, -, 0-9'')] else [])
      in password @ username)"

definition sign_in_valid :: "credentials \<Rightarrow> field_errors" where
  "sign_in_valid req =
     (if cr_password req = '''' then [(''password'', ERequiredField)] else [])
     @ (if cr_username req = '''' then [(''username'', ERequiredField)] else [])"

section \<open>Responses\<close>

definition send_http_error :: "go_error \<Rightarrow> writer \<Rightarrow> writer" where
  "send_http_error e w =
     (if errors_is e ErrEntityNotFound then http_error '''' StatusNotFound w
      else if errors_is e ErrInvalidCredentials then http_error ''Invalid credentials'' StatusBadRequest w
      else if errors_is e ErrUsernameTaken then http_error ''Username is taken'' StatusBadRequest w
      else http_error '''' StatusInternalServerError w)"

definition auth_res :: "json_strings \<Rightarrow> string \<Rightarrow> string" where
  "auth_res json token = json_object [json_member ''access_token'' (json token)]"

definition user_res :: "json_strings \<Rightarrow> user \<Rightarrow> string" where
  "user_res json u = json_object [json_member ''id'' (format_uint (us_id u)), json_member ''username'' (json (us_username u))]"

definition stream_key_res :: "json_strings \<Rightarrow> stream_key \<Rightarrow> string" where
  "stream_key_res json k = json_object [json_member ''stream_key'' (json (sk_key k))]"

definition send_auth_response :: "'db http_deps \<Rightarrow> http_oracle \<Rightarrow> u64 \<Rightarrow> writer \<Rightarrow> writer" where
  "send_auth_response d ora userID w =
     (case token_create (hd_sign d) (ho_uuid ora) (ho_now ora) (ho_now' ora) (hd_token d) userID of
        Inl e \<Rightarrow> send_http_error e w
      | Inr token \<Rightarrow> encode_body StatusCreated (auth_res (hd_json d) token) w)"

section \<open>Handlers\<close>

definition sign_up_handler :: "'db http_deps \<Rightarrow> http_oracle \<Rightarrow> 'db handler" where
  "sign_up_handler d ora req ws = do {
     (body, w) \<leftarrow> decode_body (hd_json d) (hd_decode d) sign_up_valid req (fst ws);
     (case body of
        None \<Rightarrow> Some (w, snd ws)
      | Some body \<Rightarrow>
          (case sign_up (hd_query d) (hd_begin d) (hd_commit d) (hd_generate d) (ho_random ora)
              (cr_username body) (cr_password body) (snd ws) of
             (Inl e, db) \<Rightarrow> Some (send_http_error e w, db)
           | (Inr user, db) \<Rightarrow> Some (send_auth_response d ora (us_id user) w, db)))
   }"

definition sign_in_handler :: "'db http_deps \<Rightarrow> http_oracle \<Rightarrow> 'db handler" where
  "sign_in_handler d ora req ws = do {
     (body, w) \<leftarrow> decode_body (hd_json d) (hd_decode d) sign_in_valid req (fst ws);
     (case body of
        None \<Rightarrow> Some (w, snd ws)
      | Some body \<Rightarrow>
          (case sign_in (hd_query d) (hd_compare d) (cr_username body) (cr_password body) (snd ws) of
             (Inl e, db) \<Rightarrow> Some (send_http_error e w, db)
           | (Inr user, db) \<Rightarrow> Some (send_auth_response d ora (us_id user) w, db)))
   }"

definition get_current :: "'db http_deps \<Rightarrow> 'db handler" where
  "get_current d req ws =
     (case get_user req (fst ws) of
        (None, w) \<Rightarrow> Some (w, snd ws)
      | (Some u, w) \<Rightarrow>
          (case users_get_by_id (hd_query d) u (snd ws) of
             (Inl e, db) \<Rightarrow> Some (send_http_error e w, db)
           | (Inr user, db) \<Rightarrow> Some (encode_body StatusOK (user_res (hd_json d) user) w, db)))"

definition usernames_prefix :: string where
  "usernames_prefix = ''/api/v1/users/usernames/''"

definition get_by_username :: "'db http_deps \<Rightarrow> 'db handler" where
  "get_by_username d req ws =
     (case users_get_by_username (hd_query d) (trim_prefix (rq_path req) usernames_prefix) (snd ws) of
        (Inl e, db) \<Rightarrow> Some (send_http_error e (fst ws), db)
      | (Inr user, db) \<Rightarrow> Some (encode_body StatusOK (user_res (hd_json d) user) (fst ws), db))"

definition get_of_current_user :: "'db http_deps \<Rightarrow> 'db handler" where
  "get_of_current_user d req ws =
     (case get_user req (fst ws) of
        (None, w) \<Rightarrow> Some (w, snd ws)
      | (Some u, w) \<Rightarrow>
          (case sk_get_by_user_id (hd_query d) u (snd ws) of
             (Inl e, db) \<Rightarrow>
               Some (if errors_is e ErrInactiveStreamKey then http_error '''' StatusNotFound w else send_http_error e w, db)
           | (Inr key, db) \<Rightarrow> Some (encode_body StatusOK (stream_key_res (hd_json d) key) w, db)))"

section \<open>Facts\<close>

lemma sign_up_valid_iff:
  "sign_up_valid req = [] \<longleftrightarrow> 4 \<le> length (cr_username req) \<and> length (cr_username req) \<le> 40
     \<and> list_all username_char (cr_username req) \<and> 6 \<le> length (cr_password req) \<and> length (cr_password req) \<le> 100"
  by (auto simp: sign_up_valid_def username_matches_def Let_def not_less)

lemma send_http_error_status:
  assumes "fresh w"
  shows "wr_status (send_http_error e w) = Some (if errors_is e ErrEntityNotFound then 404
    else if errors_is e ErrInvalidCredentials \<or> errors_is e ErrUsernameTaken then 400 else 500)"
  using assms by (simp add: send_http_error_def http_status)

text \<open>A response that tells the client nothing but its status and a fixed text.\<close>

lemma send_http_error_plain:
  "fresh w \<Longrightarrow> plain_error e \<Longrightarrow> wr_status (send_http_error e w) = Some 500 \<and> wr_body (send_http_error e w) = newline"
  by (simp add: send_http_error_def http_status)

lemma decode_body_cases:
  assumes "fresh w" and "hd_decode d (rq_body req) \<noteq> Inr None"
  shows "\<exists>b w'. decode_body json (hd_decode d) valid req w = Some (b, w')
    \<and> (case b of None \<Rightarrow> wr_status w' = Some 400
        | Some c \<Rightarrow> w' = w \<and> hd_decode d (rq_body req) = Inr (Some c) \<and> valid c = [])"
  using assms
  by (auto simp: decode_body_def http_status http_defs split: sum.splits option.splits)

end
