(* ===== verification/GoBytes.thy ===== *)
theory GoBytes
  imports Prelude
begin

text \<open>
  The part of Go's \<open>encoding/binary\<close> the program uses: big-endian integers written into and
  read from byte slices. A write that does not fit is a Go panic (index out of range).
  The locale \<open>byte_codec\<close> is the contract of a fixed-width encoder; its lemmas are proved
  once and used through the interpretations of the component theories.
\<close>

section \<open>Big-endian integers\<close>

definition be_u16 :: "u16 \<Rightarrow> byte list" where
  "be_u16 v = [ucast (drop_bit 8 v), ucast v]"

definition be_u32 :: "u32 \<Rightarrow> byte list" where
  "be_u32 v = [ucast (drop_bit 24 v), ucast (drop_bit 16 v), ucast (drop_bit 8 v), ucast v]"

definition of_be_u16 :: "byte list \<Rightarrow> u16" where
  "of_be_u16 bs = push_bit 8 (ucast (bs ! 0)) OR ucast (bs ! 1)"

definition of_be_u32 :: "byte list \<Rightarrow> u32" where
  "of_be_u32 bs = push_bit 24 (ucast (bs ! 0)) OR push_bit 16 (ucast (bs ! 1))
     OR push_bit 8 (ucast (bs ! 2)) OR ucast (bs ! 3)"

lemma length_be_u16 [simp]: "length (be_u16 v) = 2"
  by (simp add: be_u16_def)

lemma length_be_u32 [simp]: "length (be_u32 v) = 4"
  by (simp add: be_u32_def)

lemma of_be_u16_be: "of_be_u16 (be_u16 v) = v"
  unfolding of_be_u16_def be_u16_def
  by (rule bit_eqI) (auto simp: bit_simps)

lemma of_be_u32_be: "of_be_u32 (be_u32 v) = v"
  unfolding of_be_u32_def be_u32_def
proof (rule bit_eqI, goal_cases)
  case (1 n)
  then consider "n < 8" | "8 \<le> n" "n < 16" | "16 \<le> n" "n < 24" | "24 \<le> n" "n < 32"
    by fastforce
  then show ?case
    by cases (auto simp: bit_simps)
qed

section \<open>Writing into a slice\<close>

text \<open>\<open>put_at off src buf\<close> is \<open>PutUintN(buf[off:], v)\<close> and \<open>buf[off] = b\<close>.\<close>

definition put_at :: "nat \<Rightarrow> byte list \<Rightarrow> byte list \<Rightarrow> byte list option" where
  "put_at off src buf = (if off + length src \<le> length buf then Some (blit off src buf) else None)"

lemma put_at_fits [simp]:
  "off + length src \<le> length buf \<Longrightarrow> put_at off src buf = Some (blit off src buf)"
  by (simp add: put_at_def)

section \<open>Fixed-width codecs\<close>

locale byte_codec =
  fixes enc :: "'a \<Rightarrow> byte list"
    and dec :: "byte list \<Rightarrow> 'a"
    and size :: nat
    and valid :: "'a \<Rightarrow> bool"
  assumes enc_length: "length (enc a) = size"
    and dec_enc: "valid a \<Longrightarrow> dec (enc a) = a"
begin

lemma enc_inj: "valid a \<Longrightarrow> valid b \<Longrightarrow> enc a = enc b \<Longrightarrow> a = b"
  by (metis dec_enc)

lemma dec_prefix: "valid a \<Longrightarrow> dec (take size (enc a @ rest)) = a"
  by (simp add: enc_length dec_enc)

lemma append_split: "enc a @ r = enc b @ s \<longleftrightarrow> enc a = enc b \<and> r = s"
  by (simp add: enc_length)

end

interpretation u16: byte_codec be_u16 of_be_u16 2 "\<lambda>_. True"
  by unfold_locales (simp_all add: of_be_u16_be)

interpretation u32: byte_codec be_u32 of_be_u32 4 "\<lambda>_. True"
  by unfold_locales (simp_all add: of_be_u32_be)

end
