(* ===== verification/GoIO.thy ===== *)
theory GoIO
  imports GoBytes
begin

text \<open>
  The part of Go's \<open>io\<close>, \<open>net\<close> and channel semantics the program relies on.

  A reader is the script of what it will deliver: a list of chunks, each with the error that
  comes with its last byte. A \<open>Read\<close> into \<open>n\<close> bytes takes the next chunk, or its first
  \<open>n\<close> bytes, so every behaviour the \<open>io.Reader\<close> contract allows over a finite run (short
  reads, empty reads, data together with an error) is some script. After the script the reader
  is at end of file. A connection records what reached the peer and how many bytes the peer will
  still take before a write fails. A channel is its capacity, its queue and a closed flag.
\<close>

datatype io_err = EOF | ErrUnexpectedEOF | ErrShortWrite | ErrShortBuffer | IOErr string

section \<open>Readers\<close>

type_synonym reader = "(byte list \<times> io_err option) list"

fun go_read :: "nat \<Rightarrow> reader \<Rightarrow> byte list \<times> io_err option \<times> reader" where
  "go_read n [] = ([], Some EOF, [])"
| "go_read n ((c, e) # r) =
     (if length c \<le> n then (c, e, r) else (take n c, None, (drop n c, e) # r))"

text \<open>The bytes a reader still holds, and the readers that only ever report end of file.\<close>

definition content :: "reader \<Rightarrow> byte list" where
  "content r = concat (map fst r)"

definition plain :: "reader \<Rightarrow> bool" where
  "plain r \<longleftrightarrow> list_all (\<lambda>(c, e). e = None) r"

lemma content_simps [simp]: "content [] = []" "content ((c, e) # r) = c @ content r"
  by (simp_all add: content_def)

lemma plain_simps [simp]: "plain []" "plain ((c, e) # r) \<longleftrightarrow> e = None \<and> plain r"
  by (simp_all add: plain_def)

lemma go_read_length: "go_read n r = (c, e, r') \<Longrightarrow> length c \<le> n"
  by (cases "(n, r)" rule: go_read.cases) (auto split: if_splits)

lemma go_read_content: "go_read n r = (c, e, r') \<Longrightarrow> content r = c @ content r'"
  by (cases "(n, r)" rule: go_read.cases) (auto split: if_splits simp flip: append_assoc)

lemma go_read_plain:
  "plain r \<Longrightarrow> go_read n r = (c, e, r') \<Longrightarrow>
     plain r' \<and> (e = None \<or> e = Some EOF \<and> r = [] \<and> c = [])"
  by (cases "(n, r)" rule: go_read.cases) (auto split: if_splits)

text \<open>Progress: a read that does not fill its window and reports nothing used up a chunk.\<close>

lemma go_read_shrinks:
  "go_read n r = (c, None, r') \<Longrightarrow> length c < n \<Longrightarrow> length r' < length r"
  by (cases "(n, r)" rule: go_read.cases) (auto split: if_splits)

section \<open>\<open>io.ReadFull\<close>\<close>

function read_full :: "nat \<Rightarrow> byte list \<Rightarrow> reader \<Rightarrow> byte list \<times> io_err option \<times> reader" where
  "read_full need acc r =
     (if need = 0 then (acc, None, r)
      else case go_read need r of (c, e, r') \<Rightarrow>
        if need \<le> length c then (acc @ c, None, r')
        else (case e of
            None \<Rightarrow> read_full (need - length c) (acc @ c) r'
          | Some EOF \<Rightarrow> (acc @ c, Some (if acc @ c = [] then EOF else ErrUnexpectedEOF), r')
          | Some e' \<Rightarrow> (acc @ c, Some e', r')))"
  by pat_completeness auto
termination
  by (relation "measure (\<lambda>(need, acc, r). length r)") (auto dest: go_read_shrinks [OF sym])

declare read_full.simps [simp del]

lemma read_full_Nil: "read_full need acc [] =
    (if need = 0 then (acc, None, [])
     else (acc, Some (if acc = [] then EOF else ErrUnexpectedEOF), []))"
  by (simp add: read_full.simps)

text \<open>What any reader delivers: a prefix of its content, complete exactly when no error is returned.\<close>

lemma read_full_any:
  "read_full need acc r = (d, e, r') \<Longrightarrow>
     \<exists>got. d = acc @ got \<and> content r = got @ content r' \<and> length got \<le> need
       \<and> (e = None \<longleftrightarrow> length got = need)"
proof (induction need acc r arbitrary: d e r' rule: read_full.induct)
  case (1 need acc r)
  obtain c f s where cs: "go_read need r = (c, f, s)" by (cases "go_read need r")
  note len = go_read_length [OF cs] and con = go_read_content [OF cs]
  show ?case
  proof (cases "need = 0 \<or> need \<le> length c \<or> f \<noteq> None")
    case True
    then show ?thesis
      using "1.prems" cs len con
      by (subst (asm) read_full.simps)
        (auto split: option.splits io_err.splits if_splits)
  next
    case False
    then have rec: "read_full (need - length c) (acc @ c) s = (d, e, r')"
      using "1.prems" cs by (subst (asm) read_full.simps) simp
    obtain got where "d = (acc @ c) @ got" "content s = got @ content r'"
      "length got \<le> need - length c" "e = None \<longleftrightarrow> length got = need - length c"
      using "1.IH" [OF _ cs [symmetric] refl _ _ rec] False by auto
    then show ?thesis
      using con len False by (intro exI [of _ "c @ got"]) auto
  qed
qed

lemma read_full_plain:
  assumes "plain r"
  shows "read_full need acc r = (d, e, r') \<Longrightarrow>
     plain r' \<and> (e = None \<or> e = Some EOF \<and> d = [] \<or> e = Some ErrUnexpectedEOF \<and> d \<noteq> [])"
  using assms
proof (induction need acc r arbitrary: d e r' rule: read_full.induct)
  case (1 need acc r)
  obtain c f s where cs: "go_read need r = (c, f, s)" by (cases "go_read need r")
  note pl = go_read_plain [OF "1.prems"(2) cs]
  show ?case
  proof (cases "need = 0 \<or> need \<le> length c \<or> f \<noteq> None")
    case True
    then show ?thesis
      using "1.prems" cs pl
      by (subst (asm) read_full.simps) (auto split: option.splits io_err.splits if_splits)
  next
    case False
    then have rec: "read_full (need - length c) (acc @ c) s = (d, e, r')"
      using "1.prems" cs by (subst (asm) read_full.simps) simp
    show ?thesis
      using "1.IH" [OF _ cs [symmetric] refl _ _ rec] False pl by auto
  qed
qed

lemma read_full_exhausts:
  assumes "plain r"
  shows "read_full need acc r = (d, e, r') \<Longrightarrow> e \<noteq> None \<Longrightarrow> r' = []"
  using assms
proof (induction need acc r arbitrary: d e r' rule: read_full.induct)
  case (1 need acc r)
  obtain c f s where cs: "go_read need r = (c, f, s)" by (cases "go_read need r")
  note pl = go_read_plain [OF "1.prems"(3) cs]
  show ?case
  proof (cases "need = 0 \<or> need \<le> length c \<or> f \<noteq> None")
    case True
    then show ?thesis
      using "1.prems" cs pl
      by (subst (asm) read_full.simps) (auto split: option.splits io_err.splits if_splits)
  next
    case False
    then have rec: "read_full (need - length c) (acc @ c) s = (d, e, r')"
      using "1.prems" cs by (subst (asm) read_full.simps) simp
    show ?thesis
      using "1.IH" [OF _ cs [symmetric] refl _ _ rec] "1.prems" False pl by auto
  qed
qed

text \<open>On a plain reader \<open>ReadFull\<close> succeeds exactly when enough bytes are there.\<close>

lemma read_full_enough:
  assumes "plain r" and "n \<le> length (content r)"
  shows "\<exists>r'. read_full n [] r = (take n (content r), None, r') \<and> plain r'
    \<and> content r' = drop n (content r)"
proof -
  obtain d e r' where eq: "read_full n [] r = (d, e, r')" by (cases "read_full n [] r")
  from read_full_any [OF eq] obtain got where got: "d = got" "content r = got @ content r'"
    "length got \<le> n" "e = None \<longleftrightarrow> length got = n" by auto
  have "plain r'" using read_full_plain [OF assms(1) eq] by simp
  have "e = None"
  proof (rule ccontr)
    assume "e \<noteq> None"
    with got have short: "length got < n" by auto
    then have "content r' \<noteq> []" using got assms(2) by auto
    moreover have "content r' = []" using read_full_exhausts [OF assms(1) eq] \<open>e \<noteq> None\<close> by simp
    ultimately show False by simp
  qed
  then show ?thesis using eq got \<open>plain r'\<close> by (intro exI [of _ r']) auto
qed

section \<open>Connections\<close>

record conn =
  cn_out :: "byte list"
  cn_closed :: bool
  cn_budget :: "nat option"

text \<open>A write either reaches the peer whole or fails, perhaps after part of it was sent.\<close>

definition conn_write :: "byte list \<Rightarrow> conn \<Rightarrow> io_err option \<times> conn" where
  "conn_write data k =
     (if cn_closed k then (Some (IOErr ''use of closed network connection''), k)
      else case cn_budget k of
        None \<Rightarrow> (None, k\<lparr>cn_out := cn_out k @ data\<rparr>)
      | Some n \<Rightarrow>
          if length data \<le> n
          then (None, k\<lparr>cn_out := cn_out k @ data, cn_budget := Some (n - length data)\<rparr>)
          else (Some (IOErr ''write''), k\<lparr>cn_out := cn_out k @ take n data, cn_budget := Some 0\<rparr>))"

text \<open>\<open>net.Buffers.WriteTo\<close>: writes the slices in order and drops what was written.\<close>

fun buffers_write_to :: "byte list list \<Rightarrow> conn \<Rightarrow> io_err option \<times> byte list list \<times> conn" where
  "buffers_write_to [] k = (None, [], k)"
| "buffers_write_to (b # bs) k =
     (case conn_write b k of
        (None, k') \<Rightarrow> buffers_write_to bs k'
      | (Some e, k') \<Rightarrow> (Some e, b # bs, k'))"

lemma conn_write_ok:
  "conn_write data k = (None, k') \<Longrightarrow> cn_out k' = cn_out k @ data \<and> cn_closed k' = cn_closed k"
  by (auto simp: conn_write_def split: if_splits option.splits)

lemma buffers_write_to_ok:
  "buffers_write_to bs k = (None, rest, k') \<Longrightarrow>
     rest = [] \<and> cn_out k' = cn_out k @ concat bs \<and> cn_closed k' = cn_closed k"
  by (induction bs arbitrary: k)
    (auto dest: conn_write_ok split: prod.splits option.splits)

lemma conn_write_prefix:
  "conn_write data k = (e, k') \<Longrightarrow>
     \<exists>n. cn_out k' = cn_out k @ take n data \<and> cn_closed k' = cn_closed k"
  by (cases "cn_budget k") (auto simp: conn_write_def split: if_splits intro: exI [of _ "length data"]
    exI [of _ 0])

section \<open>Channels\<close>

record 'a chan =
  ch_cap :: nat
  ch_queue :: "'a list"
  ch_closed :: bool

datatype 'a received = Item 'a | Closed | WouldBlock

definition make_chan :: "nat \<Rightarrow> 'a chan" where
  "make_chan n = \<lparr>ch_cap = n, ch_queue = [], ch_closed = False\<rparr>"

text \<open>
  \<open>select { case ch <- x: ... default: ... }\<close>: a send on a closed channel panics even under
  a \<open>select\<close>; a full channel takes the default branch.
\<close>

definition try_send :: "'a \<Rightarrow> 'a chan \<Rightarrow> (bool \<times> 'a chan) option" where
  "try_send x ch =
     (if ch_closed ch then None
      else if length (ch_queue ch) < ch_cap ch
      then Some (True, ch\<lparr>ch_queue := ch_queue ch @ [x]\<rparr>)
      else Some (False, ch))"

text \<open>\<open>close(ch)\<close>: closing twice panics.\<close>

definition close_chan :: "'a chan \<Rightarrow> 'a chan option" where
  "close_chan ch = (if ch_closed ch then None else Some (ch\<lparr>ch_closed := True\<rparr>))"

text \<open>\<open>x, open := <-ch\<close>: what is queued is still delivered after the channel was closed.\<close>

definition recv_chan :: "'a chan \<Rightarrow> 'a received \<times> 'a chan" where
  "recv_chan ch =
     (case ch_queue ch of
        x # q \<Rightarrow> (Item x, ch\<lparr>ch_queue := q\<rparr>)
      | [] \<Rightarrow> (if ch_closed ch then Closed else WouldBlock, ch))"

definition chan_ok :: "'a chan \<Rightarrow> bool" where
  "chan_ok ch \<longleftrightarrow> length (ch_queue ch) \<le> ch_cap ch"

lemma try_send_chan_ok: "chan_ok ch \<Longrightarrow> try_send x ch = Some (ok, ch') \<Longrightarrow> chan_ok ch'"
  by (auto simp: chan_ok_def try_send_def split: if_splits)

lemma recv_chan_ok: "chan_ok ch \<Longrightarrow> chan_ok (snd (recv_chan ch))"
  by (auto simp: chan_ok_def recv_chan_def split: list.splits)

end
