(* ===== verification/Systems.thy ===== *)
theory Systems
  imports Prelude
begin

text \<open>
  Components as machines: operations that may panic, guarded by what their callers guarantee. The
  reachable states are given by rules; the contract \<open>panic_free\<close> says that an invariant holds at
  the start and that every allowed operation returns and keeps it. The media pipeline, the event bus
  and the WebSocket connection handler are its instances.
\<close>

inductive reachable ::
    "('s \<Rightarrow> bool) \<Rightarrow> ('o \<Rightarrow> 's \<Rightarrow> bool) \<Rightarrow> ('o \<Rightarrow> 's \<Rightarrow> 's option) \<Rightarrow> 's \<Rightarrow> bool"
  for init allowed exec where
  start: "init s \<Longrightarrow> reachable init allowed exec s"
| step: "reachable init allowed exec s \<Longrightarrow> allowed op s \<Longrightarrow> exec op s = Some s'
    \<Longrightarrow> reachable init allowed exec s'"

inductive_cases reachableE: "reachable init allowed exec s"

fun run_machine :: "('o \<Rightarrow> 's \<Rightarrow> 's option) \<Rightarrow> 'o list \<Rightarrow> 's \<Rightarrow> 's option" where
  "run_machine exec [] s = Some s"
| "run_machine exec (op # ops) s = do {
     s \<leftarrow> exec op s;
     run_machine exec ops s
   }"

fun all_allowed :: "('o \<Rightarrow> 's \<Rightarrow> bool) \<Rightarrow> ('o \<Rightarrow> 's \<Rightarrow> 's option) \<Rightarrow> 'o list \<Rightarrow> 's \<Rightarrow> bool" where
  "all_allowed allowed exec [] s = True"
| "all_allowed allowed exec (op # ops) s =
     (allowed op s \<and> (case exec op s of None \<Rightarrow> True | Some s' \<Rightarrow> all_allowed allowed exec ops s'))"

lemma run_machine_append:
  "run_machine exec (xs @ ys) s = Option.bind (run_machine exec xs s) (run_machine exec ys)"
  by (induction xs arbitrary: s) (simp_all split: bind_split)

lemma reachable_run:
  "reachable init allowed exec s \<Longrightarrow> all_allowed allowed exec ops s \<Longrightarrow>
     run_machine exec ops s = Some s' \<Longrightarrow> reachable init allowed exec s'"
proof (induction ops arbitrary: s)
  case (Cons op ops)
  from Cons.prems(3) obtain t where t: "exec op s = Some t" "run_machine exec ops t = Some s'"
    by (auto simp: bind_Some_iff)
  with Cons.prems(2) have "allowed op s" "all_allowed allowed exec ops t" by simp_all
  with Cons.IH [OF reachable.step [OF Cons.prems(1) _ t(1)]] t(2) show ?case by blast
qed simp

text \<open>Runs stay runs when the steps that are taken are allowed by another condition too.\<close>

lemma reachable_weaken:
  assumes "reachable init allowed exec s"
    and "\<And>op s s'. reachable init allowed' exec s \<Longrightarrow> allowed op s \<Longrightarrow> exec op s = Some s' \<Longrightarrow> allowed' op s"
  shows "reachable init allowed' exec s"
  using assms(1)
proof (induction rule: reachable.induct)
  case (step s op s')
  then show ?case using assms(2) by (blast intro: reachable.step)
qed (rule reachable.start)

locale panic_free =
  fixes init :: "'s \<Rightarrow> bool"
    and allowed :: "'o \<Rightarrow> 's \<Rightarrow> bool"
    and exec :: "'o \<Rightarrow> 's \<Rightarrow> 's option"
    and inv :: "'s \<Rightarrow> bool"
  assumes init_inv: "init s \<Longrightarrow> inv s"
    and progress: "inv s \<Longrightarrow> allowed op s \<Longrightarrow> \<exists>s'. exec op s = Some s' \<and> inv s'"
begin

lemma reachable_inv: "reachable init allowed exec s \<Longrightarrow> inv s"
proof (induction rule: reachable.induct)
  case (start s)
  then show ?case by (rule init_inv)
next
  case (step s op s')
  then show ?case using progress by fastforce
qed

lemma reachable_progress:
  "reachable init allowed exec s \<Longrightarrow> allowed op s \<Longrightarrow> exec op s \<noteq> None"
  using progress [OF reachable_inv] by fastforce

lemma run_progress:
  "inv s \<Longrightarrow> all_allowed allowed exec ops s \<Longrightarrow> \<exists>s'. run_machine exec ops s = Some s' \<and> inv s'"
proof (induction ops arbitrary: s)
  case (Cons op ops)
  obtain t where "exec op s = Some t" "inv t" using progress Cons.prems by fastforce
  with Cons show ?case by simp
qed simp

end

end
