(* ===== verification/EventBus.thy ===== *)
theory EventBus
  imports GoIO GoStrings Systems
begin

text \<open>
  \<open>core/pubsub\<close> and \<open>infra/mem_pubsub\<close>: the in-memory event bus. Topics are dotted; an event is
  offered, without waiting, to the subscribers of its topic and of every dotted prefix of it. A
  subscriber is an index into the bus's arena. Go's iteration order over a set of subscribers, or of
  topics, is an argument.
\<close>

section \<open>Events\<close>

datatype event = StreamStarted u64 | StreamViewers u64 int

fun event_topic :: "event \<Rightarrow> string" where
  "event_topic (StreamStarted u) = ''stream.'' @ format_uint u @ ''.started''"
| "event_topic (StreamViewers u n) = ''stream.'' @ format_uint u @ ''.viewers''"

section \<open>The bus\<close>

record subscriber =
  es_events :: "event chan"
  es_topics :: "string list"

record event_bus =
  eb_topicSubs :: "string \<rightharpoonup> nat list"
  eb_subs :: "subscriber list"

definition subEventsMaxBuf :: nat where "subEventsMaxBuf = 16"

definition new_bus :: event_bus where
  "new_bus = \<lparr>eb_topicSubs = Map.empty, eb_subs = []\<rparr>"

definition new_subscriber :: "event_bus \<Rightarrow> nat \<times> event_bus" where
  "new_subscriber b = (length (eb_subs b),
     b\<lparr>eb_subs := eb_subs b @ [\<lparr>es_events = make_chan subEventsMaxBuf, es_topics = []\<rparr>]\<rparr>)"

text \<open>\<open>forEachSection\<close> as the list of sections it calls back with.\<close>

definition sections :: "string \<Rightarrow> string list" where
  "sections topic = map (\<lambda>i. take i topic) (filter (\<lambda>i. topic ! i = CHR ''.'') [0..<length topic]) @ [topic]"

definition subs_at :: "event_bus \<Rightarrow> string \<Rightarrow> nat list" where
  "subs_at b topic = (case eb_topicSubs b topic of None \<Rightarrow> [] | Some subs \<Rightarrow> subs)"

definition bus_subscribe :: "string \<Rightarrow> nat \<Rightarrow> event_bus \<Rightarrow> event_bus" where
  "bus_subscribe topic s b =
     b\<lparr>eb_topicSubs := (eb_topicSubs b)(topic \<mapsto> List.insert s (subs_at b topic))\<rparr>"

definition bus_unsubscribe :: "string \<Rightarrow> nat \<Rightarrow> event_bus \<Rightarrow> event_bus" where
  "bus_unsubscribe topic s b =
     (case eb_topicSubs b topic of
        None \<Rightarrow> b
      | Some subs \<Rightarrow> b\<lparr>eb_topicSubs := (eb_topicSubs b)(topic \<mapsto> removeAll s subs)\<rparr>)"

text \<open>The \<open>select\<close> of \<open>Publish\<close> for one subscriber: a full channel loses the event.\<close>

definition offer :: "event \<Rightarrow> nat \<Rightarrow> event_bus \<Rightarrow> event_bus option" where
  "offer ev s b = do {
     sub \<leftarrow> deref (eb_subs b) s;
     (_, ch) \<leftarrow> try_send ev (es_events sub);
     Some (b\<lparr>eb_subs := (eb_subs b)[s := sub\<lparr>es_events := ch\<rparr>]\<rparr>)
   }"

fun offer_all :: "event \<Rightarrow> nat list \<Rightarrow> event_bus \<Rightarrow> event_bus option" where
  "offer_all ev [] b = Some b"
| "offer_all ev (s # ss) b = do {
     b \<leftarrow> offer ev s b;
     offer_all ev ss b
   }"

fun publish_sections ::
    "(string \<Rightarrow> nat list \<Rightarrow> nat list) \<Rightarrow> event \<Rightarrow> string list \<Rightarrow> event_bus \<Rightarrow> event_bus option" where
  "publish_sections perm ev [] b = Some b"
| "publish_sections perm ev (sec # secs) b = do {
     b \<leftarrow> offer_all ev (perm sec (subs_at b sec)) b;
     publish_sections perm ev secs b
   }"

definition bus_publish :: "(string \<Rightarrow> nat list \<Rightarrow> nat list) \<Rightarrow> event \<Rightarrow> event_bus \<Rightarrow> event_bus option" where
  "bus_publish perm ev b = publish_sections perm ev (sections (event_topic ev)) b"

section \<open>Subscribers\<close>

text \<open>\<open>Subscribe\<close> and \<open>Unsubscribe\<close>: the bus and the subscriber's own topics change in two
  critical sections.\<close>

definition note_topic :: "nat \<Rightarrow> (string list \<Rightarrow> string list) \<Rightarrow> event_bus \<Rightarrow> event_bus option" where
  "note_topic s f b = do {
     sub \<leftarrow> deref (eb_subs b) s;
     Some (b\<lparr>eb_subs := (eb_subs b)[s := sub\<lparr>es_topics := f (es_topics sub)\<rparr>]\<rparr>)
   }"

definition sub_subscribe :: "nat \<Rightarrow> string \<Rightarrow> event_bus \<Rightarrow> event_bus option" where
  "sub_subscribe s topic b = note_topic s (List.insert topic) (bus_subscribe topic s b)"

definition sub_unsubscribe :: "nat \<Rightarrow> string \<Rightarrow> event_bus \<Rightarrow> event_bus option" where
  "sub_unsubscribe s topic b = note_topic s (removeAll topic) (bus_unsubscribe topic s b)"

text \<open>\<open>Read\<close>: \<open>Closed\<close> is \<open>ErrSubscriberClosed\<close>; on \<open>WouldBlock\<close> the caller waits.\<close>

definition sub_read :: "nat \<Rightarrow> event_bus \<Rightarrow> (event received \<times> event_bus) option" where
  "sub_read s b = do {
     sub \<leftarrow> deref (eb_subs b) s;
     let (got, ch) = recv_chan (es_events sub);
     Some (got, b\<lparr>eb_subs := (eb_subs b)[s := sub\<lparr>es_events := ch\<rparr>]\<rparr>)
   }"

fun unsubscribe_all :: "nat \<Rightarrow> string list \<Rightarrow> event_bus \<Rightarrow> event_bus" where
  "unsubscribe_all s [] b = b"
| "unsubscribe_all s (topic # topics) b = unsubscribe_all s topics (bus_unsubscribe topic s b)"

definition sub_close :: "(string list \<Rightarrow> string list) \<Rightarrow> nat \<Rightarrow> event_bus \<Rightarrow> event_bus option" where
  "sub_close perm s b = do {
     sub \<leftarrow> deref (eb_subs b) s;
     let b = unsubscribe_all s (perm (es_topics sub)) b;
     ch \<leftarrow> close_chan (es_events sub);
     Some (b\<lparr>eb_subs := (eb_subs b)[s := sub\<lparr>es_events := ch, es_topics := []\<rparr>]\<rparr>)
   }"

section \<open>Sections of a topic\<close>

lemma sections_spec: "p \<in> set (sections t) \<longleftrightarrow> p = t \<or> prefix (p @ ''.'') t"
proof -
  have "(\<exists>i < length t. t ! i = CHR ''.'' \<and> p = take i t) \<longleftrightarrow> prefix (p @ ''.'') t"
  proof
    assume "\<exists>i < length t. t ! i = CHR ''.'' \<and> p = take i t"
    then obtain i where i: "i < length t" "t ! i = CHR ''.''" "p = take i t" by blast
    then have "p @ ''.'' = take (Suc i) t" by (simp add: take_Suc_conv_app_nth)
    then show "prefix (p @ ''.'') t" by (metis take_is_prefix)
  next
    assume "prefix (p @ ''.'') t"
    then obtain u where "t = p @ CHR ''.'' # u" by (auto simp: prefix_def)
    then show "\<exists>i < length t. t ! i = CHR ''.'' \<and> p = take i t"
      by (intro exI [of _ "length p"]) simp
  qed
  then show ?thesis by (auto simp: sections_def)
qed

lemma distinct_sections: "distinct (sections t)"
proof -
  have "distinct (map (\<lambda>i. take i t) (filter (\<lambda>i. t ! i = CHR ''.'') [0..<length t]))"
  proof (subst distinct_map, intro conjI inj_onI)
    fix i j
    assume "i \<in> set (filter (\<lambda>i. t ! i = CHR ''.'') [0..<length t])"
      and "j \<in> set (filter (\<lambda>i. t ! i = CHR ''.'') [0..<length t])" and e: "take i t = take j t"
    then have "i < length t" "j < length t" by auto
    then show "i = j" using arg_cong [OF e, of length] by simp
  qed simp
  moreover have "t \<noteq> take i t" if "i < length t" for i
    using that by (metis length_take less_irrefl min.absorb4)
  ultimately show ?thesis by (fastforce simp: sections_def)
qed

lemma sections_append_plain: "CHR ''.'' \<notin> set s \<Longrightarrow> sections s = [s]"
  by (auto simp: sections_def filter_empty_conv in_set_conv_nth)

lemma sections_dot: "CHR ''.'' \<notin> set s \<Longrightarrow> sections (s @ CHR ''.'' # t) = s # map (\<lambda>u. s @ CHR ''.'' # u) (sections t)"
proof -
  assume s: "CHR ''.'' \<notin> set s"
  have idx: "[0..<length (s @ CHR ''.'' # t)] = [0..<length s] @ [length s] @ map (\<lambda>i. Suc (length s) + i) [0..<length t]"
  proof -
    have "map (\<lambda>i. Suc (length s) + i) [0..<length t] = [Suc (length s)..<Suc (length s) + length t]"
      using map_add_upt [of "Suc (length s)" "length t"] by (simp add: add.commute)
    then show ?thesis
      using upt_add_eq_append [of 0 "length s" "Suc (length t)"] by (simp add: upt_conv_Cons del: upt_Suc)
  qed
  have none: "filter (\<lambda>i. (s @ CHR ''.'' # t) ! i = CHR ''.'') [0..<length s] = []"
    using s by (auto simp: filter_empty_conv nth_append in_set_conv_nth)
  show ?thesis
    unfolding sections_def idx filter_append none
    by (simp add: filter_map o_def nth_append)
qed

section \<open>The invariant\<close>

definition sub_ok :: "subscriber \<Rightarrow> bool" where
  "sub_ok sub \<longleftrightarrow> chan_ok (es_events sub) \<and> distinct (es_topics sub)
     \<and> (ch_closed (es_events sub) \<longrightarrow> es_topics sub = [])"

text \<open>The bus and the subscribers agree on who subscribed to what.\<close>

definition bus_ok :: "event_bus \<Rightarrow> bool" where
  "bus_ok b \<longleftrightarrow> (\<forall>sub \<in> set (eb_subs b). sub_ok sub) \<and> (\<forall>t. distinct (subs_at b t))
     \<and> (\<forall>t s. s \<in> set (subs_at b t) \<longleftrightarrow> s < length (eb_subs b) \<and> t \<in> set (es_topics (eb_subs b ! s)))"

lemma bus_okD:
  assumes "bus_ok b"
  shows "s < length (eb_subs b) \<Longrightarrow> sub_ok (eb_subs b ! s)" and "distinct (subs_at b t)"
    and "s \<in> set (subs_at b t) \<longleftrightarrow> s < length (eb_subs b) \<and> t \<in> set (es_topics (eb_subs b ! s))"
  using assms by (auto simp: bus_ok_def)

lemma bus_okI:
  assumes "\<And>s. s < length (eb_subs b) \<Longrightarrow> sub_ok (eb_subs b ! s)" and "\<And>t. distinct (subs_at b t)"
    and "\<And>s t. s \<in> set (subs_at b t) \<longleftrightarrow> s < length (eb_subs b) \<and> t \<in> set (es_topics (eb_subs b ! s))"
  shows "bus_ok b"
  using assms by (auto simp: bus_ok_def in_set_conv_nth)

lemma new_bus_ok: "bus_ok new_bus"
  by (rule bus_okI) (simp_all add: new_bus_def subs_at_def)

lemma subs_at_cong: "eb_topicSubs b' = eb_topicSubs b \<Longrightarrow> subs_at b' = subs_at b"
  by (simp add: subs_at_def fun_eq_iff)

lemma new_subscriber_ok:
  assumes "bus_ok b"
  shows "bus_ok (snd (new_subscriber b))"
proof -
  have at: "subs_at (snd (new_subscriber b)) = subs_at b"
    by (rule subs_at_cong) (simp add: new_subscriber_def)
  show ?thesis
    by (rule bus_okI)
      (use bus_okD [OF assms] at in \<open>auto simp: new_subscriber_def nth_append sub_ok_def make_chan_def
        chan_ok_def less_Suc_eq\<close>)
qed

text \<open>A subscriber that is subscribed to anything is open.\<close>

lemma subscribed_open: "bus_ok b \<Longrightarrow> s \<in> set (subs_at b t) \<Longrightarrow> \<not> ch_closed (es_events (eb_subs b ! s))"
  using bus_okD(1) bus_okD(3) by (fastforce simp: sub_ok_def)

section \<open>Publishing\<close>

definition offered :: "event \<Rightarrow> subscriber \<Rightarrow> subscriber" where
  "offered ev sub = (if length (ch_queue (es_events sub)) < ch_cap (es_events sub)
     then sub\<lparr>es_events := es_events sub\<lparr>ch_queue := ch_queue (es_events sub) @ [ev]\<rparr>\<rparr> else sub)"

definition on_subs :: "(nat \<Rightarrow> subscriber \<Rightarrow> subscriber) \<Rightarrow> event_bus \<Rightarrow> event_bus" where
  "on_subs f b = b\<lparr>eb_subs := map (\<lambda>i. f i (eb_subs b ! i)) [0..<length (eb_subs b)]\<rparr>"

lemma on_subs_simps [simp]: "length (eb_subs (on_subs f b)) = length (eb_subs b)"
  "eb_topicSubs (on_subs f b) = eb_topicSubs b" "subs_at (on_subs f b) = subs_at b"
  "i < length (eb_subs b) \<Longrightarrow> eb_subs (on_subs f b) ! i = f i (eb_subs b ! i)"
  by (auto simp: on_subs_def subs_at_def)

lemma on_subs_comp: "on_subs g (on_subs f b) = on_subs (\<lambda>i x. g i (f i x)) b"
  by (auto simp: on_subs_def intro!: nth_equalityI)

lemma on_subs_id: "(\<And>i. f i = (\<lambda>x. x)) \<Longrightarrow> on_subs f b = b"
  by (simp add: on_subs_def map_nth)

lemma offered_simps [simp]: "es_topics (offered ev sub) = es_topics sub"
  "ch_closed (es_events (offered ev sub)) = ch_closed (es_events sub)"
  "ch_cap (es_events (offered ev sub)) = ch_cap (es_events sub)"
  by (simp_all add: offered_def)

lemma offer_eq:
  assumes "s < length (eb_subs b)" and "\<not> ch_closed (es_events (eb_subs b ! s))"
  shows "offer ev s b = Some (on_subs (\<lambda>i x. if i = s then offered ev x else x) b)"
  using assms by (auto simp: offer_def try_send_def on_subs_def offered_def intro!: nth_equalityI
      event_bus.equality split: bind_split)

lemma offer_all_eq:
  assumes "distinct ss" and "\<forall>s \<in> set ss. s < length (eb_subs b) \<and> \<not> ch_closed (es_events (eb_subs b ! s))"
  shows "offer_all ev ss b = Some (on_subs (\<lambda>i x. if i \<in> set ss then offered ev x else x) b)"
  using assms
proof (induction ss arbitrary: b)
  case Nil
  then show ?case by (simp add: on_subs_id)
next
  case (Cons s ss)
  let ?b = "on_subs (\<lambda>i x. if i = s then offered ev x else x) b"
  have "offer_all ev ss ?b = Some (on_subs (\<lambda>i x. if i \<in> set ss then offered ev x else x) ?b)"
    by (rule Cons.IH) (use Cons.prems in auto)
  moreover have "(\<lambda>i x. if i \<in> set ss then offered ev (if i = s then offered ev x else x) else if i = s then offered ev x else x)
      = (\<lambda>i x. if i \<in> set (s # ss) then offered ev x else x)"
    using Cons.prems(1) by (auto simp: fun_eq_iff)
  moreover have "offer ev s b = Some ?b" using Cons.prems(2) by (intro offer_eq) simp_all
  ultimately show ?case by (simp add: on_subs_comp del: set_simps)
qed

definition hits :: "event_bus \<Rightarrow> string list \<Rightarrow> nat \<Rightarrow> nat" where
  "hits b secs i = length (filter (\<lambda>sec. i \<in> set (subs_at b sec)) secs)"

lemma publish_sections_eq:
  assumes "\<And>sec. permutes_keys (perm sec)" and "\<And>t. distinct (subs_at b t)"
    and "\<And>t s. s \<in> set (subs_at b t) \<Longrightarrow> s < length (eb_subs b) \<and> \<not> ch_closed (es_events (eb_subs b ! s))"
  shows "publish_sections perm ev secs b = Some (on_subs (\<lambda>i. offered ev ^^ hits b secs i) b)"
  using assms(2,3)
proof (induction secs arbitrary: b)
  case Nil
  then show ?case by (simp add: hits_def on_subs_id)
next
  case (Cons sec secs)
  let ?b = "on_subs (\<lambda>i x. if i \<in> set (subs_at b sec) then offered ev x else x) b"
  have one: "offer_all ev (perm sec (subs_at b sec)) b = Some ?b"
    using offer_all_eq [of "perm sec (subs_at b sec)" b ev] Cons.prems permutes_keysD [OF assms(1)] by simp
  have "publish_sections perm ev secs ?b = Some (on_subs (\<lambda>i. offered ev ^^ hits ?b secs i) ?b)"
    by (rule Cons.IH) (use Cons.prems in auto)
  moreover have "(\<lambda>i x. (offered ev ^^ hits ?b secs i) (if i \<in> set (subs_at b sec) then offered ev x else x))
      = (\<lambda>i. offered ev ^^ hits b (sec # secs) i)"
    by (auto simp: fun_eq_iff hits_def simp del: funpow.simps simp: funpow_Suc_right)
  ultimately show ?case by (simp add: one on_subs_comp)
qed

lemma funpow_offered: "es_topics ((offered ev ^^ k) sub) = es_topics sub"
  "ch_closed (es_events ((offered ev ^^ k) sub)) = ch_closed (es_events sub)"
  "ch_cap (es_events ((offered ev ^^ k) sub)) = ch_cap (es_events sub)"
  by (induction k) simp_all

lemma funpow_offered_queue:
  "chan_ok (es_events sub) \<Longrightarrow> ch_queue (es_events ((offered ev ^^ k) sub)) = ch_queue (es_events sub)
     @ replicate (min k (ch_cap (es_events sub) - length (ch_queue (es_events sub)))) ev"
proof (induction k)
  case (Suc k)
  show ?case
  proof (cases "k < ch_cap (es_events sub) - length (ch_queue (es_events sub))")
    case True
    then have "min (Suc k) (ch_cap (es_events sub) - length (ch_queue (es_events sub))) = Suc k" "min k (ch_cap (es_events sub) - length (ch_queue (es_events sub))) = k"
      by simp_all
    then show ?thesis using Suc True funpow_offered(3) [of k ev sub]
      by (subst funpow.simps, subst o_apply, subst offered_def) (simp add: replicate_append_same)
  next
    case False
    then have "min (Suc k) (ch_cap (es_events sub) - length (ch_queue (es_events sub))) = min k (ch_cap (es_events sub) - length (ch_queue (es_events sub)))"
      by simp
    then show ?thesis using Suc False funpow_offered(3) [of k ev sub]
      by (subst funpow.simps, subst o_apply, subst offered_def) auto
  qed
qed simp

lemma funpow_offered_ok: "sub_ok sub \<Longrightarrow> sub_ok ((offered ev ^^ k) sub)"
  by (auto simp: sub_ok_def chan_ok_def funpow_offered funpow_offered_queue)

lemma on_subs_ok:
  assumes "bus_ok b" and "\<And>i x. sub_ok x \<Longrightarrow> sub_ok (f i x) \<and> es_topics (f i x) = es_topics x"
  shows "bus_ok (on_subs f b)"
  by (rule bus_okI) (use assms bus_okD [OF assms(1)] in auto)

lemma bus_publish_ok:
  assumes "bus_ok b" and "\<And>sec. permutes_keys (perm sec)"
  shows "bus_publish perm ev b = Some (on_subs (\<lambda>i. offered ev ^^ hits b (sections (event_topic ev)) i) b)"
    and "bus_ok (on_subs (\<lambda>i. offered ev ^^ hits b (sections (event_topic ev)) i) b)"
proof -
  show "bus_publish perm ev b = Some (on_subs (\<lambda>i. offered ev ^^ hits b (sections (event_topic ev)) i) b)"
    unfolding bus_publish_def
    by (rule publish_sections_eq) (use assms bus_okD [OF assms(1)] subscribed_open [OF assms(1)] in auto)
  show "bus_ok (on_subs (\<lambda>i. offered ev ^^ hits b (sections (event_topic ev)) i) b)"
    by (rule on_subs_ok [OF assms(1)]) (simp add: funpow_offered_ok funpow_offered)
qed

end
