(* ===== verification/BusSystem.thy ===== *)
theory BusSystem
  imports EventBus
begin

text \<open>
  The event bus as a machine: subscribing, unsubscribing, reading and closing keep the agreement
  between the bus and its subscribers, so no operation panics as long as nobody uses a closed
  subscriber. The interface through which the services publish is the locale \<open>event_sink\<close>.
\<close>

section \<open>Operations of a subscriber\<close>

lemma subs_at_subscribe:
  "subs_at (bus_subscribe topic s b) t = (if t = topic then List.insert s (subs_at b t) else subs_at b t)"
  by (simp add: bus_subscribe_def subs_at_def)

lemma subs_at_unsubscribe:
  "subs_at (bus_unsubscribe topic s b) t = (if t = topic then removeAll s (subs_at b t) else subs_at b t)"
  by (auto simp: bus_unsubscribe_def subs_at_def split: option.splits)

lemma eb_subs_register [simp]: "eb_subs (bus_subscribe topic s b) = eb_subs b"
  "eb_subs (bus_unsubscribe topic s b) = eb_subs b"
  by (simp_all add: bus_subscribe_def bus_unsubscribe_def split: option.splits)

lemma subs_at_eb_subs [simp]: "subs_at (b\<lparr>eb_subs := x\<rparr>) = subs_at b"
  by (rule subs_at_cong) simp

lemma note_topic_ok:
  assumes "bus_ok b0" and "s < length (eb_subs b0)" and "eb_subs b = eb_subs b0"
    and "sub_ok ((eb_subs b0 ! s)\<lparr>es_topics := f (es_topics (eb_subs b0 ! s))\<rparr>)"
    and "\<And>t. distinct (subs_at b t)"
    and "\<And>t x. x \<in> set (subs_at b t) \<longleftrightarrow> x < length (eb_subs b)
      \<and> t \<in> set (if x = s then f (es_topics (eb_subs b0 ! s)) else es_topics (eb_subs b0 ! x))"
  shows "\<exists>b'. note_topic s f b = Some b' \<and> bus_ok b' \<and> subs_at b' = subs_at b
    \<and> eb_subs b' = (eb_subs b0)[s := (eb_subs b0 ! s)\<lparr>es_topics := f (es_topics (eb_subs b0 ! s))\<rparr>]"
proof -
  let ?b = "b\<lparr>eb_subs := (eb_subs b)[s := (eb_subs b ! s)\<lparr>es_topics := f (es_topics (eb_subs b ! s))\<rparr>]\<rparr>"
  have "note_topic s f b = Some ?b" using assms(2,3) by (simp add: note_topic_def)
  moreover have "bus_ok ?b"
    by (rule bus_okI) (use assms bus_okD(1) [OF assms(1)] in \<open>auto simp: nth_list_update\<close>)
  ultimately show ?thesis using assms(3) by simp
qed

lemma sub_subscribe_ok:
  assumes "bus_ok b" and "s < length (eb_subs b)" and "\<not> ch_closed (es_events (eb_subs b ! s))"
  shows "\<exists>b'. sub_subscribe s topic b = Some b' \<and> bus_ok b'
    \<and> eb_subs b' = (eb_subs b)[s := (eb_subs b ! s)\<lparr>es_topics := List.insert topic (es_topics (eb_subs b ! s))\<rparr>]"
proof -
  have "sub_ok ((eb_subs b ! s)\<lparr>es_topics := List.insert topic (es_topics (eb_subs b ! s))\<rparr>)"
    using bus_okD(1) [OF assms(1,2)] assms(3) by (simp add: sub_ok_def)
  moreover have "distinct (subs_at (bus_subscribe topic s b) t)" for t
    using bus_okD(2) [OF assms(1)] by (simp add: subs_at_subscribe distinct_removeAll)
  moreover have "x \<in> set (subs_at (bus_subscribe topic s b) t) \<longleftrightarrow> x < length (eb_subs b)
      \<and> t \<in> set (if x = s then List.insert topic (es_topics (eb_subs b ! s)) else es_topics (eb_subs b ! x))" for t x
    using bus_okD(3) [OF assms(1)] assms(2) by (auto simp: subs_at_subscribe)
  ultimately show ?thesis
    unfolding sub_subscribe_def using note_topic_ok [OF assms(1,2), of "bus_subscribe topic s b" "List.insert topic"] by auto
qed

lemma sub_unsubscribe_ok:
  assumes "bus_ok b" and "s < length (eb_subs b)"
  shows "\<exists>b'. sub_unsubscribe s topic b = Some b' \<and> bus_ok b'
    \<and> eb_subs b' = (eb_subs b)[s := (eb_subs b ! s)\<lparr>es_topics := removeAll topic (es_topics (eb_subs b ! s))\<rparr>]"
proof -
  have "sub_ok ((eb_subs b ! s)\<lparr>es_topics := removeAll topic (es_topics (eb_subs b ! s))\<rparr>)"
    using bus_okD(1) [OF assms] by (auto simp: sub_ok_def distinct_removeAll)
  moreover have "distinct (subs_at (bus_unsubscribe topic s b) t)" for t
    using bus_okD(2) [OF assms(1)] by (simp add: subs_at_unsubscribe distinct_removeAll)
  moreover have "x \<in> set (subs_at (bus_unsubscribe topic s b) t) \<longleftrightarrow> x < length (eb_subs b)
      \<and> t \<in> set (if x = s then removeAll topic (es_topics (eb_subs b ! s)) else es_topics (eb_subs b ! x))" for t x
    using bus_okD(3) [OF assms(1)] assms(2) by (auto simp: subs_at_unsubscribe)
  ultimately show ?thesis
    unfolding sub_unsubscribe_def using note_topic_ok [OF assms, of "bus_unsubscribe topic s b" "removeAll topic"] by auto
qed

text \<open>An update of a subscriber's channel that keeps it well-formed and does not close it.\<close>

lemma chan_update_ok:
  assumes "bus_ok b" and "s < length (eb_subs b)" and "chan_ok ch"
    and "ch_closed ch = ch_closed (es_events (eb_subs b ! s))"
  shows "bus_ok (b\<lparr>eb_subs := (eb_subs b)[s := (eb_subs b ! s)\<lparr>es_events := ch\<rparr>]\<rparr>)"
  by (rule bus_okI) (use bus_okD [OF assms(1)] assms(2-4) in \<open>auto simp: nth_list_update sub_ok_def\<close>)

lemma sub_read_ok:
  assumes "bus_ok b" and "s < length (eb_subs b)"
  shows "\<exists>got b'. sub_read s b = Some (got, b') \<and> bus_ok b'"
proof -
  let ?ch = "es_events (eb_subs b ! s)"
  have "chan_ok (snd (recv_chan ?ch))" using bus_okD(1) [OF assms] by (simp add: sub_ok_def recv_chan_ok)
  moreover have "ch_closed (snd (recv_chan ?ch)) = ch_closed ?ch" by (simp add: recv_chan_def split: list.splits)
  ultimately show ?thesis
    using chan_update_ok [OF assms] assms(2) by (auto simp: sub_read_def Let_def split: prod.splits)
qed

lemma unsubscribe_all_simps [simp]: "eb_subs (unsubscribe_all s ts b) = eb_subs b"
  "subs_at (unsubscribe_all s ts b) t = (if t \<in> set ts then removeAll s (subs_at b t) else subs_at b t)"
  by (induction s ts b rule: unsubscribe_all.induct) (auto simp: subs_at_unsubscribe)

lemma sub_close_ok:
  assumes "bus_ok b" and "s < length (eb_subs b)" and "\<not> ch_closed (es_events (eb_subs b ! s))"
    and "permutes_keys perm"
  shows "\<exists>b'. sub_close perm s b = Some b' \<and> bus_ok b' \<and> (\<forall>t. s \<notin> set (subs_at b' t))
    \<and> ch_queue (es_events (eb_subs b' ! s)) = ch_queue (es_events (eb_subs b ! s))
    \<and> ch_closed (es_events (eb_subs b' ! s))"
proof -
  let ?sub = "eb_subs b ! s"
  let ?sub' = "?sub\<lparr>es_events := es_events ?sub\<lparr>ch_closed := True\<rparr>, es_topics := []\<rparr>"
  let ?c = "unsubscribe_all s (perm (es_topics ?sub)) b"
  let ?b = "?c\<lparr>eb_subs := (eb_subs b)[s := ?sub']\<rparr>"
  have run: "sub_close perm s b = Some ?b" using assms(2,3) by (simp add: sub_close_def close_chan_def Let_def)
  have sub': "sub_ok ?sub'" using bus_okD(1) [OF assms(1,2)] by (simp add: sub_ok_def chan_ok_def)
  have at: "subs_at ?b t = (if t \<in> set (es_topics ?sub) then removeAll s (subs_at b t) else subs_at b t)" for t
    using permutes_keysD(1) [OF assms(4)] by simp
  have "bus_ok ?b"
    by (rule bus_okI)
      (use bus_okD [OF assms(1)] assms(2) sub' at in \<open>auto simp: nth_list_update distinct_removeAll\<close>)
  moreover have "\<forall>t. s \<notin> set (subs_at ?b t)" using at bus_okD(3) [OF assms(1)] by auto
  ultimately show ?thesis using run assms(2) by (intro exI [of _ ?b]) simp
qed

section \<open>The machine\<close>

datatype bus_op =
  NewSubscriber
| Subscribe nat string
| Unsubscribe nat string
| Publish "string \<Rightarrow> nat list \<Rightarrow> nat list" event
| ReadEvent nat
| CloseSubscriber "string list \<Rightarrow> string list" nat

fun bus_exec :: "bus_op \<Rightarrow> event_bus \<Rightarrow> event_bus option" where
  "bus_exec NewSubscriber b = Some (snd (new_subscriber b))"
| "bus_exec (Subscribe s t) b = sub_subscribe s t b"
| "bus_exec (Unsubscribe s t) b = sub_unsubscribe s t b"
| "bus_exec (Publish perm ev) b = bus_publish perm ev b"
| "bus_exec (ReadEvent s) b = map_option snd (sub_read s b)"
| "bus_exec (CloseSubscriber perm s) b = sub_close perm s b"

definition sub_open :: "event_bus \<Rightarrow> nat \<Rightarrow> bool" where
  "sub_open b s \<longleftrightarrow> s < length (eb_subs b) \<and> \<not> ch_closed (es_events (eb_subs b ! s))"

fun bus_allowed :: "bus_op \<Rightarrow> event_bus \<Rightarrow> bool" where
  "bus_allowed NewSubscriber b = True"
| "bus_allowed (Subscribe s t) b = sub_open b s"
| "bus_allowed (Unsubscribe s t) b = (s < length (eb_subs b))"
| "bus_allowed (Publish perm ev) b = (\<forall>sec. permutes_keys (perm sec))"
| "bus_allowed (ReadEvent s) b = (s < length (eb_subs b))"
| "bus_allowed (CloseSubscriber perm s) b = (sub_open b s \<and> permutes_keys perm)"

lemma bus_exec_ok: "bus_ok b \<Longrightarrow> bus_allowed op b \<Longrightarrow> \<exists>b'. bus_exec op b = Some b' \<and> bus_ok b'"
proof (induction op b rule: bus_exec.induct)
  case (2 s t b)
  then show ?case using sub_subscribe_ok by (fastforce simp: sub_open_def)
next
  case (3 s t b)
  then show ?case using sub_unsubscribe_ok by fastforce
next
  case (4 perm ev b)
  then show ?case using bus_publish_ok [of b perm ev] by auto
next
  case (5 s b)
  then show ?case using sub_read_ok by fastforce
next
  case (6 perm s b)
  then show ?case using sub_close_ok by (fastforce simp: sub_open_def)
qed (simp add: new_subscriber_ok)

interpretation bus: panic_free "\<lambda>b. b = new_bus" bus_allowed bus_exec bus_ok
  by unfold_locales (use new_bus_ok bus_exec_ok in auto)

section \<open>The publishing interface\<close>

text \<open>What the services rely on: publishing returns and keeps the bus well-formed.\<close>

locale event_sink =
  fixes publish :: "'p \<Rightarrow> event \<Rightarrow> 'b \<Rightarrow> 'b option"
    and legal :: "'p \<Rightarrow> bool"
    and ok :: "'b \<Rightarrow> bool"
  assumes publish_ok: "ok b \<Longrightarrow> legal p \<Longrightarrow> \<exists>b'. publish p ev b = Some b' \<and> ok b'"

interpretation bus_sink: event_sink bus_publish "\<lambda>perm. \<forall>sec. permutes_keys (perm sec)" bus_ok
proof (unfold_locales, goal_cases)
  case (1 b perm ev)
  then show ?case using bus_publish_ok [of b perm ev] by auto
qed

end
