(* ===== verification/StreamService.thy ===== *)
theory StreamService
  imports BusSystem
begin

text \<open>
  \<open>core/service/stream.go\<close>: who watches whom. The service keeps, per streamer and viewer address,
  the number of open connections, and publishes the number of distinct addresses. Publishing goes
  through the interface \<open>event_sink\<close>: the operations take the \<open>publish\<close> function as an
  argument. None of them returns an error. The counters are Go's \<open>int\<close>; that one address opens
  \<open>2^63\<close> connections is not considered.
\<close>

section \<open>Operations\<close>

type_synonym stream_service = "u64 \<rightharpoonup> (string \<times> int) list"

definition new_stream :: stream_service where
  "new_stream = Map.empty"

definition start_stream :: "('p \<Rightarrow> event \<Rightarrow> 'b \<Rightarrow> 'b option) \<Rightarrow> 'p \<Rightarrow> u64 \<Rightarrow> 'b \<Rightarrow> 'b option" where
  "start_stream publish p userID b = publish p (StreamStarted userID) b"

definition publish_viewer_event :: "('p \<Rightarrow> event \<Rightarrow> 'b \<Rightarrow> 'b option) \<Rightarrow> 'p \<Rightarrow> u64 \<Rightarrow> int \<Rightarrow> 'b \<Rightarrow> 'b option" where
  "publish_viewer_event publish p userID viewers b = publish p (StreamViewers userID viewers) b"

text \<open>Reading an absent key of a Go map gives zero.\<close>

definition lookup_count :: "(string \<times> int) list \<Rightarrow> string \<Rightarrow> int" where
  "lookup_count m ip = (case map_of m ip of None \<Rightarrow> 0 | Some c \<Rightarrow> c)"

definition add_viewer ::
    "('p \<Rightarrow> event \<Rightarrow> 'b \<Rightarrow> 'b option) \<Rightarrow> 'p \<Rightarrow> u64 \<Rightarrow> string \<Rightarrow> stream_service \<Rightarrow> 'b \<Rightarrow> (stream_service \<times> 'b) option" where
  "add_viewer publish p u ip ss b =
     (let viewers = (case ss u of None \<Rightarrow> [] | Some m \<Rightarrow> m);
          count = lookup_count viewers ip + 1;
          viewers = AList.update ip count viewers
      in do {
        b \<leftarrow> publish_viewer_event publish p u (int (length viewers)) b;
        Some (ss(u \<mapsto> viewers), b)
      })"

definition remove_viewer ::
    "('p \<Rightarrow> event \<Rightarrow> 'b \<Rightarrow> 'b option) \<Rightarrow> 'p \<Rightarrow> u64 \<Rightarrow> string \<Rightarrow> stream_service \<Rightarrow> 'b \<Rightarrow> (stream_service \<times> 'b) option" where
  "remove_viewer publish p u ip ss b =
     (case ss u of
        None \<Rightarrow> Some (ss, b)
      | Some viewers \<Rightarrow>
          let count = lookup_count viewers ip - 1
          in if count > 0 then Some (ss(u \<mapsto> AList.update ip count viewers), b)
             else let viewers = AList.delete ip viewers;
                      ss = (if length viewers = 0 then ss(u := None) else ss(u \<mapsto> viewers))
                  in do {
                    b \<leftarrow> publish_viewer_event publish p u (int (length viewers)) b;
                    Some (ss, b)
                  })"

section \<open>What the service promises\<close>

text \<open>The abstract state is the multiset of open connections; a viewer is an address that has one.\<close>

definition viewer_count :: "stream_service \<Rightarrow> u64 \<Rightarrow> string \<Rightarrow> int" where
  "viewer_count ss u ip = (case ss u of None \<Rightarrow> 0 | Some m \<Rightarrow> lookup_count m ip)"

definition viewers_ok :: "stream_service \<Rightarrow> bool" where
  "viewers_ok ss \<longleftrightarrow> (\<forall>u m. ss u = Some m \<longrightarrow> m \<noteq> [] \<and> distinct (keys m) \<and> (\<forall>(ip, c) \<in> set m. 0 < c))"

definition represents :: "stream_service \<Rightarrow> (u64 \<times> string) multiset \<Rightarrow> bool" where
  "represents ss M \<longleftrightarrow> viewers_ok ss \<and> (\<forall>u ip. viewer_count ss u ip = int (count M (u, ip)))"

definition viewers_of :: "(u64 \<times> string) multiset \<Rightarrow> u64 \<Rightarrow> string set" where
  "viewers_of M u = {ip. (u, ip) \<in># M}"

lemma new_stream_represents: "represents new_stream {#}"
  by (simp add: represents_def viewers_ok_def viewer_count_def new_stream_def)

lemma viewers_okD:
  assumes "viewers_ok ss" and "ss u = Some m"
  shows "m \<noteq> []" and "distinct (keys m)" and "(ip, c) \<in> set m \<Longrightarrow> 0 < c"
proof -
  from assms have a: "m \<noteq> [] \<and> distinct (keys m) \<and> (\<forall>(ip, c) \<in> set m. 0 < c)" unfolding viewers_ok_def by blast
  then show "m \<noteq> []" "distinct (keys m)" by blast+
  show "0 < c" if "(ip, c) \<in> set m" using a that by fast
qed

lemma representsD:
  assumes "represents ss M"
  shows "viewers_ok ss" and "viewer_count ss u ip = int (count M (u, ip))"
  using assms by (simp_all add: represents_def)

lemma represents_keys:
  assumes "represents ss M" and "ss u = Some m"
  shows "set (keys m) = viewers_of M u" and "length m = card (viewers_of M u)"
proof -
  have "ip \<in> set (keys m) \<longleftrightarrow> ip \<in> viewers_of M u" for ip
  proof -
    have "lookup_count m ip = int (count M (u, ip))"
      using representsD(2) [OF assms(1), of u ip] assms(2) by (simp add: viewer_count_def)
    moreover have "0 < c" if "map_of m ip = Some c" for c
      by (rule viewers_okD(3) [OF representsD(1) [OF assms(1)] assms(2) map_of_SomeD [OF that]])
    ultimately have "map_of m ip = None \<longleftrightarrow> count M (u, ip) = 0"
      by (cases "map_of m ip") (fastforce simp: lookup_count_def)+
    then show ?thesis
      by (simp add: map_of_keys_Some viewers_of_def flip: not_None_eq count_greater_zero_iff)
  qed
  then show k: "set (keys m) = viewers_of M u" by blast
  have "distinct (keys m)" by (rule viewers_okD(2) [OF representsD(1) [OF assms(1)] assms(2)])
  then show "length m = card (viewers_of M u)" using distinct_card [of "keys m"] k by simp
qed

lemma represents_none: "represents ss M \<Longrightarrow> ss u = None \<Longrightarrow> viewers_of M u = {}"
  using representsD(2) [of ss M u] by (auto simp: viewer_count_def viewers_of_def simp flip: count_greater_zero_iff)

lemma lookup_count_update: "lookup_count (AList.update ip c m) x = (if x = ip then c else lookup_count m x)"
  by (auto simp: lookup_count_def update_conv')

lemma lookup_count_delete: "lookup_count (AList.delete ip m) x = (if x = ip then 0 else lookup_count m x)"
  by (auto simp: lookup_count_def delete_conv')

lemma represents_set:
  assumes "represents ss M" and "m \<noteq> []" and "distinct (keys m)" and "\<And>ip c. (ip, c) \<in> set m \<Longrightarrow> 0 < c"
    and "\<And>ip. lookup_count m ip = int (count M' (u, ip))"
    and "\<And>v ip. v \<noteq> u \<Longrightarrow> count M' (v, ip) = count M (v, ip)"
  shows "represents (ss(u \<mapsto> m)) M'"
  using assms unfolding represents_def viewers_ok_def viewer_count_def by auto

lemma mem_update: "(x, c) \<in> set (AList.update ip v m) \<Longrightarrow> (x, c) \<in> set m \<or> x = ip \<and> c = v"
  by (induction m) (auto split: if_splits)

lemma update_not_Nil [simp]: "AList.update k v m \<noteq> []"
  by (cases m) auto

text \<open>\<open>AddViewer\<close> refines adding a connection, and publishes the number of distinct viewers.\<close>

lemma add_viewer_refines:
  assumes "represents ss M"
  shows "\<exists>ss'. add_viewer publish p u ip ss b = map_option (Pair ss')
      (publish p (StreamViewers u (int (card (viewers_of (add_mset (u, ip) M) u)))) b)
    \<and> represents ss' (add_mset (u, ip) M)"
proof -
  define m where "m = (case ss u of None \<Rightarrow> [] | Some m \<Rightarrow> m)"
  have m: "distinct (keys m)" "\<And>x c. (x, c) \<in> set m \<Longrightarrow> 0 < c" "\<And>x. lookup_count m x = int (count M (u, x))"
  proof -
    show "distinct (keys m)" "\<And>x c. (x, c) \<in> set m \<Longrightarrow> 0 < c"
      using viewers_okD(2,3) [OF representsD(1) [OF assms], of u] by (cases "ss u"; simp add: m_def keys_def)+
    show "\<And>x. lookup_count m x = int (count M (u, x))"
      using representsD(2) [OF assms, of u] by (cases "ss u") (simp_all add: m_def viewer_count_def, simp add: lookup_count_def)
  qed
  let ?m = "AList.update ip (lookup_count m ip + 1) m"
  let ?ss = "ss(u \<mapsto> ?m)"
  have r: "represents ?ss (add_mset (u, ip) M)"
    by (rule represents_set [OF assms])
      (use m in \<open>auto simp: lookup_count_update distinct_keys_update dest!: mem_update\<close>)
  have "length ?m = card (viewers_of (add_mset (u, ip) M) u)"
    by (rule represents_keys(2) [OF r]) simp
  then have "add_viewer publish p u ip ss b = map_option (Pair ?ss)
      (publish p (StreamViewers u (int (card (viewers_of (add_mset (u, ip) M) u)))) b)"
    by (simp add: add_viewer_def publish_viewer_event_def Let_def flip: m_def split: bind_split)
  with r show ?thesis by blast
qed

text \<open>\<open>RemoveViewer\<close> refines closing a connection, and publishes unless the viewer has others.\<close>

lemma remove_viewer_refines:
  assumes "represents ss M"
  shows "\<exists>ss'. remove_viewer publish p u ip ss b =
      (if viewers_of M u = {} \<or> 1 < count M (u, ip) then Some (ss', b)
       else map_option (Pair ss')
         (publish p (StreamViewers u (int (card (viewers_of (M - {#(u, ip)#}) u)))) b))
    \<and> represents ss' (M - {#(u, ip)#})"
proof (cases "ss u")
  case None
  then have "viewers_of M u = {}" by (rule represents_none [OF assms])
  moreover from this have "M - {#(u, ip)#} = M" by (auto simp: viewers_of_def diff_single_trivial)
  ultimately show ?thesis using None assms by (simp add: remove_viewer_def)
next
  case (Some m)
  have vo: "viewers_ok ss" using assms by (simp add: represents_def)
  note m = viewers_okD [OF vo Some]
  have cnt: "lookup_count m x = int (count M (u, x))" for x
    using assms Some by (force simp: represents_def viewer_count_def split: option.splits)
  have ne: "viewers_of M u \<noteq> {}" using represents_keys(1) [OF assms Some] m(1) by (simp flip: represents_keys(1) [OF assms Some]) (simp add: keys_def)
  show ?thesis
  proof (cases "1 < count M (u, ip)")
    case True
    have "represents (ss(u \<mapsto> AList.update ip (lookup_count m ip - 1) m)) (M - {#(u, ip)#})"
      by (rule represents_set [OF assms])
        (use m cnt True in \<open>auto simp: lookup_count_update distinct_keys_update of_nat_diff dest!: mem_update\<close>)
    then show ?thesis using True Some ne cnt by (auto simp: remove_viewer_def Let_def)
  next
    case False
    let ?m = "AList.delete ip m"
    let ?ss = "if length ?m = 0 then ss(u := None) else ss(u \<mapsto> ?m)"
    have zero: "count (M - {#(u, ip)#}) (u, ip) = 0" using False by simp
    have look: "lookup_count ?m x = int (count (M - {#(u, ip)#}) (u, x))" for x
      using zero cnt by (simp add: lookup_count_delete)
    have r: "represents ?ss (M - {#(u, ip)#})"
    proof (cases "?m = []")
      case True
      then have "lookup_count ?m x = 0" for x by (simp add: lookup_count_def)
      then have "count (M - {#(u, ip)#}) (u, x) = 0" for x using look [of x] by simp
      then show ?thesis
        using True vo assms by (auto simp: represents_def viewers_ok_def viewer_count_def split: if_splits)
    next
      case ne: False
      have "represents (ss(u \<mapsto> ?m)) (M - {#(u, ip)#})"
        by (rule represents_set [OF assms ne])
          (use m look in \<open>auto simp: distinct_keys_delete mem_delete\<close>)
      then show ?thesis using ne by simp
    qed
    have "length ?m = card (viewers_of (M - {#(u, ip)#}) u)"
    proof (cases "?m = []")
      case True
      then have "?ss u = None" by simp
      then show ?thesis using True represents_none [OF r] by simp
    next
      case False
      then show ?thesis using represents_keys(2) [OF r] by simp
    qed
    then have "remove_viewer publish p u ip ss b = map_option (Pair ?ss)
        (publish p (StreamViewers u (int (card (viewers_of (M - {#(u, ip)#}) u)))) b)"
      using Some cnt [of ip] False
      by (simp add: remove_viewer_def publish_viewer_event_def Let_def map_option_case del: length_0_conv split: bind_split option.splits)
    with r False ne show ?thesis by (intro exI [of _ ?ss]) simp
  qed
qed

section \<open>A session of viewers coming and going\<close>

datatype viewer_op = AddViewer u64 string | RemoveViewer u64 string

fun viewer_exec :: "('p \<Rightarrow> event \<Rightarrow> 'b \<Rightarrow> 'b option) \<Rightarrow> 'p \<times> viewer_op \<Rightarrow> stream_service \<times> 'b \<Rightarrow>
    (stream_service \<times> 'b) option" where
  "viewer_exec publish (p, AddViewer u ip) (ss, b) = add_viewer publish p u ip ss b"
| "viewer_exec publish (p, RemoveViewer u ip) (ss, b) = remove_viewer publish p u ip ss b"

text \<open>What the operations do to the open connections.\<close>

fun open_connections :: "viewer_op list \<Rightarrow> (u64 \<times> string) multiset \<Rightarrow> (u64 \<times> string) multiset" where
  "open_connections [] M = M"
| "open_connections (AddViewer u ip # ops) M = open_connections ops (add_mset (u, ip) M)"
| "open_connections (RemoveViewer u ip # ops) M = open_connections ops (M - {#(u, ip)#})"

context event_sink
begin

lemma viewer_exec_ok:
  assumes "represents ss M" and "ok b" and "legal p"
  shows "\<exists>ss' b'. viewer_exec publish (p, op) (ss, b) = Some (ss', b') \<and> ok b' \<and> represents ss' (open_connections [op] M)"
proof (cases op)
  case (AddViewer u ip)
  obtain ss' where a: "add_viewer publish p u ip ss b = map_option (Pair ss')
      (publish p (StreamViewers u (int (card (viewers_of (add_mset (u, ip) M) u)))) b)"
    "represents ss' (add_mset (u, ip) M)"
    using add_viewer_refines [OF assms(1), of publish p u ip b] by blast
  obtain b' where "publish p (StreamViewers u (int (card (viewers_of (add_mset (u, ip) M) u)))) b = Some b'" "ok b'"
    using publish_ok [OF assms(2,3)] by blast
  with a AddViewer show ?thesis by simp
next
  case (RemoveViewer u ip)
  obtain ss' where r: "remove_viewer publish p u ip ss b =
      (if viewers_of M u = {} \<or> 1 < count M (u, ip) then Some (ss', b)
       else map_option (Pair ss') (publish p (StreamViewers u (int (card (viewers_of (M - {#(u, ip)#}) u)))) b))"
    "represents ss' (M - {#(u, ip)#})"
    using remove_viewer_refines [OF assms(1), of publish p u ip b] by blast
  obtain b' where "publish p (StreamViewers u (int (card (viewers_of (M - {#(u, ip)#}) u)))) b = Some b'" "ok b'"
    using publish_ok [OF assms(2,3)] by blast
  with r RemoveViewer assms(2) show ?thesis by auto
qed

lemma viewers_run_ok:
  assumes "represents ss M" and "ok b" and "\<forall>(p, op) \<in> set ops. legal p"
  shows "\<exists>ss' b'. run_machine (viewer_exec publish) ops (ss, b) = Some (ss', b') \<and> ok b'
    \<and> represents ss' (open_connections (map snd ops) M)"
  using assms
proof (induction ops arbitrary: ss M b)
  case (Cons pop ops)
  obtain p op where pop: "pop = (p, op)" by (cases pop)
  obtain ss1 b1 where one: "viewer_exec publish (p, op) (ss, b) = Some (ss1, b1)" "ok b1"
    "represents ss1 (open_connections [op] M)"
    using viewer_exec_ok [OF Cons.prems(1,2), of p op] Cons.prems(3) pop by auto
  have step: "open_connections (op # map snd ops) M = open_connections (map snd ops) (open_connections [op] M)"
    by (cases op) simp_all
  show ?case using Cons.IH [OF one(3,2)] Cons.prems(3) one(1) pop step by simp
qed simp

end

end
