(* ===== verification/WsMain.thy ===== *)
theory WsMain
  imports StreamService
begin

text \<open>
  \<open>transport/ws_main\<close>: WebSocket connections that subscribe to topics. The transport holds one
  subscriber of the bus for all connections; it is subscribed to exactly the topics some connection
  wants. The subscriber is reached through the interface \<open>topic_source\<close>; decoding of a message's
  payload (\<open>encoding/json\<close>) is a parameter. The channel \<open>sendCh\<close> has no buffer: a send hands the
  data to the connection's writing goroutine (theory \<open>WsWriter\<close>), so a connection is modelled by what
  was handed over. The maps of connections are objects in a store, since the goroutine that forwards
  events ranges over one of them while the transport changes it.
\<close>

section \<open>State\<close>

record main_conn =
  mc_sent :: "string list"
  mc_closed :: bool

record ws_main =
  wm_topicConns :: "string \<rightharpoonup> nat"
  wm_maps :: "nat list list"
  wm_connTopics :: "nat \<rightharpoonup> string list"
  wm_conns :: "main_conn list"

definition new_ws_main :: ws_main where
  "new_ws_main = \<lparr>wm_topicConns = Map.empty, wm_maps = [], wm_connTopics = Map.empty, wm_conns = []\<rparr>"

definition new_ws_conn :: "ws_main \<Rightarrow> nat \<times> ws_main" where
  "new_ws_conn t = (length (wm_conns t), t\<lparr>wm_conns := wm_conns t @ [\<lparr>mc_sent = [], mc_closed = False\<rparr>]\<rparr>)"

text \<open>Reading an absent key of a map of maps gives a nil map, which reads as empty.\<close>

definition conns_at :: "ws_main \<Rightarrow> string \<Rightarrow> nat list" where
  "conns_at t topic = (case wm_topicConns t topic of None \<Rightarrow> [] | Some r \<Rightarrow> wm_maps t ! r)"

definition topics_at :: "ws_main \<Rightarrow> nat \<Rightarrow> string list" where
  "topics_at t conn = (case wm_connTopics t conn of None \<Rightarrow> [] | Some topics \<Rightarrow> topics)"

section \<open>Subscribing\<close>

definition ws_subscribe ::
    "(string \<Rightarrow> 'b \<Rightarrow> 'b option) \<Rightarrow> string \<Rightarrow> nat \<Rightarrow> ws_main \<Rightarrow> 'b \<Rightarrow> (ws_main \<times> 'b) option" where
  "ws_subscribe sub topic conn t b = do {
     (r, t, b) \<leftarrow> (case wm_topicConns t topic of
         Some r \<Rightarrow> Some (r, t, b)
       | None \<Rightarrow> do {
           let r = length (wm_maps t);
           let t = t\<lparr>wm_topicConns := (wm_topicConns t)(topic \<mapsto> r), wm_maps := wm_maps t @ [[]]\<rparr>;
           b \<leftarrow> sub topic b;
           Some (r, t, b)
         });
     Some (t\<lparr>wm_maps := (wm_maps t)[r := List.insert conn (wm_maps t ! r)],
             wm_connTopics := (wm_connTopics t)(conn \<mapsto> List.insert topic (topics_at t conn))\<rparr>, b)
   }"

text \<open>Taking a connection out of a topic, as \<open>unsubscribe\<close> and \<open>closeConn\<close> both do.\<close>

definition delete_conn :: "string \<Rightarrow> nat \<Rightarrow> ws_main \<Rightarrow> ws_main" where
  "delete_conn topic conn t =
     (case wm_topicConns t topic of
        None \<Rightarrow> t
      | Some r \<Rightarrow> t\<lparr>wm_maps := (wm_maps t)[r := removeAll conn (wm_maps t ! r)]\<rparr>)"

definition drop_conn ::
    "(string \<Rightarrow> 'b \<Rightarrow> 'b option) \<Rightarrow> string \<Rightarrow> nat \<Rightarrow> ws_main \<Rightarrow> 'b \<Rightarrow> (ws_main \<times> 'b) option" where
  "drop_conn unsub topic conn t b =
     (let t = delete_conn topic conn t
      in if conns_at t topic = []
         then do {
           b \<leftarrow> unsub topic b;
           Some (t\<lparr>wm_topicConns := (wm_topicConns t)(topic := None)\<rparr>, b)
         }
         else Some (t, b))"

definition ws_unsubscribe ::
    "(string \<Rightarrow> 'b \<Rightarrow> 'b option) \<Rightarrow> string \<Rightarrow> nat \<Rightarrow> ws_main \<Rightarrow> 'b \<Rightarrow> (ws_main \<times> 'b) option" where
  "ws_unsubscribe unsub topic conn t b = do {
     (t, b) \<leftarrow> drop_conn unsub topic conn t b;
     let topics = removeAll topic (topics_at t conn);
     Some (t\<lparr>wm_connTopics := (wm_connTopics t)(conn := if topics = [] then None else Some topics)\<rparr>, b)
   }"

fun drop_topics ::
    "(string \<Rightarrow> 'b \<Rightarrow> 'b option) \<Rightarrow> string list \<Rightarrow> nat \<Rightarrow> ws_main \<Rightarrow> 'b \<Rightarrow> (ws_main \<times> 'b) option" where
  "drop_topics unsub [] conn t b = Some (t, b)"
| "drop_topics unsub (topic # topics) conn t b = do {
     (t, b) \<leftarrow> drop_conn unsub topic conn t b;
     drop_topics unsub topics conn t b
   }"

text \<open>\<open>wsConn.close\<close>: closing the channel twice panics.\<close>

definition close_ws_conn :: "nat \<Rightarrow> ws_main \<Rightarrow> ws_main option" where
  "close_ws_conn conn t = do {
     c \<leftarrow> deref (wm_conns t) conn;
     if mc_closed c then None else Some (t\<lparr>wm_conns := (wm_conns t)[conn := c\<lparr>mc_closed := True\<rparr>]\<rparr>)
   }"

definition ws_close_conn ::
    "(string \<Rightarrow> 'b \<Rightarrow> 'b option) \<Rightarrow> (string list \<Rightarrow> string list) \<Rightarrow> nat \<Rightarrow> ws_main \<Rightarrow> 'b \<Rightarrow> (ws_main \<times> 'b) option" where
  "ws_close_conn unsub perm conn t b = do {
     (t, b) \<leftarrow> drop_topics unsub (perm (topics_at t conn)) conn t b;
     t \<leftarrow> close_ws_conn conn (t\<lparr>wm_connTopics := (wm_connTopics t)(conn := None)\<rparr>);
     Some (t, b)
   }"

section \<open>Messages of a connection\<close>

record ws_message =
  wm_type :: string
  wm_data :: string

text \<open>\<open>onMessage\<close>: the flag says whether it returned an error. Unknown types are ignored.\<close>

definition on_message ::
    "(string \<Rightarrow> string option) \<Rightarrow> (string \<Rightarrow> 'b \<Rightarrow> 'b option) \<Rightarrow> (string \<Rightarrow> 'b \<Rightarrow> 'b option) \<Rightarrow>
       nat \<Rightarrow> ws_message \<Rightarrow> ws_main \<Rightarrow> 'b \<Rightarrow> (bool \<times> ws_main \<times> 'b) option" where
  "on_message decode sub unsub conn mesg t b =
     (if wm_type mesg = ''subscribe''
      then (case decode (wm_data mesg) of
          None \<Rightarrow> Some (True, t, b)
        | Some topic \<Rightarrow> do {
            (t, b) \<leftarrow> ws_subscribe sub topic conn t b;
            Some (False, t, b)
          })
      else if wm_type mesg = ''unsubscribe''
      then (case decode (wm_data mesg) of
          None \<Rightarrow> Some (True, t, b)
        | Some topic \<Rightarrow> do {
            (t, b) \<leftarrow> ws_unsubscribe unsub topic conn t b;
            Some (False, t, b)
          })
      else Some (False, t, b))"

text \<open>What \<open>Receive\<close> and the decoding of the frame give in one round of \<open>onConn\<close>.\<close>

datatype ws_input = ReceiveFailed | NotAMessage | Received ws_message

text \<open>
  The loop of \<open>onConn\<close>: a message that is not understood, or is refused, is logged and skipped; when
  receiving fails the deferred \<open>closeConn\<close> runs. At the end of the inputs the connection waits.
\<close>

fun conn_loop ::
    "(string \<Rightarrow> string option) \<Rightarrow> (string \<Rightarrow> 'b \<Rightarrow> 'b option) \<Rightarrow> (string \<Rightarrow> 'b \<Rightarrow> 'b option) \<Rightarrow>
       (string list \<Rightarrow> string list) \<Rightarrow> nat \<Rightarrow> ws_input list \<Rightarrow> ws_main \<Rightarrow> 'b \<Rightarrow> (ws_main \<times> 'b) option" where
  "conn_loop decode sub unsub perm conn [] t b = Some (t, b)"
| "conn_loop decode sub unsub perm conn (ReceiveFailed # ins) t b = ws_close_conn unsub perm conn t b"
| "conn_loop decode sub unsub perm conn (NotAMessage # ins) t b = conn_loop decode sub unsub perm conn ins t b"
| "conn_loop decode sub unsub perm conn (Received mesg # ins) t b = do {
     (_, t, b) \<leftarrow> on_message decode sub unsub conn mesg t b;
     conn_loop decode sub unsub perm conn ins t b
   }"

definition on_ws_conn ::
    "(string \<Rightarrow> string option) \<Rightarrow> (string \<Rightarrow> 'b \<Rightarrow> 'b option) \<Rightarrow> (string \<Rightarrow> 'b \<Rightarrow> 'b option) \<Rightarrow>
       (string list \<Rightarrow> string list) \<Rightarrow> ws_input list \<Rightarrow> ws_main \<Rightarrow> 'b \<Rightarrow> (ws_main \<times> 'b) option" where
  "on_ws_conn decode sub unsub perm ins t b =
     (let (conn, t) = new_ws_conn t in conn_loop decode sub unsub perm conn ins t b)"

section \<open>Forwarding events\<close>

definition format_int :: "int \<Rightarrow> string" where
  "format_int n = (if n < 0 then CHR ''-'' # decimal (nat (- n)) else decimal (nat n))"

text \<open>
  \<open>json.Marshal\<close> of the events and of the message. The type of a message is an event's topic:
  letters, digits and dots, which JSON writes as they are.
\<close>

fun event_json :: "event \<Rightarrow> string" where
  \<open>event_json (StreamStarted u) = ''{"user_id":'' @ format_uint u @ ''}''\<close>
| \<open>event_json (StreamViewers u n) = ''{"user_id":'' @ format_uint u @ '',"viewers":'' @ format_int n @ ''}''\<close>

definition encoded_message :: "event \<Rightarrow> string" where
  \<open>encoded_message ev = ''{"type":"'' @ event_topic ev @ ''","data":'' @ event_json ev @ ''}''\<close>

text \<open>\<open>conn.sendCh <- data\<close>: a send on a closed channel panics.\<close>

definition ws_send :: "nat \<Rightarrow> string \<Rightarrow> ws_main \<Rightarrow> ws_main option" where
  "ws_send conn data t = do {
     c \<leftarrow> deref (wm_conns t) conn;
     if mc_closed c then None
     else Some (t\<lparr>wm_conns := (wm_conns t)[conn := c\<lparr>mc_sent := mc_sent c @ [data]\<rparr>]\<rparr>)
   }"

text \<open>
  The goroutine \<open>readEvents\<close> by its program counter. It holds no lock between looking up the map of
  connections, ranging over it and sending, so other operations run between its steps. What \<open>range\<close> yields
  is up to the runtime: a key that is in the map and was not yielded before; it may end once every key that
  was in the map at the start is yielded or gone. \<open>Sending\<close> has got a connection from it.
\<close>

datatype feed_pc = Reading | Ranging nat "nat list" "nat list" string | Sending nat "nat list" "nat list" string nat | Ended

definition range_allows :: "nat option \<Rightarrow> nat list \<Rightarrow> nat list \<Rightarrow> nat list \<Rightarrow> bool" where
  "range_allows yield old seen present =
     (case yield of
        Some k \<Rightarrow> k \<in> set present \<and> k \<notin> set seen
      | None \<Rightarrow> set present \<inter> set old \<subseteq> set seen)"

definition read_events_step ::
    "('b \<Rightarrow> (event received \<times> 'b) option) \<Rightarrow> nat option \<Rightarrow> feed_pc \<Rightarrow> ws_main \<Rightarrow> 'b \<Rightarrow>
       (feed_pc \<times> ws_main \<times> 'b) option" where
  "read_events_step read yield pc t b =
     (case pc of
        Reading \<Rightarrow> do {
          (got, b) \<leftarrow> read b;
          (case got of
             Closed \<Rightarrow> Some (Ended, t, b)
           | WouldBlock \<Rightarrow> Some (Reading, t, b)
           | Item ev \<Rightarrow>
               (case wm_topicConns t (event_topic ev) of
                  None \<Rightarrow> Some (Reading, t, b)
                | Some r \<Rightarrow>
                    if length (wm_maps t ! r) = 0 then Some (Reading, t, b)
                    else Some (Ranging r (wm_maps t ! r) [] (encoded_message ev), t, b)))
        }
      | Ranging r old seen data \<Rightarrow>
          (case yield of
             None \<Rightarrow> Some (Reading, t, b)
           | Some conn \<Rightarrow> Some (Sending r old seen data conn, t, b))
      | Sending r old seen data conn \<Rightarrow> do {
          t \<leftarrow> ws_send conn data t;
          Some (Ranging r old (conn # seen) data, t, b)
        }
      | Ended \<Rightarrow> Some (Ended, t, b))"

end
