(* ===== verification/WebFront.thy ===== *)
theory WebFront
  imports HttpApi WsMain
begin

text \<open>
  \<open>middleware/cors.go\<close>, \<open>middleware/real_ip.go\<close> and the routes of \<open>transport/http/http.go\<close>: how a
  request gets to a handler. The logger only logs. The WebSocket transports are handlers that \<open>main.go\<close>
  passes in; what \<open>ServeMux\<close> answers when no pattern fits (404, 405, redirects) is an argument.
\<close>

section \<open>CORS\<close>

record cors_config =
  cc_origins :: "string list"
  cc_methods :: "string list"
  cc_headers :: "string list"
  cc_credentials :: bool
  cc_maxAge :: int

definition default_methods :: "string list" where
  "default_methods = [''GET'', ''POST'', ''HEAD'']"

text \<open>\<open>strings.Join\<close>\<close>

fun join_strings :: "string \<Rightarrow> string list \<Rightarrow> string" where
  "join_strings sep [] = ''''"
| "join_strings sep [s] = s"
| "join_strings sep (s # ss) = s @ sep @ join_strings sep ss"

definition cors_headers :: "cors_config \<Rightarrow> bool \<Rightarrow> string \<Rightarrow> writer \<Rightarrow> writer" where
  "cors_headers cfg preflight org w =
     (let allowedMethods = join_strings '', '' (cc_methods cfg);
          allowedHeaders = join_strings '', '' (cc_headers cfg);
          w = (if preflight
            then let w = (if cc_maxAge cfg > 0 then set_header ''Access-Control-Max-Age'' (format_int (cc_maxAge cfg)) w else w);
                     w = (if allowedHeaders \<noteq> '''' then set_header ''Access-Control-Allow-Headers'' allowedHeaders w else w)
                 in set_header ''Access-Control-Allow-Methods'' allowedMethods w
            else w);
          w = (if cc_credentials cfg then set_header ''Access-Control-Allow-Credentials'' ''true'' w else w)
      in set_header ''Access-Control-Allow-Origin'' org w)"

definition with_methods :: "cors_config \<Rightarrow> cors_config" where
  "with_methods cfg = (if cc_methods cfg = [] then cfg\<lparr>cc_methods := default_methods\<rparr> else cfg)"

lemma with_methods_origins [simp]: "cc_origins (with_methods cfg) = cc_origins cfg"
  by (simp add: with_methods_def)

definition cors :: "'s handler \<Rightarrow> cors_config \<Rightarrow> 's handler" where
  "cors next_handler cfg req ws =
     (let cfg = with_methods cfg;
          org = rq_header req ''Origin'';
          m = rq_header req ''Access-Control-Request-Method'';
          preflight = (rq_method req = ''OPTIONS'');
          cors_method = (if preflight then m else rq_method req)
      in if org = '''' then next_handler req ws
         else do {
           first \<leftarrow> deref (cc_origins cfg) 0;
           if first \<noteq> ''*'' \<and> org \<notin> set (cc_origins cfg) then Some (write_header StatusOK (fst ws), snd ws)
           else if preflight \<and> m = '''' then next_handler req ws
           else if (length (cc_origins cfg) \<noteq> 1 \<or> length (cc_origins cfg) = 1 \<and> first \<noteq> ''*'')
             \<and> cors_method \<notin> set (cc_methods cfg) then Some (write_header StatusOK (fst ws), snd ws)
           else let w = cors_headers cfg preflight org (fst ws)
                in if preflight then Some (write_header StatusOK w, snd ws) else next_handler req (w, snd ws)
         })"

section \<open>The client's address\<close>

definition go_space :: "char \<Rightarrow> bool" where
  "go_space c \<longleftrightarrow> c \<in> {CHR '' '', CHR 0x09, CHR 0x0A, CHR 0x0B, CHR 0x0C, CHR 0x0D}"

definition trim_space :: "string \<Rightarrow> string" where
  "trim_space s = rev (dropWhile go_space (rev (dropWhile go_space s)))"

text \<open>\<open>net.SplitHostPort\<close>; \<open>None\<close> is an error.\<close>

definition index_of :: "char \<Rightarrow> string \<Rightarrow> nat" where
  "index_of c s = length (takeWhile (\<lambda>x. x \<noteq> c) s)"

definition last_index_of :: "char \<Rightarrow> string \<Rightarrow> nat option" where
  "last_index_of c s =
     (if c \<in> set s then Some (length s - 1 - index_of c (rev s)) else None)"

definition split_host_port :: "string \<Rightarrow> (string \<times> string) option" where
  "split_host_port hostport =
     (case last_index_of CHR '':'' hostport of
        None \<Rightarrow> None
      | Some i \<Rightarrow>
          if hostport ! 0 = CHR ''['' then
            let e = index_of CHR '']'' hostport
            in if CHR '']'' \<notin> set hostport \<or> e + 1 \<noteq> i then None
               else if CHR ''['' \<in> set (drop 1 hostport) \<or> CHR '']'' \<in> set (drop (e + 1) hostport) then None
               else Some (drop 1 (take e hostport), drop (i + 1) hostport)
          else if CHR '':'' \<in> set (take i hostport) \<or> CHR ''['' \<in> set hostport \<or> CHR '']'' \<in> set hostport then None
          else Some (take i hostport, drop (i + 1) hostport))"

definition get_real_ip :: "request \<Rightarrow> string" where
  "get_real_ip req =
     (let ip = trim_space (rq_header req ''X-Real-Ip'')
      in if ip \<noteq> '''' then ip
         else case split_host_port (rq_remoteAddr req) of
           None \<Rightarrow> rq_remoteAddr req
         | Some (host, _) \<Rightarrow> host)"

definition real_ip :: "'s handler \<Rightarrow> 's handler" where
  "real_ip next_handler req ws = next_handler (req\<lparr>rq_remoteAddr := get_real_ip req\<rparr>) ws"

section \<open>Routes\<close>

text \<open>
  A pattern of \<open>ServeMux\<close> without wildcards: a method (\<open>GET\<close> also takes \<open>HEAD\<close>) or none, and a path,
  which stands for the paths below it if it ends in a slash. The patterns of this program do not
  overlap, so the first that fits is the only one. Paths that are not clean are redirected.
\<close>

type_synonym 's route = "string option \<times> string \<times> 's handler"

definition clean_path :: "string \<Rightarrow> bool" where
  "clean_path path \<longleftrightarrow> (let segs = split_at CHR ''/'' path
     in hd segs = '''' \<and> length segs > 1
        \<and> list_all (\<lambda>s. s \<notin> {'''', ''.'', ''..''}) (butlast (tl segs)) \<and> last segs \<notin> {''.'', ''..''})"

definition path_fits :: "string \<Rightarrow> string \<Rightarrow> bool" where
  "path_fits pat path \<longleftrightarrow> (if last pat = CHR ''/'' then has_prefix path pat else path = pat)"

definition method_fits :: "string option \<Rightarrow> string \<Rightarrow> bool" where
  "method_fits pat m \<longleftrightarrow> (case pat of None \<Rightarrow> True | Some p \<Rightarrow> m = p \<or> p = ''GET'' \<and> m = ''HEAD'')"

definition serve_mux :: "'s route list \<Rightarrow> 's handler \<Rightarrow> 's handler" where
  "serve_mux routes fallback req ws =
     (if \<not> clean_path (rq_path req) then fallback req ws
      else case filter (\<lambda>(m, p, h). path_fits p (rq_path req) \<and> method_fits m (rq_method req)) routes of
        [] \<Rightarrow> fallback req ws
      | (m, p, h) # _ \<Rightarrow> h req ws)"

definition routes :: "'db http_deps \<Rightarrow> http_oracle \<Rightarrow> (string \<times> 'db handler) list \<Rightarrow> 'db route list" where
  "routes d ora handlers =
     (let authMiddleware = auth_wrap (hd_parse d) (ho_now ora) (hd_token d)
      in [(Some ''POST'', ''/api/v1/auth/sign-up'', sign_up_handler d ora),
          (Some ''POST'', ''/api/v1/auth/sign-in'', sign_in_handler d ora),
          (Some ''GET'', ''/api/v1/users/current'', authMiddleware (get_current d)),
          (Some ''GET'', usernames_prefix, get_by_username d),
          (Some ''GET'', ''/api/v1/stream-keys/current'', authMiddleware (get_of_current_user d))]
         @ map (\<lambda>(path, h). (None, path, h)) handlers)"

definition cors_settings :: "string list \<Rightarrow> cors_config" where
  "cors_settings allowedOrigins =
     \<lparr>cc_origins = allowedOrigins, cc_methods = [''GET'', ''POST'', ''HEAD'', ''PATCH'', ''PUT'', ''DELETE''],
      cc_headers = [''Content-Type'', ''Authorization''], cc_credentials = True, cc_maxAge = 300\<rparr>"

text \<open>The handler \<open>RunServer\<close> serves.\<close>

definition run_server ::
    "'db http_deps \<Rightarrow> http_oracle \<Rightarrow> (string \<times> 'db handler) list \<Rightarrow> 'db handler \<Rightarrow> string list \<Rightarrow> 'db handler" where
  "run_server d ora handlers fallback allowedOrigins =
     real_ip (cors (serve_mux (routes d ora handlers) fallback) (cors_settings allowedOrigins))"

end
