(* ===== verification/HandlerContracts.thy ===== *)
theory HandlerContracts
  imports WebFront
begin

text \<open>
  What every handler behind \<open>RunServer\<close> does to the program's state, and when it may panic at all.
  Middleware, the mux and the routes pass the contract on, so a property of the state that the database
  operations keep holds after any request, and the accounts change only by a sign-up. \<open>net/http\<close> recovers
  from a handler's panic.
\<close>

section \<open>Outcomes\<close>

definition outcome :: "('s \<Rightarrow> bool) \<Rightarrow> bool \<Rightarrow> (writer \<times> 's) option \<Rightarrow> bool" where
  "outcome V may_panic r \<longleftrightarrow> (case r of None \<Rightarrow> may_panic | Some (w, s) \<Rightarrow> V s)"

lemma outcome_simps [simp]: "outcome V c (Some (w, s)) = V s" "outcome V c None = c"
  by (simp_all add: outcome_def)

text \<open>
  What a handler does to the state, for the requests \<open>R\<close>: from a state with \<open>V\<close> it gets to one in the
  relation \<open>P\<close>, which may depend on the request, and it panics only on the requests \<open>C\<close>.
\<close>

definition acts ::
    "('s \<Rightarrow> bool) \<Rightarrow> (request \<Rightarrow> 's \<Rightarrow> 's \<Rightarrow> bool) \<Rightarrow> (request \<Rightarrow> bool) \<Rightarrow> (request \<Rightarrow> bool) \<Rightarrow> 's handler \<Rightarrow> bool" where
  "acts V P R C h \<longleftrightarrow> (\<forall>req w s. V s \<longrightarrow> R req \<longrightarrow> outcome (P req s) (C req) (h req (w, s)))"

lemma actsD: "acts V P R C h \<Longrightarrow> V s \<Longrightarrow> R req \<Longrightarrow> outcome (P req s) (C req) (h req (w, s))"
  by (simp add: acts_def)

lemma actsI: "(\<And>req w s. V s \<Longrightarrow> R req \<Longrightarrow> outcome (P req s) (C req) (h req (w, s))) \<Longrightarrow> acts V P R C h"
  by (simp add: acts_def)

lemma acts_mono:
  assumes "acts V P (\<lambda>_. True) (\<lambda>_. False) h" and "\<And>req s s'. P req s s' \<Longrightarrow> Q req s s'"
  shows "acts V Q R C h"
proof (rule actsI)
  fix req w s
  assume "V s"
  then have "outcome (P req s) False (h req (w, s))" using assms(1) by (simp add: acts_def)
  then show "outcome (Q req s) (C req) (h req (w, s))" using assms(2) by (cases "h req (w, s)") auto
qed

definition fits :: "string option \<Rightarrow> string \<Rightarrow> request \<Rightarrow> bool" where
  "fits m p req \<longleftrightarrow> path_fits p (rq_path req) \<and> method_fits m (rq_method req)"

lemma fits_update [simp]: "fits m p (req\<lparr>rq_remoteAddr := a\<rparr>) = fits m p req" "fits m p (req\<lparr>rq_user := u\<rparr>) = fits m p req"
  by (simp_all add: fits_def)

section \<open>Middleware and routes\<close>

text \<open>
  The interface between the handlers and what is around them: answering without calling the handler is
  allowed, and the address and the user that middleware sets in a request make no difference.
\<close>

locale handler_contract =
  fixes V :: "'s \<Rightarrow> bool" and P :: "request \<Rightarrow> 's \<Rightarrow> 's \<Rightarrow> bool" and C :: "request \<Rightarrow> bool"
  assumes idle: "V s \<Longrightarrow> P req s s"
    and other_address: "P (req\<lparr>rq_remoteAddr := a\<rparr>) = P req \<and> C (req\<lparr>rq_remoteAddr := a\<rparr>) = C req"
    and other_user: "P (req\<lparr>rq_user := u\<rparr>) = P req \<and> C (req\<lparr>rq_user := u\<rparr>) = C req"
begin

lemma cors_acts:
  assumes "acts V P R C h" and "cc_origins cfg \<noteq> []"
  shows "acts V P R C (cors h cfg)"
proof (rule actsI)
  fix req w s
  assume s: "V s" "R req"
  show "outcome (P req s) (C req) (cors h cfg req (w, s))"
    using actsD [OF assms(1) s] assms(2) idle [OF s(1)] by (simp add: cors_def Let_def)
qed

lemma real_ip_acts:
  assumes "acts V P (\<lambda>_. True) C h"
  shows "acts V P (\<lambda>_. True) C (real_ip h)"
proof (rule actsI)
  fix req w s
  assume s: "V s"
  from actsD [OF assms s, of "req\<lparr>rq_remoteAddr := get_real_ip req\<rparr>"]
  show "outcome (P req s) (C req) (real_ip h req (w, s))" by (simp add: real_ip_def other_address)
qed

lemma auth_acts:
  assumes "acts V P (fits m p) C h"
  shows "acts V P (fits m p) C (auth_wrap parse now t h)"
proof (rule actsI)
  fix req w s
  assume s: "V s" "fits m p req"
  show "outcome (P req s) (C req) (auth_wrap parse now t h req (w, s))"
    using actsD [OF assms s(1), of "req\<lparr>rq_user := Some u\<rparr>" for u] other_user [where req = req] idle [OF s(1)] s(2)
    by (auto simp: auth_wrap_def Let_def split: sum.split)
qed

lemma mux_acts:
  assumes "\<And>m p h. (m, p, h) \<in> set rs \<Longrightarrow> acts V P (fits m p) C h" and "acts V P (\<lambda>_. True) C fallback"
  shows "acts V P (\<lambda>_. True) C (serve_mux rs fallback)"
proof (rule actsI)
  fix req :: request and w s
  assume s: "V s"
  let ?f = "filter (\<lambda>(m, p, h). path_fits p (rq_path req) \<and> method_fits m (rq_method req)) rs"
  show "outcome (P req s) (C req) (serve_mux rs fallback req (w, s))"
  proof (cases "clean_path (rq_path req) \<and> ?f \<noteq> []")
    case True
    then obtain m p h xs where x: "?f = (m, p, h) # xs" by (metis list.exhaust surj_pair)
    then have "(m, p, h) \<in> set ?f" by simp
    then have "(m, p, h) \<in> set rs" "fits m p req" by (simp_all add: fits_def)
    from actsD [OF assms(1) [OF this(1)] s this(2)] x True show ?thesis by (simp add: serve_mux_def)
  next
    case False
    then show ?thesis using actsD [OF assms(2) s] by (auto simp: serve_mux_def)
  qed
qed

end

section \<open>The handlers\<close>

text \<open>The only request a handler panics on: an account operation whose body is the JSON document \<open>null\<close>.\<close>

definition null_account :: "'db http_deps \<Rightarrow> request \<Rightarrow> bool" where
  "null_account d req \<longleftrightarrow> rq_method req = ''POST'' \<and> rq_path req \<in> {''/api/v1/auth/sign-up'', ''/api/v1/auth/sign-in''}
     \<and> hd_decode d (rq_body req) = Inr None"

lemma null_account_update [simp]: "null_account d (req\<lparr>rq_remoteAddr := a\<rparr>) = null_account d req"
  "null_account d (req\<lparr>rq_user := u\<rparr>) = null_account d req"
  by (simp_all add: null_account_def)

text \<open>What a sign-up adds: one user, with the password's hash, and one active key of that user.\<close>

definition adds_account ::
    "('s \<Rightarrow> user list) \<Rightarrow> ('s \<Rightarrow> stream_key list) \<Rightarrow> 'db http_deps \<Rightarrow> http_oracle \<Rightarrow> credentials \<Rightarrow> 's \<Rightarrow> 's \<Rightarrow> bool" where
  "adds_account users skeys d ora c s s' \<longleftrightarrow> (\<exists>u k. us_username u = cr_username c
     \<and> hd_generate d (cr_password c) 14 = Inr (us_password u) \<and> create_stream_key (ho_random ora) = Inr (sk_key k)
     \<and> sk_userID k = us_id u \<and> sk_active k \<and> users s' = users s @ [u] \<and> skeys s' = skeys s @ [k])"

definition same_accounts :: "('s \<Rightarrow> user list) \<Rightarrow> ('s \<Rightarrow> stream_key list) \<Rightarrow> 's \<Rightarrow> 's \<Rightarrow> bool" where
  "same_accounts users skeys s s' \<longleftrightarrow> users s' = users s \<and> skeys s' = skeys s"

lemma same_accounts_refl [simp]: "same_accounts users skeys s s"
  by (simp add: same_accounts_def)

text \<open>Only a valid request to sign up adds an account.\<close>

definition asks_account :: "'db http_deps \<Rightarrow> request \<Rightarrow> credentials \<Rightarrow> bool" where
  "asks_account d req c \<longleftrightarrow> rq_method req = ''POST'' \<and> rq_path req = ''/api/v1/auth/sign-up''
     \<and> hd_decode d (rq_body req) = Inr (Some c) \<and> sign_up_valid c = []"

lemma asks_account_update [simp]: "asks_account d (req\<lparr>rq_remoteAddr := a\<rparr>) = asks_account d req"
  "asks_account d (req\<lparr>rq_user := u\<rparr>) = asks_account d req"
  by (simp_all add: asks_account_def fun_eq_iff)

definition account_step ::
    "('s \<Rightarrow> bool) \<Rightarrow> ('s \<Rightarrow> user list) \<Rightarrow> ('s \<Rightarrow> stream_key list) \<Rightarrow> 's http_deps \<Rightarrow> http_oracle \<Rightarrow> request \<Rightarrow> 's \<Rightarrow> 's \<Rightarrow> bool" where
  "account_step V users skeys d ora req s s' \<longleftrightarrow> V s'
     \<and> (same_accounts users skeys s s' \<or> (\<exists>c. asks_account d req c \<and> adds_account users skeys d ora c s s'))"

lemma account_step_same: "V s' \<Longrightarrow> same_accounts users skeys s s' \<Longrightarrow> account_step V users skeys d ora req s s'"
  by (simp add: account_step_def)

sublocale sql_transactions \<subseteq> accounts: handler_contract valid "account_step valid users stream_keys d ora" "null_account d"
    for d :: "'db http_deps" and ora
  by unfold_locales (simp_all add: account_step_def fun_eq_iff)

context sql_transactions
begin

lemma sign_up_adds:
  assumes v: "valid db" and run: "sign_up query begin_tx commit (hd_generate d) (ho_random ora) (cr_username c) (cr_password c) db = (r, db')"
  shows "valid db' \<and> (db' = db \<or> adds_account users stream_keys d ora c db db')"
proof -
  have insert: ?thesis if run: "sign_up_insert query begin_tx commit (hd_generate d) (ho_random ora) (cr_username c) (cr_password c) db = (r, db')"
  proof (cases "hd_generate d (cr_password c) 14"; cases "create_stream_key (ho_random ora)")
    fix h x assume g: "hd_generate d (cr_password c) 14 = Inr h" "create_stream_key (ho_random ora) = Inr x"
    with run have trx: "exec_trx begin_tx commit (save_account query (cr_username c) h x) db = (r, db')"
      by (simp add: sign_up_insert_def hash_password_def)
    show ?thesis
    proof (cases r)
      case (Inl e)
      then show ?thesis using exec_trx_ok [OF trx] v by simp
    next
      case (Inr u)
      then have "save_account query (cr_username c) h x db = (Inr u, db')" using exec_trx_ok [OF trx] by simp
      from save_account_ok [OF v this] show ?thesis using g by (auto simp: adds_account_def)
    qed
  qed (use v run in \<open>simp_all add: sign_up_insert_def hash_password_def\<close>)
  obtain b d where ex: "users_exists_by_username query (cr_username c) db = (b, d)" by fastforce
  with users_exists_by_username_ok [OF v ex] insert v run show ?thesis by (cases b) (simp_all add: sign_up_def)
qed

lemma sign_up_handler_acts:
  assumes "hd_query d = query" "hd_begin d = begin_tx" "hd_commit d = commit"
  shows "acts valid (account_step valid users stream_keys d ora) (fits (Some ''POST'') ''/api/v1/auth/sign-up'') (null_account d)
    (sign_up_handler d ora)"
proof (rule actsI)
  fix req w s
  assume v: "valid s" and r: "fits (Some ''POST'') ''/api/v1/auth/sign-up'' req"
  have post: "rq_method req = ''POST''" "rq_path req = ''/api/v1/auth/sign-up''"
    using r by (simp_all add: fits_def path_fits_def method_fits_def)
  have saved: "account_step valid users stream_keys d ora req s db"
    if "sign_up query begin_tx commit (hd_generate d) (ho_random ora) (cr_username c) (cr_password c) s = (x, db)"
      "hd_decode d (rq_body req) = Inr (Some c)" "sign_up_valid c = []" for c x db
    using sign_up_adds [OF v that(1)] that(2,3) post v by (auto simp: account_step_def asks_account_def)
  then show "outcome (account_step valid users stream_keys d ora req s) (null_account d req) (sign_up_handler d ora req (w, s))"
    using v post assms by (auto simp: sign_up_handler_def decode_body_def null_account_def Let_def account_step_same
        split: sum.split option.split prod.split)
qed

lemma sign_in_handler_acts:
  assumes "hd_query d = query"
  shows "acts valid (account_step valid users stream_keys d ora) (fits (Some ''POST'') ''/api/v1/auth/sign-in'') (null_account d)
    (sign_in_handler d ora)"
proof (rule actsI)
  fix req w s
  assume v: "valid s" and r: "fits (Some ''POST'') ''/api/v1/auth/sign-in'' req"
  have "account_step valid users stream_keys d ora req s db" if "sign_in query (hd_compare d) n p s = (x, db)" for n p x db
    using sign_in_ok [OF v that] v by (simp add: account_step_same)
  then show "outcome (account_step valid users stream_keys d ora req s) (null_account d req) (sign_in_handler d ora req (w, s))"
    using v r assms
    by (auto simp: sign_in_handler_def decode_body_def null_account_def fits_def path_fits_def method_fits_def Let_def
        account_step_same split: sum.split option.split prod.split)
qed

text \<open>The routes that read.\<close>

lemma readers_act:
  assumes "hd_query d = query"
  shows "acts valid (account_step valid users stream_keys d ora) R C (get_current d)"
    and "acts valid (account_step valid users stream_keys d ora) R C (get_by_username d)"
    and "acts valid (account_step valid users stream_keys d ora) R C (get_of_current_user d)"
  using assms users_get_by_id_ok users_get_by_username_ok sk_get_by_user_id_ok
  by (fastforce simp: acts_def get_current_def get_by_username_def get_of_current_user_def get_user_def account_step_same
      split: sum.split option.split prod.split)+

text \<open>The routes with the WebSocket transports installed, which leave the accounts alone.\<close>

lemma routes_act:
  assumes d: "hd_query d = query" "hd_begin d = begin_tx" "hd_commit d = commit"
    and hs: "\<And>p h. (p, h) \<in> set handlers \<Longrightarrow> acts valid (account_step valid users stream_keys d ora) (\<lambda>_. True) (\<lambda>_. False) h"
    and route: "(m, p, h) \<in> set (routes d ora handlers)"
  shows "acts valid (account_step valid users stream_keys d ora) (fits m p) (null_account d) h"
proof -
  note sql = sign_up_handler_acts [OF d] sign_in_handler_acts [OF d(1)] readers_act [OF d(1)]
  from route consider
      "m = Some ''POST''" "p = ''/api/v1/auth/sign-up''" "h = sign_up_handler d ora"
    | "m = Some ''POST''" "p = ''/api/v1/auth/sign-in''" "h = sign_in_handler d ora"
    | "h = auth_wrap (hd_parse d) (ho_now ora) (hd_token d) (get_current d)"
    | "h = get_by_username d"
    | "h = auth_wrap (hd_parse d) (ho_now ora) (hd_token d) (get_of_current_user d)"
    | "(p, h) \<in> set handlers"
    by (auto simp: routes_def Let_def)
  then show ?thesis
  proof cases
    case 6
    from hs [OF this] show ?thesis by (rule acts_mono)
  qed (use sql in \<open>auto intro!: accounts.auth_acts\<close>)
qed

lemma run_server_acts:
  assumes d: "hd_query d = query" "hd_begin d = begin_tx" "hd_commit d = commit"
    and "\<And>p h. (p, h) \<in> set handlers \<Longrightarrow> acts valid (account_step valid users stream_keys d ora) (\<lambda>_. True) (\<lambda>_. False) h"
    and "acts valid (account_step valid users stream_keys d ora) (\<lambda>_. True) (\<lambda>_. False) fallback" and "origins \<noteq> []"
  shows "acts valid (account_step valid users stream_keys d ora) (\<lambda>_. True) (null_account d) (run_server d ora handlers fallback origins)"
proof -
  have "acts valid (account_step valid users stream_keys d ora) (\<lambda>_. True) (null_account d) fallback" using assms(5) by (rule acts_mono)
  with routes_act [where handlers = handlers, OF d assms(4)]
  have "acts valid (account_step valid users stream_keys d ora) (\<lambda>_. True) (null_account d) (serve_mux (routes d ora handlers) fallback)"
    by (intro accounts.mux_acts)
  then show ?thesis unfolding run_server_def
    by (intro accounts.real_ip_acts accounts.cors_acts) (use assms(6) in \<open>simp_all add: cors_settings_def\<close>)
qed

end

text \<open>A request without an origin passes the CORS middleware.\<close>

lemma run_server_no_origin:
  assumes "rq_header req ''Origin'' = ''''"
  shows "run_server d ora hs fallback origins req ws
    = serve_mux (routes d ora hs) fallback (req\<lparr>rq_remoteAddr := get_real_ip req\<rparr>) ws"
  using assms by (simp add: run_server_def real_ip_def cors_def Let_def)

text \<open>
  Which requests get past it: those of an allowed origin too, a preflight apart, with the methods it knows;
  with the single origin \<open>*\<close> it does not look at the method.
\<close>

definition cors_verbs :: "string list" where
  "cors_verbs = [''GET'', ''POST'', ''HEAD'', ''PATCH'', ''PUT'', ''DELETE'']"

definition origin_allowed :: "string list \<Rightarrow> request \<Rightarrow> bool" where
  "origin_allowed origins req \<longleftrightarrow> hd origins = ''*'' \<or> rq_header req ''Origin'' \<in> set origins"

definition reaches_handler :: "string list \<Rightarrow> request \<Rightarrow> bool" where
  "reaches_handler origins req \<longleftrightarrow> rq_header req ''Origin'' = ''''
     \<or> origin_allowed origins req
       \<and> (if rq_method req = ''OPTIONS'' then rq_header req ''Access-Control-Request-Method'' = ''''
          else rq_method req \<in> set cors_verbs \<or> origins = [''*''])"

definition cors_writer :: "string list \<Rightarrow> request \<Rightarrow> writer \<Rightarrow> writer" where
  "cors_writer origins req w =
     (if rq_header req ''Origin'' = '''' \<or> rq_method req = ''OPTIONS'' then w
      else cors_headers (cors_settings origins) False (rq_header req ''Origin'') w)"

lemma run_server_cors:
  "run_server d ora hs fallback origins req ws
     = cors (serve_mux (routes d ora hs) fallback) (cors_settings origins) (req\<lparr>rq_remoteAddr := get_real_ip req\<rparr>) ws"
  "with_methods (cors_settings origins) = cors_settings origins"
  "cc_methods (cors_settings origins) = cors_verbs" "cc_origins (cors_settings origins) = origins"
  by (simp_all add: run_server_def real_ip_def with_methods_def cors_settings_def cors_verbs_def)

lemma one_origin: "origins \<noteq> [] \<Longrightarrow> length origins = Suc 0 \<and> hd origins = x \<longleftrightarrow> origins = [x]"
  by (cases origins) auto

lemma run_server_passes:
  assumes "origins \<noteq> []" and "reaches_handler origins req"
  shows "run_server d ora hs fallback origins req (w, s)
    = serve_mux (routes d ora hs) fallback (req\<lparr>rq_remoteAddr := get_real_ip req\<rparr>) (cors_writer origins req w, s)"
proof -
  have "deref origins 0 = Some (hd origins)" using assms(1) by (simp add: hd_conv_nth)
  then show ?thesis using assms(2) one_origin [OF assms(1), of "''*''"] unfolding run_server_cors(1) cors_def run_server_cors(2)
    by (auto simp: run_server_cors(3,4) reaches_handler_def origin_allowed_def cors_writer_def cors_verbs_def Let_def)
qed

text \<open>All others are answered with an empty 200; a preflight of an allowed origin that is granted has the headers.\<close>

definition preflight_granted :: "string list \<Rightarrow> request \<Rightarrow> bool" where
  "preflight_granted origins req \<longleftrightarrow> origin_allowed origins req \<and> rq_method req = ''OPTIONS''
     \<and> (rq_header req ''Access-Control-Request-Method'' \<in> set cors_verbs \<or> origins = [''*''])"

lemma run_server_stops:
  assumes "origins \<noteq> []" and "\<not> reaches_handler origins req"
  shows "run_server d ora hs fallback origins req (w, s)
    = Some (write_header 200 (if preflight_granted origins req
        then cors_headers (cors_settings origins) True (rq_header req ''Origin'') w else w), s)"
proof -
  have "deref origins 0 = Some (hd origins)" using assms(1) by (simp add: hd_conv_nth)
  then show ?thesis using assms(2) one_origin [OF assms(1), of "''*''"] unfolding run_server_cors(1) cors_def run_server_cors(2)
    by (auto simp: run_server_cors(3,4) reaches_handler_def origin_allowed_def preflight_granted_def http_status Let_def)
qed

section \<open>Requests that panic\<close>

lemma null_account_route:
  assumes "null_account d req"
  shows "serve_mux (routes d ora hs) fallback req ws \<in> {sign_up_handler d ora req ws, sign_in_handler d ora req ws}"
proof -
  have "clean_path ''/api/v1/auth/sign-up''" "clean_path ''/api/v1/auth/sign-in''" by code_simp+
  with assms show ?thesis
    by (auto simp: null_account_def serve_mux_def routes_def path_fits_def method_fits_def Let_def)
qed

lemma null_account_panics:
  assumes "null_account d req" and "rq_header req ''Origin'' = ''''"
  shows "run_server d ora hs fallback origins req (w, s) = None"
proof -
  let ?req = "req\<lparr>rq_remoteAddr := get_real_ip req\<rparr>"
  have "sign_up_handler d ora ?req (w, s) = None" "sign_in_handler d ora ?req (w, s) = None"
    using assms(1) by (simp_all add: null_account_def sign_up_handler_def sign_in_handler_def decode_body_def)
  with null_account_route [of d ?req ora hs fallback "(w, s)"] assms(1) show ?thesis
    by (simp add: run_server_no_origin [OF assms(2)])
qed

end
