(* ===== verification/Config.thy ===== *)
theory Config
  imports WebFront
begin

text \<open>
  \<open>config/config.go\<close>: the settings read from the environment. The process ends at the first one that
  is invalid, which the model returns with what is logged.
\<close>

section \<open>Ports\<close>

text \<open>\<open>strconv.Atoi\<close>: an optional sign and decimal digits, within 64 bits.\<close>

definition atoi :: "string \<Rightarrow> int option" where
  "atoi s =
     (let digits = (if s \<noteq> '''' \<and> hd s \<in> {CHR ''+'', CHR ''-''} then tl s else s)
      in if digits = '''' then None
         else case parse_digits 0 digits of
           None \<Rightarrow> None
         | Some n \<Rightarrow>
             let v = (if hd s = CHR ''-'' then - int n else int n)
             in if - (2 ^ 63) \<le> v \<and> v < 2 ^ 63 then Some v else None)"

definition is_valid_port :: "string \<Rightarrow> bool" where
  "is_valid_port port = (case atoi port of None \<Rightarrow> False | Some val \<Rightarrow> val \<ge> 1 \<and> val \<le> 65535)"

section \<open>The database's URL\<close>

text \<open>\<open>url.QueryEscape\<close>\<close>

definition unreserved :: "char \<Rightarrow> bool" where
  "unreserved c \<longleftrightarrow> username_char c \<or> c \<in> set ''.~''"

definition upper_hex :: "nat \<Rightarrow> char" where
  "upper_hex d = ''0123456789ABCDEF'' ! d"

definition escape_char :: "char \<Rightarrow> string" where
  "escape_char c = (if unreserved c then [c] else if c = CHR '' '' then ''+''
     else [CHR ''%'', upper_hex (of_char c div 16), upper_hex (of_char c mod 16)])"

definition query_escape :: "string \<Rightarrow> string" where
  "query_escape s = concat (map escape_char s)"

definition database_url :: "string \<Rightarrow> string \<Rightarrow> string \<Rightarrow> string \<Rightarrow> string \<Rightarrow> string \<Rightarrow> string" where
  "database_url user pswd host port name sslmode =
     ''postgres://'' @ user @ '':'' @ pswd @ ''@'' @ host @ '':'' @ port @ ''/'' @ name @ ''?sslmode='' @ sslmode"

section \<open>The settings\<close>

record config =
  cf_databaseURL :: string
  cf_httpServerHost :: string
  cf_httpServerPort :: string
  cf_httpAllowedOrigins :: "string list"
  cf_rtmpServerHost :: string
  cf_rtmpServerPort :: string
  cf_jwtAccessTokenSecret :: string

text \<open>What \<open>fatal\<close> is called with.\<close>

type_synonym fatal = "string \<times> string \<times> string"

definition new_config :: "(string \<Rightarrow> string) \<Rightarrow> fatal + config" where
  "new_config getenv =
     (let host = getenv ''HTTP_SERVER_HOST''; port = getenv ''HTTP_SERVER_PORT'';
          rtmpHost = getenv ''RTMP_SERVER_HOST''; rtmpPort = getenv ''RTMP_SERVER_PORT'';
          dbUser = getenv ''DB_USER''; dbHost = getenv ''DB_HOST''; dbPort = getenv ''DB_PORT'';
          dbName = getenv ''DB_NAME''; dbPswd = query_escape (getenv ''DB_PASSWORD''); dbSSLMode = getenv ''DB_SSL_MODE'';
          secret = getenv ''JWT_ACCESS_TOKEN_SECRET''
      in if host = '''' then Inl (''HTTP server host'', ''HTTP_SERVER_HOST'', host)
         else if \<not> is_valid_port port then Inl (''HTTP server port'', ''HTTP_SERVER_PORT'', port)
         else if rtmpHost = '''' then Inl (''RTMP server host'', ''RTMP_SERVER_HOST'', rtmpHost)
         else if \<not> is_valid_port rtmpPort then Inl (''RTMP server port'', ''RTMP_SERVER_PORT'', rtmpPort)
         else if dbUser = '''' then Inl (''Database user'', ''DB_USER'', rtmpHost)
         else if dbPswd = '''' then Inl (''Database password'', ''DB_PASSWORD'', rtmpHost)
         else if dbHost = '''' then Inl (''Database host'', ''DB_HOST'', rtmpHost)
         else if dbName = '''' then Inl (''Database name'', ''DB_NAME'', rtmpHost)
         else if \<not> is_valid_port dbPort then Inl (''Database port'', ''DB_PORt'', rtmpHost)
         else if dbSSLMode \<noteq> ''disable'' \<and> dbSSLMode \<noteq> ''enable'' then Inl (''Database SSL mode'', ''DB_SSL_MODE'', dbSSLMode)
         else if secret = '''' then Inl (''JWT access token secret'', ''JWT_ACCESS_TOKEN_SECRET'', secret)
         else Inr \<lparr>cf_databaseURL = database_url dbUser dbPswd dbHost dbPort dbName dbSSLMode,
           cf_httpServerHost = host, cf_httpServerPort = port,
           cf_httpAllowedOrigins = split_at CHR '','' (getenv ''HTTP_ALLOWED_ORIGINS''),
           cf_rtmpServerHost = rtmpHost, cf_rtmpServerPort = rtmpPort, cf_jwtAccessTokenSecret = secret\<rparr>)"

text \<open>\<open>scripts/migrate.go\<close> builds the same URL without checking anything.\<close>

definition migrate_url :: "(string \<Rightarrow> string) \<Rightarrow> string" where
  "migrate_url getenv = database_url (getenv ''DB_USER'') (query_escape (getenv ''DB_PASSWORD'')) (getenv ''DB_HOST'')
     (getenv ''DB_PORT'') (getenv ''DB_NAME'') (getenv ''DB_SSL_MODE'')"

section \<open>Facts\<close>

lemma new_config_ok:
  assumes "new_config getenv = Inr c"
  shows "cf_jwtAccessTokenSecret c = getenv ''JWT_ACCESS_TOKEN_SECRET''" "cf_jwtAccessTokenSecret c \<noteq> ''''"
    "is_valid_port (cf_httpServerPort c)" "is_valid_port (cf_rtmpServerPort c)"
    "cf_httpServerHost c \<noteq> ''''" "cf_rtmpServerHost c \<noteq> ''''"
    "cf_httpAllowedOrigins c = split_at CHR '','' (getenv ''HTTP_ALLOWED_ORIGINS'')"
    "cf_databaseURL c = migrate_url getenv"
  using assms by (auto simp: new_config_def migrate_url_def Let_def split: if_splits)

text \<open>An escaped password has no character that would end it, such as \<open>@\<close>, \<open>/\<close> or \<open>:\<close>.\<close>

lemma unreserved_upper_hex: "d < 16 \<Longrightarrow> unreserved (upper_hex d)"
proof -
  assume d: "d < 16"
  have "upper_hex d \<in> set ''0123456789ABCDEF''"
    unfolding upper_hex_def by (rule nth_mem) (use d in simp)
  then show ?thesis by (fastforce simp: unreserved_def username_char_def)
qed

lemma escape_char_safe:
  assumes "c \<in> set (escape_char x)"
  shows "unreserved c \<or> c = CHR ''+'' \<or> c = CHR ''%''"
proof -
  have "(of_char x :: nat) div 16 < 16" by (rule less_mult_imp_div_less) simp
  then have "unreserved (upper_hex (of_char x div 16))" "unreserved (upper_hex (of_char x mod 16))"
    using unreserved_upper_hex by simp_all
  with assms show ?thesis by (cases "unreserved x"; cases "x = CHR '' ''") (auto simp: escape_char_def)
qed

lemma query_escape_safe: "c \<in> set (query_escape s) \<Longrightarrow> unreserved c \<or> c = CHR ''+'' \<or> c = CHR ''%''"
  unfolding query_escape_def using escape_char_safe by fastforce

end
