(* ===== verification/Servers.thy ===== *)
theory Servers
  imports Config
begin

text \<open>
  The servers' own loops and how \<open>main.go\<close> waits for them: the accept loop of \<open>transport/rtmp\<close>, the end
  of \<open>RunServer\<close> of \<open>transport/http\<close>, and the database client. Listening, accepting and serving are the
  network's: an argument says what the listener is, what each call of \<open>Accept\<close> returns, and how
  \<open>ListenAndServe\<close> ends, if it does. Not returning is the value \<open>None\<close>.
\<close>

section \<open>The RTMP server\<close>

text \<open>The loop with the connections it has started a goroutine for; a failed \<open>Accept\<close> is logged.\<close>

partial_function (option) accept_loop :: "(nat \<Rightarrow> go_error + 'c) \<Rightarrow> nat \<Rightarrow> 'c list \<Rightarrow> 'c list option" where
  "accept_loop accept n conns =
     (case accept n of
        Inl e \<Rightarrow> accept_loop accept (Suc n) conns
      | Inr conn \<Rightarrow> accept_loop accept (Suc n) (conns @ [conn]))"

definition rtmp_run_server :: "(string \<Rightarrow> go_error + (nat \<Rightarrow> go_error + 'c)) \<Rightarrow> string \<Rightarrow> go_error option option" where
  "rtmp_run_server listen addr =
     (case listen addr of
        Inl e \<Rightarrow> Some (Some (WrapErr ''listen'' e))
      | Inr accept \<Rightarrow> do {
          _ \<leftarrow> accept_loop accept 0 [];
          Some None
        })"

text \<open>The first rounds of the loop.\<close>

fun accept_rounds :: "(nat \<Rightarrow> go_error + 'c) \<Rightarrow> nat \<Rightarrow> 'c list" where
  "accept_rounds accept 0 = []"
| "accept_rounds accept (Suc n) =
     accept_rounds accept n @ (case accept n of Inl e \<Rightarrow> [] | Inr conn \<Rightarrow> [conn])"

section \<open>The HTTP server\<close>

definition ErrServerClosed :: go_error where
  "ErrServerClosed = LibErr ''http: Server closed''"

definition http_run_server :: "(string \<Rightarrow> go_error option) \<Rightarrow> string \<Rightarrow> go_error option option" where
  "http_run_server serve addr =
     (case serve addr of
        None \<Rightarrow> None
      | Some e \<Rightarrow> Some (if e \<noteq> ErrServerClosed then Some e else None))"

section \<open>The database client\<close>

definition new_client :: "(string \<Rightarrow> go_error + 'c) \<Rightarrow> ('c \<Rightarrow> go_error option) \<Rightarrow> string \<Rightarrow> go_error + 'c" where
  "new_client open_db ping url =
     (case open_db url of
        Inl e \<Rightarrow> Inl e
      | Inr db \<Rightarrow> (case ping db of Some e \<Rightarrow> Inl e | None \<Rightarrow> Inr db))"

section \<open>The two servers together\<close>

definition server_addr :: "string \<Rightarrow> string \<Rightarrow> string" where
  "server_addr host port = host @ '':'' @ port"

text \<open>Both log an error and are done.\<close>

definition main_rtmp_server :: "(string \<Rightarrow> go_error + (nat \<Rightarrow> go_error + 'c)) \<Rightarrow> config \<Rightarrow> unit option" where
  "main_rtmp_server listen conf =
     map_option (\<lambda>_. ()) (rtmp_run_server listen (server_addr (cf_rtmpServerHost conf) (cf_rtmpServerPort conf)))"

definition main_http_server :: "(string \<Rightarrow> go_error option) \<Rightarrow> config \<Rightarrow> unit option" where
  "main_http_server serve conf =
     map_option (\<lambda>_. ()) (http_run_server serve (server_addr (cf_httpServerHost conf) (cf_httpServerPort conf)))"

text \<open>\<open>main\<close> waits for both.\<close>

definition main_wait ::
    "(string \<Rightarrow> go_error + (nat \<Rightarrow> go_error + 'c)) \<Rightarrow> (string \<Rightarrow> go_error option) \<Rightarrow> config \<Rightarrow> unit option" where
  "main_wait listen serve conf = do {
     _ \<leftarrow> main_rtmp_server listen conf;
     main_http_server serve conf
   }"

section \<open>The migration script\<close>

text \<open>\<open>scripts/migrate.go\<close>; the result is what \<open>log.Fatal\<close> is called with.\<close>

definition migrate_main ::
    "(string \<Rightarrow> go_error + string) \<Rightarrow> (string \<Rightarrow> string \<Rightarrow> go_error + 'm) \<Rightarrow> ('m \<Rightarrow> go_error option) \<Rightarrow> (string \<Rightarrow> string) \<Rightarrow> go_error option" where
  "migrate_main abs_path new_migrate up getenv =
     (case abs_path (getenv ''MIGRATIONS_DIR'') of
        Inl e \<Rightarrow> Some e
      | Inr dir \<Rightarrow>
          (case new_migrate (''file://'' @ dir) (migrate_url getenv) of
             Inl e \<Rightarrow> Some e
           | Inr m \<Rightarrow> up m))"

section \<open>Facts\<close>

text \<open>The loop never ends, whatever \<open>Accept\<close> returns: not even after \<open>StopServer\<close> has closed the listener.\<close>

lemma accept_loop_never_returns: "accept_loop accept n conns = None"
proof -
  have "accept_loop accept n conns = Some r \<Longrightarrow> False" for r
    by (erule accept_loop.raw_induct [where P = "\<lambda>_ _ _ _. False", rotated]) (simp split: sum.splits)
  then show ?thesis by (cases "accept_loop accept n conns") auto
qed

lemma rtmp_run_server_returns: "rtmp_run_server listen addr \<noteq> None \<longleftrightarrow> (\<exists>e. listen addr = Inl e)"
  by (auto simp: rtmp_run_server_def accept_loop_never_returns split: sum.splits)

text \<open>A round only adds a connection, so the loop has started exactly the accepted ones.\<close>

lemma accept_rounds_loop:
  "accept_loop accept 0 [] = accept_loop accept n (accept_rounds accept n)"
proof (induction n)
  case (Suc n)
  have "accept_loop accept n (accept_rounds accept n) = accept_loop accept (Suc n) (accept_rounds accept (Suc n))"
    by (subst accept_loop.simps) (simp split: sum.splits)
  with Suc show ?case by simp
qed simp

lemma accept_rounds_accepted: "c \<in> set (accept_rounds accept n) \<longleftrightarrow> (\<exists>k < n. accept k = Inr c)"
  by (induction n) (auto simp: less_Suc_eq split: sum.splits)

text \<open>The program ends only when it cannot listen for RTMP and the HTTP server has stopped.\<close>

lemma main_returns:
  "main_wait listen serve conf = Some () \<longleftrightarrow>
     (\<exists>e. listen (server_addr (cf_rtmpServerHost conf) (cf_rtmpServerPort conf)) = Inl e)
     \<and> serve (server_addr (cf_httpServerHost conf) (cf_httpServerPort conf)) \<noteq> None"
  by (auto simp: main_wait_def main_rtmp_server_def main_http_server_def rtmp_run_server_def http_run_server_def
      accept_loop_never_returns bind_Some_iff split: sum.splits option.splits)

end
