(* ===== verification/SharedBuffer.thy ===== *)
theory SharedBuffer
  imports GoIO
begin

text \<open>
  \<open>core/media/shared_buffer.go\<close>: the reference-counted byte buffer that one publisher fills
  and several consumers send. One definition per method. A pool is named by the publisher that
  owns it and by its kind; the pools themselves are part of the heap of theory \<open>MediaHeap\<close>.
  The reference count is the code's \<open>atomic.Int32\<close>, a 32-bit word read as signed. Lengths are
  natural numbers: every \<open>int\<close> the callers pass is a converted \<open>uint32\<close> or a slice length, so
  the 64-bit sums of the code do not wrap.
\<close>

datatype pool_kind = VideoPool | AudioPool

type_synonym pool_ref = "nat \<times> pool_kind"
type_synonym buf_ref = nat

record shared_buffer =
  sb_pool :: pool_ref
  sb_buf :: "byte list"
  sb_refs :: u32
  sb_len :: nat

section \<open>Operations\<close>

definition new_shared_buffer :: "pool_ref \<Rightarrow> byte list \<Rightarrow> nat \<Rightarrow> shared_buffer option" where
  "new_shared_buffer pool buf initLen =
     (if initLen > length buf then None
      else Some \<lparr>sb_pool = pool, sb_buf = buf, sb_refs = 0, sb_len = initLen\<rparr>)"

definition sb_reset :: "shared_buffer \<Rightarrow> shared_buffer" where
  "sb_reset b = b\<lparr>sb_len := 0\<rparr>"

definition sb_bytes :: "shared_buffer \<Rightarrow> byte list" where
  "sb_bytes b = take (sb_len b) (sb_buf b)"

definition sb_copy_slice :: "shared_buffer \<Rightarrow> shared_buffer option" where
  "sb_copy_slice b =
     (let bytes = sb_bytes b;
          data = blit 0 bytes (replicate (length bytes) 0)
      in new_shared_buffer (sb_pool b) data (length data))"

definition sb_length :: "shared_buffer \<Rightarrow> nat" where
  "sb_length b = sb_len b"

definition sb_write :: "byte list \<Rightarrow> shared_buffer \<Rightarrow> nat \<times> io_err option \<times> shared_buffer" where
  "sb_write data b =
     (let end = (if length data \<le> length (sb_buf b) - sb_len b
                 then sb_len b + length data else length (sb_buf b));
          size = end - sb_len b;
          b' = b\<lparr>sb_buf := blit (sb_len b) (take size data) (sb_buf b), sb_len := sb_len b + size\<rparr>
      in if size \<noteq> length data then (size, Some ErrShortWrite, b') else (size, None, b'))"

text \<open>
  The loop of \<open>ReadN\<close>. The window \<open>b.buf[b.len:end]\<close> has \<open>end - b.len = toRead - nRead\<close> bytes
  in every round, since a round adds the same \<open>n\<close> to \<open>b.len\<close> and to \<open>nRead\<close>.
\<close>

function read_n_loop ::
    "nat \<Rightarrow> nat \<Rightarrow> shared_buffer \<Rightarrow> reader \<Rightarrow> nat \<times> io_err option \<times> shared_buffer \<times> reader" where
  "read_n_loop toRead nRead b r =
     (if nRead < toRead
      then case go_read (toRead - nRead) r of (c, err, r') \<Rightarrow>
        let b' = b\<lparr>sb_buf := blit (sb_len b) c (sb_buf b), sb_len := sb_len b + length c\<rparr>;
            nRead' = nRead + length c
        in if length c > 0 \<and> nRead' = toRead then (nRead', None, b', r')
           else if err = Some EOF \<and> nRead' < toRead then (nRead', Some ErrUnexpectedEOF, b', r')
           else if err \<noteq> None \<and> err \<noteq> Some EOF then (nRead', err, b', r')
           else read_n_loop toRead nRead' b' r'
      else (nRead, None, b, r))"
  by pat_completeness auto
termination
proof (relation "measures [\<lambda>(t, n, b, r). t - n, \<lambda>(t, n, b, r). length r]", goal_cases)
  case 1
  then show ?case by simp
next
  case 2
  then show ?case
    by (auto dest: go_read_length [OF sym] go_read_shrinks [OF sym])
qed

declare read_n_loop.simps [simp del]

definition sb_read_n ::
    "reader \<Rightarrow> nat \<Rightarrow> shared_buffer \<Rightarrow> nat \<times> io_err option \<times> shared_buffer \<times> reader" where
  "sb_read_n r toRead b =
     (let end = sb_len b + toRead;
          toRead' = (if end > length (sb_buf b) then length (sb_buf b) - sb_len b else toRead)
      in read_n_loop toRead' 0 b r)"

definition sb_acquire :: "nat \<Rightarrow> shared_buffer \<Rightarrow> shared_buffer" where
  "sb_acquire n b = b\<lparr>sb_refs := sb_refs b + of_nat n\<rparr>"

text \<open>
  \<open>Release\<close> panics below zero; the flag of a normal return says that the buffer was reset and
  put back into its pool.
\<close>

definition sb_release :: "shared_buffer \<Rightarrow> (bool \<times> shared_buffer) option" where
  "sb_release b =
     (let new = sb_refs b - 1; b' = b\<lparr>sb_refs := new\<rparr>
      in if sint new < 0 then None
         else if new = 0 then Some (True, sb_reset b')
         else Some (False, b'))"

section \<open>Well-formedness and the length field\<close>

definition sb_ok :: "shared_buffer \<Rightarrow> bool" where
  "sb_ok b \<longleftrightarrow> sb_len b \<le> length (sb_buf b)"

definition sb_count :: "shared_buffer \<Rightarrow> nat" where
  "sb_count b = unat (sb_refs b)"

lemma length_sb_bytes: "sb_ok b \<Longrightarrow> length (sb_bytes b) = sb_len b"
  by (simp add: sb_ok_def sb_bytes_def)

lemma new_shared_buffer_ok:
  "new_shared_buffer p buf n = Some b \<Longrightarrow>
     sb_ok b \<and> sb_bytes b = take n buf \<and> sb_count b = 0 \<and> sb_pool b = p \<and> sb_buf b = buf"
  by (auto simp: new_shared_buffer_def sb_ok_def sb_bytes_def sb_count_def split: if_splits)

lemma sb_copy_slice_eq:
  "sb_copy_slice b = Some \<lparr>sb_pool = sb_pool b, sb_buf = sb_bytes b, sb_refs = 0,
     sb_len = length (sb_bytes b)\<rparr>"
  by (simp add: sb_copy_slice_def new_shared_buffer_def blit_def Let_def)

text \<open>Appending bytes that fit.\<close>

lemma append_window:
  assumes "sb_ok b" and "length c \<le> length (sb_buf b) - sb_len b"
    and "b' = b\<lparr>sb_buf := blit (sb_len b) c (sb_buf b), sb_len := sb_len b + length c\<rparr>"
  shows "sb_bytes b' = sb_bytes b @ c" and "sb_ok b'"
    and "length (sb_buf b') = length (sb_buf b)"
  using assms by (auto simp: sb_ok_def sb_bytes_def take_blit_prefix)

lemma sb_write_spec:
  assumes "sb_ok b" and "sb_write data b = (n, e, b')"
  shows "n = min (length data) (length (sb_buf b) - sb_len b)"
    and "sb_bytes b' = sb_bytes b @ take n data" and "sb_ok b'"
    and "e = (if length data \<le> length (sb_buf b) - sb_len b then None else Some ErrShortWrite)"
    and "length (sb_buf b') = length (sb_buf b)" and "sb_len b' = sb_len b + n"
    and "sb_refs b' = sb_refs b" and "sb_pool b' = sb_pool b"
proof -
  let ?room = "length (sb_buf b) - sb_len b"
  have ok: "sb_len b \<le> length (sb_buf b)" using assms(1) by (simp add: sb_ok_def)
  then have b': "b' = b\<lparr>sb_buf := blit (sb_len b) (take n data) (sb_buf b),
      sb_len := sb_len b + length (take n data)\<rparr>"
    and n: "n = min (length data) ?room"
    and e: "e = (if length data \<le> ?room then None else Some ErrShortWrite)"
    using assms(2) by (auto simp: sb_write_def Let_def split: if_splits)
  then have fits: "length (take n data) \<le> ?room" by simp
  note win = append_window [OF assms(1) fits b']
  show "n = min (length data) ?room" by (rule n)
  show "sb_bytes b' = sb_bytes b @ take n data" by (rule win)
  show "sb_ok b'" by (rule win)
  show "e = (if length data \<le> ?room then None else Some ErrShortWrite)" by (rule e)
  show "length (sb_buf b') = length (sb_buf b)" by (rule win)
  show "sb_len b' = sb_len b + n" using b' n by simp
  show "sb_refs b' = sb_refs b" and "sb_pool b' = sb_pool b" using b' by simp_all
qed

lemma read_n_loop_done: "toRead \<le> nRead \<Longrightarrow> read_n_loop toRead nRead b r = (nRead, None, b, r)"
  by (subst read_n_loop.simps) simp

lemma read_n_loop_spec:
  assumes "sb_ok b" and "nRead \<le> toRead" and "toRead - nRead \<le> length (sb_buf b) - sb_len b"
    and "read_n_loop toRead nRead b r = (n, e, b', r')"
  shows "\<exists>got. content r = got @ content r' \<and> n = nRead + length got \<and> n \<le> toRead
    \<and> sb_bytes b' = sb_bytes b @ got \<and> sb_ok b' \<and> (e = None \<longleftrightarrow> n = toRead)
    \<and> length (sb_buf b') = length (sb_buf b) \<and> sb_len b' = sb_len b + length got
    \<and> sb_refs b' = sb_refs b \<and> sb_pool b' = sb_pool b"
  using assms
proof (induction toRead nRead b r arbitrary: n e b' r' rule: read_n_loop.induct)
  case (1 toRead nRead b r)
  show ?case
  proof (cases "nRead < toRead")
    case False
    then show ?thesis
      using "1.prems" by (auto simp: read_n_loop_done)
  next
    case True
    obtain c f s where cs: "go_read (toRead - nRead) r = (c, f, s)"
      by (cases "go_read (toRead - nRead) r")
    define b1 where "b1 = b\<lparr>sb_buf := blit (sb_len b) c (sb_buf b), sb_len := sb_len b + length c\<rparr>"
    note len = go_read_length [OF cs] and con = go_read_content [OF cs]
    note win = append_window [OF "1.prems"(1) _ b1_def]
    have fits: "length c \<le> length (sb_buf b) - sb_len b" using len "1.prems" by simp
    let ?stop = "length c > 0 \<and> nRead + length c = toRead \<or> f = Some EOF \<and> nRead + length c < toRead
      \<or> f \<noteq> None \<and> f \<noteq> Some EOF"
    show ?thesis
    proof (cases ?stop)
      case stop: True
      have "content r = c @ content r' \<and> n = nRead + length c \<and> b' = b1
          \<and> (e = None \<longleftrightarrow> n = toRead)"
        using "1.prems"(4) True stop cs con len
        by (subst (asm) read_n_loop.simps) (auto simp: b1_def Let_def split: if_splits)
      then show ?thesis
        using win fits len True by (intro exI [of _ c]) (auto simp: b1_def)
    next
      case False
      then have rec: "read_n_loop toRead (nRead + length c) b1 s = (n, e, b', r')"
        using "1.prems"(4) True cs by (subst (asm) read_n_loop.simps) (auto simp: b1_def Let_def split: if_splits)
      have "nRead + length c \<le> toRead"
        and "toRead - (nRead + length c) \<le> length (sb_buf b1) - sb_len b1"
        and "\<not> (length c > 0 \<and> nRead + length c = toRead)"
        and "\<not> (f = Some EOF \<and> nRead + length c < toRead)"
        and "\<not> (f \<noteq> None \<and> f \<noteq> Some EOF)"
        using len False "1.prems" True win(3) fits by (auto simp: b1_def)
      from "1.IH" [OF True cs [symmetric] refl b1_def refl this(3-5) win(2) this(1-2) rec] fits
      obtain got where "content s = got @ content r'" "n = nRead + length c + length got" "n \<le> toRead"
        "sb_bytes b' = sb_bytes b1 @ got" "sb_ok b'" "e = None \<longleftrightarrow> n = toRead"
        "length (sb_buf b') = length (sb_buf b1)" "sb_len b' = sb_len b1 + length got"
        "sb_refs b' = sb_refs b1" "sb_pool b' = sb_pool b1"
        by blast
      then show ?thesis
        using con win fits by (intro exI [of _ "c @ got"]) (auto simp: b1_def)
    qed
  qed
qed

text \<open>A payload that only ends, and is long enough, is read without an error.\<close>

lemma read_n_loop_plain:
  assumes "plain r" and "nRead \<le> toRead" and "toRead - nRead \<le> length (content r)"
    and "read_n_loop toRead nRead b r = (n, e, b', r')"
  shows "e = None \<and> plain r'"
  using assms
proof (induction toRead nRead b r arbitrary: n e b' r' rule: read_n_loop.induct)
  case (1 toRead nRead b r)
  show ?case
  proof (cases "nRead < toRead")
    case False
    then show ?thesis using "1.prems" by (simp add: read_n_loop_done)
  next
    case True
    obtain c f s where cs: "go_read (toRead - nRead) r = (c, f, s)"
      by (cases "go_read (toRead - nRead) r")
    note len = go_read_length [OF cs] and con = go_read_content [OF cs] and pl = go_read_plain [OF "1.prems"(1) cs]
    have f: "f = None" using pl "1.prems"(3) True by auto
    show ?thesis
    proof (cases "length c > 0 \<and> nRead + length c = toRead")
      case True
      then show ?thesis using "1.prems"(4) \<open>nRead < toRead\<close> cs pl
        by (subst (asm) read_n_loop.simps) (auto simp: Let_def)
    next
      case False
      let ?b = "b\<lparr>sb_buf := blit (sb_len b) c (sb_buf b), sb_len := sb_len b + length c\<rparr>"
      have rec: "read_n_loop toRead (nRead + length c) ?b s = (n, e, b', r')"
        using "1.prems"(4) True cs f False by (subst (asm) read_n_loop.simps) (auto simp: Let_def)
      have "nRead + length c \<le> toRead" "toRead - (nRead + length c) \<le> length (content s)"
        using len con "1.prems"(2,3) by simp_all
      from "1.IH" [OF True cs [symmetric] refl refl refl False _ _ _ this rec] f pl show ?thesis by simp
    qed
  qed
qed

lemma sb_read_n_plain:
  assumes "sb_ok b" and "plain r" and "min toRead (length (sb_buf b) - sb_len b) \<le> length (content r)"
    and "sb_read_n r toRead b = (n, e, b', r')"
  shows "e = None \<and> plain r'"
proof -
  let ?t = "min toRead (length (sb_buf b) - sb_len b)"
  have "sb_len b \<le> length (sb_buf b)" using assms(1) by (simp add: sb_ok_def)
  then have "?t = (if sb_len b + toRead > length (sb_buf b) then length (sb_buf b) - sb_len b else toRead)"
    by auto
  then have "read_n_loop ?t 0 b r = (n, e, b', r')"
    using assms(4) by (simp add: sb_read_n_def Let_def)
  from read_n_loop_plain [OF assms(2) _ _ this] assms(3) show ?thesis by simp
qed

lemma sb_read_n_spec:
  assumes "sb_ok b" and "sb_read_n r toRead b = (n, e, b', r')"
  shows "\<exists>got. content r = got @ content r' \<and> n = length got
    \<and> n \<le> min toRead (length (sb_buf b) - sb_len b)
    \<and> sb_bytes b' = sb_bytes b @ got \<and> sb_ok b'
    \<and> (e = None \<longleftrightarrow> n = min toRead (length (sb_buf b) - sb_len b))
    \<and> length (sb_buf b') = length (sb_buf b) \<and> sb_len b' = sb_len b + length got
    \<and> sb_refs b' = sb_refs b \<and> sb_pool b' = sb_pool b"
proof -
  let ?t = "min toRead (length (sb_buf b) - sb_len b)"
  have "sb_len b \<le> length (sb_buf b)" using assms(1) by (simp add: sb_ok_def)
  then have "?t = (if sb_len b + toRead > length (sb_buf b) then length (sb_buf b) - sb_len b else toRead)"
    by auto
  then have "read_n_loop ?t 0 b r = (n, e, b', r')"
    using assms(2) by (simp add: sb_read_n_def Let_def)
  from read_n_loop_spec [OF assms(1) _ _ this] show ?thesis
    by auto
qed

section \<open>Reference counting\<close>

text \<open>
  The contract of a reference count, as the media pipeline relies on it: \<open>Acquire\<close> adds,
  \<open>Release\<close> subtracts one, panics at zero and reports when the last reference is gone.
  A run of acquires and releases then behaves as its running balance says.
\<close>

definition ref_limit :: nat where
  "ref_limit = 2147483648"

datatype ref_op = Acquire nat | Release

text \<open>The run counts how often the buffer is put back.\<close>

fun run_ref_ops :: "(nat \<Rightarrow> 'b \<Rightarrow> 'b) \<Rightarrow> ('b \<Rightarrow> (bool \<times> 'b) option) \<Rightarrow> ref_op list \<Rightarrow> 'b \<Rightarrow>
    (nat \<times> 'b) option" where
  "run_ref_ops acq rel [] b = Some (0, b)"
| "run_ref_ops acq rel (Acquire n # ops) b = run_ref_ops acq rel ops (acq n b)"
| "run_ref_ops acq rel (Release # ops) b = do {
     (put, b) \<leftarrow> rel b;
     (puts, b) \<leftarrow> run_ref_ops acq rel ops b;
     Some (of_bool put + puts, b)
   }"

text \<open>The running balance, the highest balance, and how often the balance drops to zero.\<close>

fun balance :: "nat \<Rightarrow> ref_op list \<Rightarrow> nat option" where
  "balance n [] = Some n"
| "balance n (Acquire k # ops) = balance (n + k) ops"
| "balance n (Release # ops) = (if n = 0 then None else balance (n - 1) ops)"

fun peak :: "nat \<Rightarrow> ref_op list \<Rightarrow> nat" where
  "peak n [] = n"
| "peak n (Acquire k # ops) = max n (peak (n + k) ops)"
| "peak n (Release # ops) = max n (peak (n - 1) ops)"

fun zeros :: "nat \<Rightarrow> ref_op list \<Rightarrow> nat" where
  "zeros n [] = 0"
| "zeros n (Acquire k # ops) = zeros (n + k) ops"
| "zeros n (Release # ops) = (if n = 1 then 1 else 0) + zeros (n - 1) ops"

lemma peak_ge: "n \<le> peak n ops"
  by (cases "(n, ops)" rule: peak.cases) auto

locale ref_counted =
  fixes count :: "'b \<Rightarrow> nat"
    and acquire :: "nat \<Rightarrow> 'b \<Rightarrow> 'b"
    and release :: "'b \<Rightarrow> (bool \<times> 'b) option"
    and limit :: nat
  assumes count_acquire: "count b + n < limit \<Longrightarrow> count (acquire n b) = count b + n"
    and release_none: "count b = 0 \<Longrightarrow> release b = None"
    and release_some: "0 < count b \<Longrightarrow> count b < limit \<Longrightarrow>
      \<exists>b'. release b = Some (count b = 1, b') \<and> count b' = count b - 1"
begin

lemma run_balance:
  "peak (count b) ops < limit \<Longrightarrow>
     (case balance (count b) ops of
        None \<Rightarrow> run_ref_ops acquire release ops b = None
      | Some k \<Rightarrow> \<exists>b'. run_ref_ops acquire release ops b = Some (zeros (count b) ops, b') \<and> count b' = k)"
proof (induction ops arbitrary: b)
  case Nil
  then show ?case by simp
next
  case (Cons x ops)
  show ?case
  proof (cases x)
    case (Acquire n)
    with Cons.prems have "count b + n < limit"
      using peak_ge [of "count b + n" ops] by simp
    then show ?thesis
      using Cons.IH [of "acquire n b"] Cons.prems Acquire
      by (auto simp: count_acquire split: option.splits)
  next
    case Release
    show ?thesis
    proof (cases "count b = 0")
      case True
      then show ?thesis using Release by (simp add: release_none)
    next
      case False
      with Cons.prems Release obtain b' where
        b': "release b = Some (count b = 1, b')" "count b' = count b - 1"
        using release_some [of b] by auto
      have "peak (count b') ops < limit" using Cons.prems Release b' by simp
      from Cons.IH [OF this] show ?thesis
        using Release False b' by (auto split: option.splits)
    qed
  qed
qed

lemma never_panics_while_held:
  "peak (count b) ops < limit \<Longrightarrow> balance (count b) ops = Some k \<Longrightarrow>
     run_ref_ops acquire release ops b \<noteq> None"
  using run_balance [of b ops] by auto

end

lemma sb_count_acquire: "sb_count b + n < ref_limit \<Longrightarrow> sb_count (sb_acquire n b) = sb_count b + n"
  by (simp add: sb_count_def sb_acquire_def ref_limit_def unat_add_of_nat32)

lemma sb_release_none: "sb_count b = 0 \<Longrightarrow> sb_release b = None"
  by (simp add: sb_count_def sb_release_def unat_eq_0)

lemma sb_release_some:
  assumes "0 < sb_count b" and "sb_count b < ref_limit"
  shows "sb_release b = Some (sb_count b = 1,
    b\<lparr>sb_refs := sb_refs b - 1, sb_len := (if sb_count b = 1 then 0 else sb_len b)\<rparr>)"
proof -
  have new: "unat (sb_refs b - 1) = sb_count b - 1"
    using assms(1) unat_minus_one32 [of "sb_refs b"] by (simp add: sb_count_def)
  then have "\<not> sint (sb_refs b - 1) < 0"
    using assms(2) by (simp add: sint_neg_iff32 ref_limit_def)
  moreover have "sb_refs b - 1 = 0 \<longleftrightarrow> sb_count b = 1"
    using new assms(1) by (metis One_nat_def Suc_pred diff_Suc_1 unat_eq_0)
  ultimately show ?thesis
    by (simp add: sb_release_def Let_def sb_reset_def)
qed

interpretation refs: ref_counted sb_count sb_acquire sb_release ref_limit
proof unfold_locales
  show "sb_count b + n < ref_limit \<Longrightarrow> sb_count (sb_acquire n b) = sb_count b + n" for b n
    by (rule sb_count_acquire)
  show "sb_count b = 0 \<Longrightarrow> sb_release b = None" for b
    by (rule sb_release_none)
  show "\<exists>b'. sb_release b = Some (sb_count b = 1, b') \<and> sb_count b' = sb_count b - 1"
    if "0 < sb_count b" and "sb_count b < ref_limit" for b
    using sb_release_some [OF that] unat_minus_one32 [of "sb_refs b"] that
    by (simp add: sb_count_def)
qed

end
