(* ===== verification/MediaMessage.thy ===== *)
theory MediaMessage
  imports SharedBuffer
begin

text \<open>
  The message formats: \<open>core/media/message.go\<close> (the message that travels from a publisher to
  its consumers, and the encoding of stream meta data), the six-byte message header of
  \<open>transport/ws_media/consumer.go\<close> and the packet of \<open>transport/ws_media/packet.go\<close>.
  The decoders are the reader's side of each format; they are specifications, not code.
\<close>

section \<open>Messages\<close>

definition MesgVideo :: u8 where "MesgVideo = 0"
definition MesgVideoSeqHdr :: u8 where "MesgVideoSeqHdr = 1"
definition MesgAudio :: u8 where "MesgAudio = 2"
definition MesgAudioSeqHdr :: u8 where "MesgAudioSeqHdr = 3"
definition MesgMetaData :: u8 where "MesgMetaData = 4"

definition FlagKeyFrame :: u8 where "FlagKeyFrame = 1"
definition FlagContinuation :: u8 where "FlagContinuation = push_bit 1 1"

lemmas mesg_types = MesgVideo_def MesgVideoSeqHdr_def MesgAudio_def MesgAudioSeqHdr_def MesgMetaData_def
lemmas mesg_flags = FlagKeyFrame_def FlagContinuation_def

record message =
  m_type :: u8
  m_flags :: u8
  m_timestamp :: u32
  m_length :: u32
  m_data :: buf_ref

definition is_key_frame :: "message \<Rightarrow> bool" where
  "is_key_frame m \<longleftrightarrow> m_flags m AND FlagKeyFrame \<noteq> 0"

definition is_continuation :: "message \<Rightarrow> bool" where
  "is_continuation m \<longleftrightarrow> m_flags m AND FlagContinuation \<noteq> 0"

section \<open>Meta data\<close>

record meta_data =
  md_videoFrameRate :: u8
  md_videoDataRate :: u16
  md_videoWidth :: u16
  md_videoHeight :: u16
  md_audioChannels :: u8
  md_audioDataRate :: u16
  md_audioSampleRate :: u32

definition metaDataEncodedSize :: nat where
  "metaDataEncodedSize = 14"

text \<open>
  \<open>Encode\<close> writes into the caller's buffer and fails on one that is too short; past the guard
  none of its writes is out of range, so the outer option (a panic) never is \<open>None\<close>.
\<close>

definition meta_encode :: "meta_data \<Rightarrow> byte list \<Rightarrow> (io_err + byte list) option" where
  "meta_encode m buf =
     (if length buf < metaDataEncodedSize then Some (Inl ErrShortBuffer)
      else do {
        buf \<leftarrow> put_at 0 (be_u16 (md_videoWidth m)) buf;
        buf \<leftarrow> put_at 2 (be_u16 (md_videoHeight m)) buf;
        buf \<leftarrow> put_at 4 [md_videoFrameRate m] buf;
        buf \<leftarrow> put_at 5 (be_u16 (md_videoDataRate m)) buf;
        buf \<leftarrow> put_at 7 [md_audioChannels m] buf;
        buf \<leftarrow> put_at 8 (be_u32 (md_audioSampleRate m)) buf;
        buf \<leftarrow> put_at 12 (be_u16 (md_audioDataRate m)) buf;
        Some (Inr buf)
      })"

text \<open>The layout of the fourteen bytes.\<close>

definition meta_layout :: "meta_data \<Rightarrow> byte list" where
  "meta_layout m = be_u16 (md_videoWidth m) @ be_u16 (md_videoHeight m) @ [md_videoFrameRate m]
     @ be_u16 (md_videoDataRate m) @ [md_audioChannels m] @ be_u32 (md_audioSampleRate m)
     @ be_u16 (md_audioDataRate m)"

definition meta_decode :: "byte list \<Rightarrow> meta_data" where
  "meta_decode bs = \<lparr>md_videoFrameRate = bs ! 4, md_videoDataRate = of_be_u16 (drop 5 bs),
     md_videoWidth = of_be_u16 bs, md_videoHeight = of_be_u16 (drop 2 bs),
     md_audioChannels = bs ! 7, md_audioDataRate = of_be_u16 (drop 12 bs),
     md_audioSampleRate = of_be_u32 (drop 8 bs)\<rparr>"

lemma of_be_u16_append [simp]: "of_be_u16 (be_u16 v @ rest) = v"
  using of_be_u16_be [of v] by (simp add: of_be_u16_def be_u16_def)

lemma of_be_u32_append [simp]: "of_be_u32 (be_u32 v @ rest) = v"
  using of_be_u32_be [of v] by (simp add: of_be_u32_def be_u32_def)

lemma length_meta_layout [simp]: "length (meta_layout m) = metaDataEncodedSize"
  by (simp add: meta_layout_def metaDataEncodedSize_def)

lemma meta_decode_layout: "meta_decode (meta_layout m @ rest) = m"
  by (simp add: meta_decode_def meta_layout_def nth_append be_u16_def be_u32_def
    flip: be_u16_def be_u32_def)

lemma list14:
  assumes "14 \<le> length buf"
  obtains a0 a1 a2 a3 a4 a5 a6 a7 a8 a9 a10 a11 a12 a13 rest where
    "buf = a0 # a1 # a2 # a3 # a4 # a5 # a6 # a7 # a8 # a9 # a10 # a11 # a12 # a13 # rest"
  using assms by (auto simp: numeral_eq_Suc Suc_le_length_iff)

lemma meta_encode_layout:
  assumes "metaDataEncodedSize \<le> length buf"
  shows "meta_encode m buf = Some (Inr (meta_layout m @ drop metaDataEncodedSize buf))"
proof -
  obtain a0 a1 a2 a3 a4 a5 a6 a7 a8 a9 a10 a11 a12 a13 rest where
    "buf = a0 # a1 # a2 # a3 # a4 # a5 # a6 # a7 # a8 # a9 # a10 # a11 # a12 # a13 # rest"
    using assms list14 unfolding metaDataEncodedSize_def by blast
  then show ?thesis
    by (simp add: meta_encode_def meta_layout_def metaDataEncodedSize_def put_at_def blit_def
      be_u16_def be_u32_def)
qed

interpretation meta_codec: byte_codec meta_layout meta_decode metaDataEncodedSize "\<lambda>_. True"
  using meta_decode_layout [of _ "[]"] by unfold_locales simp_all

section \<open>The message header\<close>

definition mesgHdrLen :: nat where
  "mesgHdrLen = 6"

text \<open>\<open>mesgHeader.encode\<close> fills the six-byte array it is called on.\<close>

definition mesg_header_encode :: "message \<Rightarrow> byte list \<Rightarrow> byte list option" where
  "mesg_header_encode m h = do {
     h \<leftarrow> put_at 0 [m_type m] h;
     h \<leftarrow> put_at 1 [m_flags m] h;
     put_at 2 (be_u32 (m_timestamp m)) h
   }"

definition mesg_header_layout :: "message \<Rightarrow> byte list" where
  "mesg_header_layout m = [m_type m, m_flags m] @ be_u32 (m_timestamp m)"

lemma mesg_header_encode_layout:
  assumes "length h = mesgHdrLen"
  shows "mesg_header_encode m h = Some (mesg_header_layout m)"
proof -
  obtain a b c d e f where "h = [a, b, c, d, e, f]"
    using assms by (auto simp: mesgHdrLen_def numeral_eq_Suc length_Suc_conv)
  then show ?thesis
    by (simp add: mesg_header_encode_def mesg_header_layout_def put_at_def blit_def be_u32_def)
qed

text \<open>What the peer reads back: type, flags and time stamp.\<close>

definition mesg_header_triple :: "u8 \<times> u8 \<times> u32 \<Rightarrow> byte list" where
  "mesg_header_triple = (\<lambda>(t, f, ts). [t, f] @ be_u32 ts)"

definition mesg_header_decode :: "byte list \<Rightarrow> u8 \<times> u8 \<times> u32" where
  "mesg_header_decode bs = (bs ! 0, bs ! 1, of_be_u32 (drop 2 bs))"

interpretation mesg_codec: byte_codec mesg_header_triple mesg_header_decode mesgHdrLen "\<lambda>_. True"
  by unfold_locales
    (auto simp: mesg_header_triple_def mesg_header_decode_def mesgHdrLen_def of_be_u32_be)

section \<open>Packets\<close>

datatype pack_err = ErrBufferTooShort

definition packHdrSize :: nat where
  "packHdrSize = 5"

definition bool_to_u8 :: "bool \<Rightarrow> u8" where
  "bool_to_u8 b = (if b then 1 else 0)"

record packet =
  pk_type :: u8
  pk_timestamp :: u32
  pk_isKeyFrame :: bool
  pk_data :: "byte list"

text \<open>\<open>copy(data[5:], pack.Data)\<close> fits because of the guard.\<close>

definition packet_encode :: "packet \<Rightarrow> byte list \<Rightarrow> (pack_err + nat \<times> byte list) option" where
  "packet_encode p data =
     (let size = length (pk_data p) + packHdrSize
      in if length data < size then Some (Inl ErrBufferTooShort)
         else do {
           data \<leftarrow> put_at 0 [push_bit 1 (pk_type p AND 0b01111111) OR bool_to_u8 (pk_isKeyFrame p)] data;
           data \<leftarrow> put_at 1 (be_u32 (pk_timestamp p)) data;
           data \<leftarrow> put_at 5 (pk_data p) data;
           Some (Inr (size, data))
         })"

definition packet_decode :: "byte list \<Rightarrow> packet" where
  "packet_decode bs = \<lparr>pk_type = drop_bit 1 (bs ! 0), pk_timestamp = of_be_u32 (drop 1 bs),
     pk_isKeyFrame = (bs ! 0 AND 1 \<noteq> 0), pk_data = drop 5 bs\<rparr>"

lemma shift_out_flag:
  fixes t :: u8
  assumes "n = 1" and "\<not> bit t 7"
  shows "drop_bit n (push_bit n t OR bool_to_u8 k) = t"
proof (rule bit_word_eqI, goal_cases)
  case (1 i)
  have "bit (drop_bit n (push_bit n t OR bool_to_u8 k)) i
      \<longleftrightarrow> n + i < 8 \<and> bit t i \<or> k \<and> n + i = 0"
    by (auto simp: bit_simps bool_to_u8_def)
  moreover have "i = 7 \<or> n + i < 8" using assms(1) 1 by auto
  ultimately show ?case using assms by auto
qed

lemma packet_first_byte:
  fixes t :: u8
  assumes "t < 128"
  shows "drop_bit 1 (push_bit 1 (t AND 0b01111111) OR bool_to_u8 k) = t"
    and "(push_bit 1 (t AND 0b01111111) OR bool_to_u8 k) AND 1 \<noteq> 0 \<longleftrightarrow> k"
proof -
  have "t AND 0b01111111 = take_bit 7 t"
    by (simp add: take_bit_eq_mask mask_eq_exp_minus_1)
  also have "\<dots> = t"
    using assms by (simp add: word_less_nat_alt word_unat_eq_iff take_bit_eq_mod unat_mod)
  finally have t: "t AND 0b01111111 = t" .
  have high: "\<not> bit t 7"
    by (metis \<open>t AND 127 = take_bit 7 t\<close> bit_take_bit_iff less_irrefl t)
  show "drop_bit 1 (push_bit 1 (t AND 0b01111111) OR bool_to_u8 k) = t"
    unfolding t by (rule shift_out_flag [OF refl high])
  show "(push_bit 1 (t AND 0b01111111) OR bool_to_u8 k) AND 1 \<noteq> 0 \<longleftrightarrow> k"
  proof -
    have "w AND 1 \<noteq> 0 \<longleftrightarrow> odd w" for w :: u8
      by (simp add: and_one_eq mod2_eq_if)
    then show ?thesis
      unfolding t bool_to_u8_def by (simp add: even_push_bit_iff even_or_iff del: push_bit_of_1)
  qed
qed

lemma packet_encode_layout:
  assumes "length (pk_data p) + packHdrSize \<le> length data"
  shows "packet_encode p data = Some (Inr (length (pk_data p) + packHdrSize,
    [push_bit 1 (pk_type p AND 0b01111111) OR bool_to_u8 (pk_isKeyFrame p)]
      @ be_u32 (pk_timestamp p) @ pk_data p @ drop (length (pk_data p) + packHdrSize) data))"
proof -
  obtain a b c d e rest where "data = a # b # c # d # e # rest" and "length (pk_data p) \<le> length rest"
    using assms by (auto simp: packHdrSize_def numeral_eq_Suc Suc_le_length_iff)
  then show ?thesis
    by (simp add: packet_encode_def packHdrSize_def Let_def put_at_def blit_def be_u32_def numeral_eq_Suc)
qed

end
