(* ===== verification/MediaWorld.thy ===== *)
theory MediaWorld
  imports MediaMessage
begin

text \<open>
  The shared state of the media pipeline. Buffers, publishers and consumers are Go pointers that
  several components hold at once, so they live in arenas and are named by their index; the
  \<open>sync.Pool\<close>s of a publisher are lists of free buffers. The records are the structs of
  \<open>transport/media_channel/publisher.go\<close>, \<open>transport/media_channel/channel.go\<close> and
  \<open>transport/ws_media/consumer.go\<close>; the mutexes are not part of the state, since each operation
  of the model is one critical section or a sequence of them.

  The second half states the accounting invariant \<open>heap_ok\<close>: every reference to a buffer, whether
  queued for a consumer, kept by a publisher or held by running code, is counted, so a buffer in a
  pool is referenced by nobody.
\<close>

section \<open>Heap of buffers\<close>

record media_heap =
  h_bufs :: "shared_buffer list"
  h_pools :: "pool_ref \<Rightarrow> buf_ref list"

text \<open>The sizes the two \<open>New\<close> functions of \<open>newPublisher\<close> allocate.\<close>

fun pool_cap :: "pool_kind \<Rightarrow> nat" where
  "pool_cap VideoPool = 64 * 1024"
| "pool_cap AudioPool = 512"

definition alloc_buf :: "shared_buffer \<Rightarrow> 'a media_heap_scheme \<Rightarrow> buf_ref \<times> 'a media_heap_scheme" where
  "alloc_buf b h = (length (h_bufs h), h\<lparr>h_bufs := h_bufs h @ [b]\<rparr>)"

definition h_acquire :: "buf_ref \<Rightarrow> nat \<Rightarrow> 'a media_heap_scheme \<Rightarrow> 'a media_heap_scheme option" where
  "h_acquire a n h = do {
     b \<leftarrow> deref (h_bufs h) a;
     Some (h\<lparr>h_bufs := (h_bufs h)[a := sb_acquire n b]\<rparr>)
   }"

definition h_release :: "buf_ref \<Rightarrow> 'a media_heap_scheme \<Rightarrow> 'a media_heap_scheme option" where
  "h_release a h = do {
     b \<leftarrow> deref (h_bufs h) a;
     (put, b') \<leftarrow> sb_release b;
     let h = h\<lparr>h_bufs := (h_bufs h)[a := b']\<rparr>;
     Some (if put then h\<lparr>h_pools := (h_pools h)(sb_pool b := a # h_pools h (sb_pool b))\<rparr> else h)
   }"

text \<open>
  \<open>sync.Pool.Get\<close> hands out some pooled buffer or calls \<open>New\<close>; which one is up to the runtime,
  so the choice is an argument: a position in the list of free buffers, or none for \<open>New\<close>.
\<close>

type_synonym pool_choice = "buf_ref list \<Rightarrow> nat option"

definition pool_new :: "pool_ref \<Rightarrow> 'a media_heap_scheme \<Rightarrow> (buf_ref \<times> 'a media_heap_scheme) option" where
  "pool_new pr h = do {
     b \<leftarrow> new_shared_buffer pr (replicate (pool_cap (snd pr)) 0) 0;
     Some (alloc_buf b h)
   }"

definition pool_get ::
    "pool_choice \<Rightarrow> pool_ref \<Rightarrow> 'a media_heap_scheme \<Rightarrow> (buf_ref \<times> 'a media_heap_scheme) option" where
  "pool_get pick pr h =
     (let free = h_pools h pr in
      case pick free of
        None \<Rightarrow> pool_new pr h
      | Some i \<Rightarrow>
          if i < length free
          then Some (free ! i, h\<lparr>h_pools := (h_pools h)(pr := take i free @ drop (Suc i) free)\<rparr>)
          else pool_new pr h)"

section \<open>Consumers, publishers, media channel\<close>

record ws_header =
  wh_len :: nat
  wh_data :: "byte list"

record ws_consumer =
  wc_id :: string
  wc_pubID :: string
  wc_conn :: conn
  wc_messages :: "message chan"
  wc_stopped :: u32
  wc_bufs :: "byte list list"
  wc_wsHdr :: ws_header
  wc_mesgHdr :: "byte list"

type_synonym consumer_ref = nat
type_synonym publisher_ref = nat

record consumer_data =
  cd_consumer :: consumer_ref
  cd_sentVideoKeyFrame :: bool

record publisher =
  pub_id :: string
  pub_consumers :: "(string \<times> consumer_data) list option"
  pub_videoPool :: pool_ref
  pub_audioPool :: pool_ref
  pub_videoSeqHdr :: "buf_ref option"
  pub_audioSeqHdr :: "buf_ref option"
  pub_meta :: "buf_ref option"

record media_world = media_heap +
  w_cons :: "ws_consumer list"
  w_pubs :: "publisher list"
  w_chan :: "(string \<times> publisher_ref) list"

text \<open>Reading a nil map gives nothing.\<close>

definition consumers_of :: "publisher \<Rightarrow> (string \<times> consumer_data) list" where
  "consumers_of p = (case pub_consumers p of None \<Rightarrow> [] | Some m \<Rightarrow> m)"

lemma consumers_of_Some [simp]: "pub_consumers p = Some m \<Longrightarrow> consumers_of p = m"
  by (simp add: consumers_of_def)

lemma consumers_of_None [simp]: "pub_consumers p = None \<Longrightarrow> consumers_of p = []"
  by (simp add: consumers_of_def)

section \<open>Reference accounting\<close>

text \<open>References to a buffer that sit in consumers' channels.\<close>

definition queue_refs :: "buf_ref \<Rightarrow> ws_consumer \<Rightarrow> nat" where
  "queue_refs a c = count_list (map m_data (ch_queue (wc_messages c))) a"

definition queued :: "'a media_world_scheme \<Rightarrow> buf_ref \<Rightarrow> nat" where
  "queued w a = sum_list (map (queue_refs a) (w_cons w))"

text \<open>Buffers a publisher keeps for consumers that join later.\<close>

definition pins :: "publisher \<Rightarrow> buf_ref \<Rightarrow> bool" where
  "pins p a \<longleftrightarrow> pub_videoSeqHdr p = Some a \<or> pub_audioSeqHdr p = Some a \<or> pub_meta p = Some a"

definition pinned :: "'a media_world_scheme \<Rightarrow> buf_ref \<Rightarrow> bool" where
  "pinned w a \<longleftrightarrow> list_ex (\<lambda>p. pins p a) (w_pubs w)"

text \<open>
  A buffer whose size is not the size of its pool (a copied sequence header, encoded meta data)
  must never be put into that pool: the publisher's own reference to it is never released.
\<close>

definition foreign :: "shared_buffer \<Rightarrow> bool" where
  "foreign b \<longleftrightarrow> length (sb_buf b) \<noteq> pool_cap (snd (sb_pool b))"

text \<open>
  The invariant, relative to the multiset \<open>H\<close> of references that running code holds: the
  count of a buffer covers the references to it, and a pooled buffer is empty, has count zero and
  is in its own pool once.
\<close>

definition buf_ok :: "buf_ref multiset \<Rightarrow> 'a media_world_scheme \<Rightarrow> buf_ref \<Rightarrow> bool" where
  "buf_ok H w a \<longleftrightarrow>
     (let b = h_bufs w ! a in
      sb_ok b \<and> sb_count b < ref_limit \<and>
      count H a + queued w a + of_bool (pinned w a \<or> foreign b) \<le> sb_count b)"

definition pool_ok :: "'a media_world_scheme \<Rightarrow> pool_ref \<Rightarrow> bool" where
  "pool_ok w pr \<longleftrightarrow> distinct (h_pools w pr) \<and>
     (\<forall>a \<in> set (h_pools w pr). a < length (h_bufs w) \<and>
        sb_count (h_bufs w ! a) = 0 \<and> sb_len (h_bufs w ! a) = 0 \<and> sb_pool (h_bufs w ! a) = pr)"

definition heap_ok :: "buf_ref multiset \<Rightarrow> 'a media_world_scheme \<Rightarrow> bool" where
  "heap_ok H w \<longleftrightarrow>
     (\<forall>a < length (h_bufs w). buf_ok H w a) \<and>
     (\<forall>a \<ge> length (h_bufs w). count H a = 0 \<and> queued w a = 0 \<and> \<not> pinned w a) \<and>
     (\<forall>pr. pool_ok w pr)"

lemma heap_okD:
  assumes "heap_ok H w" and "a < length (h_bufs w)"
  shows "sb_ok (h_bufs w ! a)" and "sb_count (h_bufs w ! a) < ref_limit"
    and "count H a + queued w a + of_bool (pinned w a \<or> foreign (h_bufs w ! a)) \<le> sb_count (h_bufs w ! a)"
  using assms unfolding heap_ok_def buf_ok_def by (meson, meson, meson)

lemma heap_ok_pool: "heap_ok H w \<Longrightarrow> pool_ok w pr"
  unfolding heap_ok_def by blast

lemma heap_okI:
  assumes "\<And>a. a < length (h_bufs w) \<Longrightarrow> sb_ok (h_bufs w ! a)"
    and "\<And>a. a < length (h_bufs w) \<Longrightarrow> sb_count (h_bufs w ! a) < ref_limit"
    and "\<And>a. a < length (h_bufs w) \<Longrightarrow>
      count H a + queued w a + of_bool (pinned w a \<or> foreign (h_bufs w ! a)) \<le> sb_count (h_bufs w ! a)"
    and "\<And>a. length (h_bufs w) \<le> a \<Longrightarrow> count H a = 0 \<and> queued w a = 0 \<and> \<not> pinned w a"
    and "\<And>pr. pool_ok w pr"
  shows "heap_ok H w"
  using assms unfolding heap_ok_def buf_ok_def Let_def by blast

lemma heap_ok_fresh:
  "heap_ok H w \<Longrightarrow> length (h_bufs w) \<le> a \<Longrightarrow> count H a = 0 \<and> queued w a = 0 \<and> \<not> pinned w a"
  by (simp add: heap_ok_def)

lemma heap_ok_held: "heap_ok H w \<Longrightarrow> a \<in># H \<Longrightarrow> a < length (h_bufs w)"
  using heap_ok_fresh [of H w a] by (metis count_eq_zero_iff not_le)

lemma heap_ok_queued: "heap_ok H w \<Longrightarrow> 0 < queued w a \<Longrightarrow> a < length (h_bufs w)"
  using heap_ok_fresh [of H w a] by (metis less_irrefl not_le)

text \<open>Dropping a reference without releasing it only leaks the buffer.\<close>

lemma heap_ok_leak: "heap_ok H w \<Longrightarrow> H' \<subseteq># H \<Longrightarrow> heap_ok H' w"
proof (rule heap_okI)
  assume ok: "heap_ok H w" and sub: "H' \<subseteq># H"
  have le: "count H' a \<le> count H a" for a using sub by (rule mset_subset_eq_count)
  show "pool_ok w pr" for pr using ok by (rule heap_ok_pool)
  show "count H' a = 0 \<and> queued w a = 0 \<and> \<not> pinned w a" if "length (h_bufs w) \<le> a" for a
    using heap_ok_fresh [OF ok that] le [of a] by simp
  fix a assume a: "a < length (h_bufs w)"
  note D = heap_okD [OF ok a]
  show "sb_ok (h_bufs w ! a)" "sb_count (h_bufs w ! a) < ref_limit" by (rule D)+
  show "count H' a + queued w a + of_bool (pinned w a \<or> foreign (h_bufs w ! a)) \<le> sb_count (h_bufs w ! a)"
    using D(3) le [of a] by linarith
qed

text \<open>A pooled buffer is referenced by nobody and has the size its pool allocates.\<close>

lemma pooled_unreferenced:
  assumes "heap_ok H w" and "a \<in> set (h_pools w pr)"
  shows "count H a = 0" and "queued w a = 0" and "\<not> pinned w a"
    and "length (sb_buf (h_bufs w ! a)) = pool_cap (snd pr)"
proof -
  from heap_ok_pool [OF assms(1), of pr] assms(2)
  have "a < length (h_bufs w)" "sb_count (h_bufs w ! a) = 0" "sb_pool (h_bufs w ! a) = pr"
    by (auto simp: pool_ok_def)
  with heap_okD(3) [OF assms(1), of a] show "count H a = 0" "queued w a = 0" "\<not> pinned w a"
    "length (sb_buf (h_bufs w ! a)) = pool_cap (snd pr)"
    by (auto simp: foreign_def)
qed

end
