(* ===== verification/MediaAccounting.thy ===== *)
theory MediaAccounting
  imports MediaWorld
begin

text \<open>
  How the elementary steps of the media pipeline change the accounting invariant \<open>heap_ok\<close>:
  allocate, acquire, release, take from a pool, write while holding the only reference, move a
  reference into or out of a channel, pin a buffer in a publisher. The component theories compose
  their operations from these steps and their proofs from these lemmas.
\<close>

section \<open>What the parts of the state determine\<close>

lemma queued_cong: "w_cons w' = w_cons w \<Longrightarrow> queued w' a = queued w a"
  by (simp add: queued_def)

lemma pinned_cong: "w_pubs w' = w_pubs w \<Longrightarrow> pinned w' a = pinned w a"
  by (simp add: pinned_def)

lemma queued_simps [simp]:
  "queued (w\<lparr>h_bufs := bs\<rparr>) a = queued w a" "queued (w\<lparr>h_pools := ps\<rparr>) a = queued w a"
  "queued (w\<lparr>w_pubs := pubs\<rparr>) a = queued w a" "queued (w\<lparr>w_chan := ch\<rparr>) a = queued w a"
  by (simp_all add: queued_def)

lemma pinned_simps [simp]:
  "pinned (w\<lparr>h_bufs := bs\<rparr>) a = pinned w a" "pinned (w\<lparr>h_pools := ps\<rparr>) a = pinned w a"
  "pinned (w\<lparr>w_cons := cs\<rparr>) a = pinned w a" "pinned (w\<lparr>w_chan := ch\<rparr>) a = pinned w a"
  by (simp_all add: pinned_def)

lemma pool_ok_cong:
  assumes "h_pools w' pr = h_pools w pr" and "length (h_bufs w) \<le> length (h_bufs w')"
    and "\<And>a. a \<in> set (h_pools w pr) \<Longrightarrow> h_bufs w' ! a = h_bufs w ! a"
    and "pool_ok w pr"
  shows "pool_ok w' pr"
  using assms unfolding pool_ok_def by fastforce

text \<open>Steps that leave consumers, publishers and the channel's table alone.\<close>

definition same_objects :: "media_world \<Rightarrow> media_world \<Rightarrow> bool" where
  "same_objects w w' \<longleftrightarrow> w_cons w' = w_cons w \<and> w_pubs w' = w_pubs w \<and> w_chan w' = w_chan w"

lemma same_objects_refl [simp]: "same_objects w w"
  by (simp add: same_objects_def)

lemma same_objects_trans: "same_objects a b \<Longrightarrow> same_objects b c \<Longrightarrow> same_objects a c"
  by (simp add: same_objects_def)

lemma same_objectsD:
  assumes "same_objects w w'"
  shows "w_cons w' = w_cons w" "w_pubs w' = w_pubs w" "w_chan w' = w_chan w"
    "queued w' a = queued w a" "pinned w' a = pinned w a"
  using assms by (simp_all add: same_objects_def queued_def pinned_def)

section \<open>Acquire and release\<close>

lemma held_not_pooled:
  assumes "heap_ok H w" and "0 < sb_count (h_bufs w ! a)"
  shows "a \<notin> set (h_pools w pr)"
  using assms heap_ok_pool [of H w pr] by (auto simp: pool_ok_def)

lemma foreign_refs [simp]:
  "foreign (b\<lparr>sb_refs := r\<rparr>) = foreign b" "foreign (b\<lparr>sb_len := n\<rparr>) = foreign b"
  "foreign (sb_acquire k b) = foreign b"
  by (simp_all add: foreign_def sb_acquire_def)

lemma heap_ok_acquire:
  assumes ok: "heap_ok H w" and a: "a < length (h_bufs w)"
    and room: "sb_count (h_bufs w ! a) + n < ref_limit"
    and free: "\<And>pr. a \<notin> set (h_pools w pr)"
  shows "heap_ok (H + replicate_mset n a) (w\<lparr>h_bufs := (h_bufs w)[a := sb_acquire n (h_bufs w ! a)]\<rparr>)"
    (is "heap_ok _ ?w")
proof (rule heap_okI)
  show "pool_ok ?w pr" for pr
    by (rule pool_ok_cong [OF _ _ _ heap_ok_pool [OF ok]])
      (use free [of pr] in \<open>auto intro!: nth_list_update_neq\<close>)
  show "count (H + replicate_mset n a) x = 0 \<and> queued ?w x = 0 \<and> \<not> pinned ?w x"
    if "length (h_bufs ?w) \<le> x" for x
    using heap_ok_fresh [OF ok, of x] that a by auto
  fix x assume x: "x < length (h_bufs ?w)"
  then have x': "x < length (h_bufs w)" by simp
  note D = heap_okD [OF ok x']
  have cnt: "sb_count (sb_acquire n (h_bufs w ! a)) = sb_count (h_bufs w ! a) + n"
    by (rule sb_count_acquire [OF room])
  have okb: "sb_ok (sb_acquire n b) = sb_ok b" for b by (simp add: sb_ok_def sb_acquire_def)
  show "sb_ok (h_bufs ?w ! x)" using D a by (simp add: nth_list_update okb)
  show "sb_count (h_bufs ?w ! x) < ref_limit" using D a room cnt by (cases "x = a") simp_all
  show "count (H + replicate_mset n a) x + queued ?w x + of_bool (pinned ?w x \<or> foreign (h_bufs ?w ! x))
      \<le> sb_count (h_bufs ?w ! x)"
    using D(3) a cnt by (cases "x = a") simp_all
qed

lemma h_acquire_eq:
  "a < length (h_bufs w) \<Longrightarrow>
     h_acquire a n w = Some (w\<lparr>h_bufs := (h_bufs w)[a := sb_acquire n (h_bufs w ! a)]\<rparr>)"
  by (simp add: h_acquire_def)

text \<open>The state after a release that does not panic.\<close>

definition released :: "buf_ref \<Rightarrow> media_world \<Rightarrow> media_world" where
  "released a w =
     (let b = h_bufs w ! a;
          b' = b\<lparr>sb_refs := sb_refs b - 1, sb_len := (if sb_count b = 1 then 0 else sb_len b)\<rparr>;
          w' = w\<lparr>h_bufs := (h_bufs w)[a := b']\<rparr>
      in if sb_count b = 1 then w'\<lparr>h_pools := (h_pools w)(sb_pool b := a # h_pools w (sb_pool b))\<rparr> else w')"

lemma same_objects_released [simp]: "same_objects w (released a w)"
  by (simp add: same_objects_def released_def Let_def)

lemma length_released [simp]: "length (h_bufs (released a w)) = length (h_bufs w)"
  by (simp add: released_def Let_def)

lemma released_other [simp]: "x \<noteq> a \<Longrightarrow> h_bufs (released a w) ! x = h_bufs w ! x"
  by (simp add: released_def Let_def)

lemma released_bytes:
  "sb_count (h_bufs w ! a) \<noteq> 1 \<Longrightarrow> sb_bytes (h_bufs (released a w) ! a) = sb_bytes (h_bufs w ! a)"
  by (cases "a < length (h_bufs w)") (simp_all add: released_def Let_def sb_bytes_def list_update_beyond)

lemma h_release_eq:
  assumes "a < length (h_bufs w)" and "0 < sb_count (h_bufs w ! a)"
    and "sb_count (h_bufs w ! a) < ref_limit"
  shows "h_release a w = Some (released a w)"
  using assms sb_release_some [of "h_bufs w ! a"]
  by (simp add: h_release_def released_def Let_def)

lemma heap_ok_released:
  assumes ok: "heap_ok (add_mset a H) w"
  shows "heap_ok H (released a w)" (is "heap_ok _ ?w")
proof -
  have a: "a < length (h_bufs w)" using heap_ok_held [OF ok, of a] by simp
  let ?b = "h_bufs w ! a"
  note Da = heap_okD [OF ok a]
  have pos: "0 < sb_count ?b" using Da(3) by simp
  have cnt: "sb_count (h_bufs ?w ! a) = sb_count ?b - 1"
    using a pos unat_minus_one32 [of "sb_refs ?b"] by (simp add: released_def Let_def sb_count_def)
  have fr: "foreign (h_bufs ?w ! a) = foreign ?b"
    using a by (simp add: released_def Let_def foreign_def)
  have free: "a \<notin> set (h_pools w pr)" for pr by (rule held_not_pooled [OF ok pos])
  show ?thesis
  proof (rule heap_okI)
    show "count H x = 0 \<and> queued ?w x = 0 \<and> \<not> pinned ?w x" if "length (h_bufs ?w) \<le> x" for x
      using heap_ok_fresh [OF ok, of x] that same_objectsD [OF same_objects_released] a by auto
    fix x assume "x < length (h_bufs ?w)"
    then have x: "x < length (h_bufs w)" by simp
    note D = heap_okD [OF ok x] and so = same_objectsD [OF same_objects_released, of a w]
    show "sb_ok (h_bufs ?w ! x)"
      using D(1) a by (cases "x = a") (auto simp: released_def Let_def sb_ok_def)
    show "sb_count (h_bufs ?w ! x) < ref_limit"
      using D(2) cnt by (cases "x = a") auto
    show "count H x + queued ?w x + of_bool (pinned ?w x \<or> foreign (h_bufs ?w ! x))
        \<le> sb_count (h_bufs ?w ! x)"
      using D(3) cnt fr so by (cases "x = a") auto
  next
    fix pr
    have old: "pool_ok w pr" by (rule heap_ok_pool [OF ok])
    have keep: "h_bufs ?w ! x = h_bufs w ! x" if "x \<in> set (h_pools w pr)" for x
      using free [of pr] that by (intro released_other) auto
    show "pool_ok ?w pr"
    proof (cases "sb_count ?b = 1 \<and> pr = sb_pool ?b")
      case True
      then have "h_pools ?w pr = a # h_pools w pr" and "sb_len (h_bufs ?w ! a) = 0"
        and "sb_pool (h_bufs ?w ! a) = pr"
        using a by (simp_all add: released_def Let_def)
      with old keep free [of pr] a cnt True show ?thesis by (auto simp: pool_ok_def)
    next
      case False
      then have "h_pools ?w pr = h_pools w pr" by (auto simp: released_def Let_def)
      with old keep show ?thesis by (auto intro: pool_ok_cong)
    qed
  qed
qed

lemma heap_ok_release:
  assumes "heap_ok (add_mset a H) w"
  shows "h_release a w = Some (released a w)" and "heap_ok H (released a w)"
proof -
  have a: "a < length (h_bufs w)" using heap_ok_held [OF assms, of a] by simp
  with heap_okD [OF assms a] show "h_release a w = Some (released a w)"
    by (intro h_release_eq) auto
  show "heap_ok H (released a w)" by (rule heap_ok_released [OF assms])
qed

section \<open>Pools\<close>

text \<open>
  \<open>Get\<close> followed by \<open>Acquire(1)\<close>: the buffer comes from its pool or is new, is empty, has the
  size of its pool and was referenced by nobody.
\<close>

definition acquire_from_pool ::
    "pool_choice \<Rightarrow> pool_ref \<Rightarrow> media_world \<Rightarrow> (buf_ref \<times> media_world) option" where
  "acquire_from_pool pick pr w = do {
     (a, w) \<leftarrow> pool_get pick pr w;
     w \<leftarrow> h_acquire a 1 w;
     Some (a, w)
   }"

lemma heap_ok_alloc:
  assumes ok: "heap_ok H w" and b: "sb_ok b" "sb_count b < ref_limit"
    and fr: "foreign b \<Longrightarrow> 0 < sb_count b"
  shows "heap_ok H (w\<lparr>h_bufs := h_bufs w @ [b]\<rparr>)" (is "heap_ok _ ?w")
proof (rule heap_okI)
  show "pool_ok ?w pr" for pr
    by (rule pool_ok_cong [OF _ _ _ heap_ok_pool [OF ok]])
      (use heap_ok_pool [OF ok, of pr] in \<open>auto simp: nth_append pool_ok_def\<close>)
  show "count H x = 0 \<and> queued ?w x = 0 \<and> \<not> pinned ?w x" if "length (h_bufs ?w) \<le> x" for x
    using heap_ok_fresh [OF ok, of x] that by auto
  fix x assume "x < length (h_bufs ?w)"
  then consider "x < length (h_bufs w)" | "x = length (h_bufs w)" by fastforce
  then have "sb_ok (h_bufs ?w ! x) \<and> sb_count (h_bufs ?w ! x) < ref_limit \<and>
    count H x + queued ?w x + of_bool (pinned ?w x \<or> foreign (h_bufs ?w ! x)) \<le> sb_count (h_bufs ?w ! x)"
  proof cases
    case 1
    with heap_okD [OF ok 1] show ?thesis by (simp add: nth_append)
  next
    case 2
    with heap_ok_fresh [OF ok, of x] b fr show ?thesis by (auto simp: nth_append)
  qed
  then show "sb_ok (h_bufs ?w ! x)" "sb_count (h_bufs ?w ! x) < ref_limit"
    "count H x + queued ?w x + of_bool (pinned ?w x \<or> foreign (h_bufs ?w ! x)) \<le> sb_count (h_bufs ?w ! x)"
    by auto
qed

definition fresh_buf :: "pool_ref \<Rightarrow> shared_buffer" where
  "fresh_buf pr = \<lparr>sb_pool = pr, sb_buf = replicate (pool_cap (snd pr)) 0, sb_refs = 0, sb_len = 0\<rparr>"

lemma pool_new_eq: "pool_new pr w = Some (length (h_bufs w), w\<lparr>h_bufs := h_bufs w @ [fresh_buf pr]\<rparr>)"
  by (simp add: pool_new_def new_shared_buffer_def alloc_buf_def fresh_buf_def)

lemma fresh_buf_simps [simp]:
  "sb_ok (fresh_buf pr)" "sb_count (fresh_buf pr) = 0" "\<not> foreign (fresh_buf pr)"
  "sb_len (fresh_buf pr) = 0" "sb_pool (fresh_buf pr) = pr"
  "length (sb_buf (fresh_buf pr)) = pool_cap (snd pr)"
  by (simp_all add: fresh_buf_def sb_ok_def sb_count_def foreign_def)

text \<open>What \<open>Get\<close> returns, before it is acquired.\<close>

definition unowned :: "buf_ref multiset \<Rightarrow> media_world \<Rightarrow> pool_ref \<Rightarrow> buf_ref \<Rightarrow> bool" where
  "unowned H w pr a \<longleftrightarrow> a < length (h_bufs w) \<and> sb_count (h_bufs w ! a) = 0 \<and> sb_len (h_bufs w ! a) = 0
     \<and> sb_pool (h_bufs w ! a) = pr \<and> length (sb_buf (h_bufs w ! a)) = pool_cap (snd pr)
     \<and> count H a = 0 \<and> queued w a = 0 \<and> \<not> pinned w a \<and> (\<forall>pr'. a \<notin> set (h_pools w pr'))"

lemma set_take_drop_remove:
  "distinct xs \<Longrightarrow> i < length xs \<Longrightarrow> set (take i xs @ drop (Suc i) xs) = set xs - {xs ! i}"
  by (subst (3) id_take_nth_drop [of i xs], assumption, subst (asm) id_take_nth_drop [of i xs], assumption) auto

lemma distinct_take_drop_remove:
  "distinct xs \<Longrightarrow> i < length xs \<Longrightarrow> distinct (take i xs @ drop (Suc i) xs)"
  by (subst (asm) id_take_nth_drop [of i xs], assumption) auto

lemma pool_take_ok:
  assumes ok: "heap_ok H w" and i: "i < length (h_pools w pr)"
    and w': "w' = w\<lparr>h_pools := (h_pools w)(pr := take i (h_pools w pr) @ drop (Suc i) (h_pools w pr))\<rparr>"
  shows "heap_ok H w'" and "unowned H w' pr (h_pools w pr ! i)"
proof -
  let ?xs = "h_pools w pr"
  have po: "pool_ok w p" for p by (rule heap_ok_pool [OF ok])
  have mem: "?xs ! i \<in> set ?xs" using i by simp
  have dist: "distinct ?xs" using po [of pr] by (simp add: pool_ok_def)
  have po': "pool_ok w' p" for p
    using po [of p] set_take_drop_remove [OF dist i] distinct_take_drop_remove [OF dist i]
    by (auto simp: pool_ok_def w')
  show "heap_ok H w'"
    by (rule heap_okI; use heap_okD [OF ok] heap_ok_fresh [OF ok] po' in \<open>simp add: w'\<close>)
  have "?xs ! i \<notin> set (h_pools w' p)" for p
  proof (cases "p = pr")
    case True
    then show ?thesis using set_take_drop_remove [OF dist i] by (simp add: w')
  next
    case False
    then show ?thesis using po [of p] po [of pr] mem by (auto simp: pool_ok_def w')
  qed
  then show "unowned H w' pr (?xs ! i)"
    using pooled_unreferenced [OF ok mem] po [of pr] mem by (auto simp: unowned_def pool_ok_def w')
qed

lemma pool_new_ok:
  assumes ok: "heap_ok H w" and w': "w' = w\<lparr>h_bufs := h_bufs w @ [fresh_buf pr]\<rparr>"
  shows "heap_ok H w'" and "unowned H w' pr (length (h_bufs w))"
proof -
  show "heap_ok H w'" unfolding w' by (rule heap_ok_alloc [OF ok]) (simp_all add: ref_limit_def)
  have "length (h_bufs w) \<notin> set (h_pools w p)" for p
    using heap_ok_pool [OF ok, of p] by (auto simp: pool_ok_def)
  then show "unowned H w' pr (length (h_bufs w))"
    using heap_ok_fresh [OF ok, of "length (h_bufs w)"] by (simp add: unowned_def w')
qed

lemma pool_get_ok:
  assumes ok: "heap_ok H w"
  obtains a w' where "pool_get pick pr w = Some (a, w')" "heap_ok H w'" "unowned H w' pr a"
    "same_objects w w'" "length (h_bufs w) \<le> length (h_bufs w')"
    "\<forall>x < length (h_bufs w). h_bufs w' ! x = h_bufs w ! x"
proof (cases "\<exists>i. pick (h_pools w pr) = Some i \<and> i < length (h_pools w pr)")
  case True
  then obtain i where i: "pick (h_pools w pr) = Some i" "i < length (h_pools w pr)" by blast
  let ?w = "w\<lparr>h_pools := (h_pools w)(pr := take i (h_pools w pr) @ drop (Suc i) (h_pools w pr))\<rparr>"
  show ?thesis
    by (rule that [of "h_pools w pr ! i" ?w])
      (use i pool_take_ok [OF ok i(2) refl] in \<open>simp_all add: pool_get_def Let_def same_objects_def\<close>)
next
  case False
  then have "pool_get pick pr w = pool_new pr w"
    by (auto simp: pool_get_def Let_def split: option.splits)
  then show ?thesis
    by (intro that [of "length (h_bufs w)" "w\<lparr>h_bufs := h_bufs w @ [fresh_buf pr]\<rparr>"])
      (use pool_new_ok [OF ok refl] in \<open>simp_all add: pool_new_eq same_objects_def nth_append\<close>)
qed

text \<open>An acquired buffer: empty, sized as its pool, with the caller as its only owner.\<close>

definition owned_empty :: "pool_ref \<Rightarrow> shared_buffer \<Rightarrow> bool" where
  "owned_empty pr b \<longleftrightarrow> sb_len b = 0 \<and> sb_count b = 1 \<and> sb_pool b = pr
     \<and> length (sb_buf b) = pool_cap (snd pr)"

lemma acquire_from_pool_ok:
  assumes ok: "heap_ok H w"
  obtains a w' where "acquire_from_pool pick pr w = Some (a, w')" "heap_ok (add_mset a H) w'"
    "owned_empty pr (h_bufs w' ! a)" "a < length (h_bufs w')" "count H a = 0" "queued w' a = 0"
    "\<not> pinned w' a" "same_objects w w'" "length (h_bufs w) \<le> length (h_bufs w')"
    "\<forall>x < length (h_bufs w). x \<noteq> a \<longrightarrow> h_bufs w' ! x = h_bufs w ! x"
proof -
  obtain a w1 where g: "pool_get pick pr w = Some (a, w1)" "heap_ok H w1" "unowned H w1 pr a"
    "same_objects w w1" "length (h_bufs w) \<le> length (h_bufs w1)"
    "\<forall>x < length (h_bufs w). h_bufs w1 ! x = h_bufs w ! x"
    using pool_get_ok [OF ok, where pick = pick and pr = pr] by blast
  let ?w = "w1\<lparr>h_bufs := (h_bufs w1)[a := sb_acquire 1 (h_bufs w1 ! a)]\<rparr>"
  from g(3) have u: "a < length (h_bufs w1)" "sb_count (h_bufs w1 ! a) = 0" "sb_len (h_bufs w1 ! a) = 0"
    "\<forall>p. a \<notin> set (h_pools w1 p)" by (simp_all add: unowned_def)
  have "sb_count (sb_acquire 1 (h_bufs w1 ! a)) = 1"
    using sb_count_acquire [of "h_bufs w1 ! a" 1] u by (simp add: ref_limit_def)
  then have "owned_empty pr (h_bufs ?w ! a)"
    using g(3) by (simp add: owned_empty_def unowned_def) (simp add: sb_acquire_def)
  moreover have "heap_ok (add_mset a H) ?w"
    using heap_ok_acquire [OF g(2) u(1), of 1] u by (simp add: ref_limit_def)
  ultimately show ?thesis
    using g u by (intro that [of a ?w])
      (simp_all add: acquire_from_pool_def h_acquire_eq unowned_def same_objects_def)
qed

section \<open>Channels and pins\<close>

text \<open>Replacing the consumer at an index changes the queued references by what its queue changes.\<close>

lemma queued_update:
  "i < length (w_cons w) \<Longrightarrow>
     queued (w\<lparr>w_cons := (w_cons w)[i := c]\<rparr>) a + queue_refs a (w_cons w ! i) = queued w a + queue_refs a c"
  using sum_list_update_nat [of i "w_cons w" "queue_refs a" c] by (simp add: queued_def)

lemma queue_refs_le: "i < length (w_cons w) \<Longrightarrow> queue_refs a (w_cons w ! i) \<le> queued w a"
  unfolding queued_def by (rule member_le_sum_list_nth)

lemma queue_refs_append [simp]:
  "queue_refs a (c\<lparr>wc_messages := ch\<lparr>ch_queue := ch_queue (wc_messages c) @ [m]\<rparr>\<rparr>) =
     queue_refs a c + of_bool (m_data m = a)"
  by (simp add: queue_refs_def)

text \<open>Any change of the consumers that keeps \<open>H\<close> plus the queues within the old total is fine.\<close>

lemma heap_ok_cons:
  assumes ok: "heap_ok H w"
    and le: "\<And>a. count H' a + queued (w\<lparr>w_cons := cs\<rparr>) a \<le> count H a + queued w a"
  shows "heap_ok H' (w\<lparr>w_cons := cs\<rparr>)" (is "heap_ok _ ?w")
proof (rule heap_okI)
  show "pool_ok ?w pr" for pr
    by (rule pool_ok_cong [OF _ _ _ heap_ok_pool [OF ok]]) simp_all
  show "count H' a = 0 \<and> queued ?w a = 0 \<and> \<not> pinned ?w a" if "length (h_bufs ?w) \<le> a" for a
    using heap_ok_fresh [OF ok, of a] that le [of a] by simp
  fix a assume "a < length (h_bufs ?w)"
  then have a: "a < length (h_bufs w)" by simp
  note D = heap_okD [OF ok a]
  show "sb_ok (h_bufs ?w ! a)" "sb_count (h_bufs ?w ! a) < ref_limit" using D by simp_all
  have "of_bool (pinned ?w a \<or> foreign (h_bufs ?w ! a)) = (of_bool (pinned w a \<or> foreign (h_bufs w ! a)) :: nat)"
    by simp
  with D(3) le [of a]
  show "count H' a + queued ?w a + of_bool (pinned ?w a \<or> foreign (h_bufs ?w ! a)) \<le> sb_count (h_bufs ?w ! a)"
    by simp
qed

text \<open>A publisher may pin buffers as long as each newly pinned one has a reference to spare.\<close>

lemma pinned_update:
  assumes "i < length (w_pubs w)" and "pinned (w\<lparr>w_pubs := (w_pubs w)[i := p]\<rparr>) a"
  shows "pinned w a \<or> pins p a"
proof -
  obtain q where "q \<in> set ((w_pubs w)[i := p])" "pins q a"
    using assms(2) by (auto simp: pinned_def list_ex_iff)
  then show ?thesis
    using set_update_subset_insert [of "w_pubs w" i p] by (auto simp: pinned_def list_ex_iff)
qed

lemma heap_ok_pubs:
  assumes ok: "heap_ok H w" and i: "i < length (w_pubs w)"
    and new: "\<And>a. pins p a \<Longrightarrow> \<not> pinned w a \<Longrightarrow>
      a < length (h_bufs w) \<and> count H a + queued w a + 1 \<le> sb_count (h_bufs w ! a)"
  shows "heap_ok H (w\<lparr>w_pubs := (w_pubs w)[i := p]\<rparr>)" (is "heap_ok _ ?w")
proof (rule heap_okI)
  note pu = pinned_update [OF i, of p]
  show "pool_ok ?w pr" for pr
    by (rule pool_ok_cong [OF _ _ _ heap_ok_pool [OF ok]]) simp_all
  show "count H a = 0 \<and> queued ?w a = 0 \<and> \<not> pinned ?w a" if "length (h_bufs ?w) \<le> a" for a
    using heap_ok_fresh [OF ok, of a] that new [of a] pu [of a] by auto
  fix a assume "a < length (h_bufs ?w)"
  then have a: "a < length (h_bufs w)" by simp
  note D = heap_okD [OF ok a]
  show "sb_ok (h_bufs ?w ! a)" "sb_count (h_bufs ?w ! a) < ref_limit" using D by simp_all
  show "count H a + queued ?w a + of_bool (pinned ?w a \<or> foreign (h_bufs ?w ! a)) \<le> sb_count (h_bufs ?w ! a)"
  proof (cases "pinned w a \<or> foreign (h_bufs w ! a)")
    case True
    then have "count H a + queued w a + 1 \<le> sb_count (h_bufs w ! a)" using D(3) by (auto split: if_splits)
    then show ?thesis by (simp add: of_bool_def)
  next
    case False
    then show ?thesis using D(3) new [of a] pu [of a] by (cases "pinned ?w a") auto
  qed
qed

text \<open>Writing into a buffer without touching its count, its capacity or its pool.\<close>

lemma heap_ok_write:
  assumes ok: "heap_ok H w" and a: "a < length (h_bufs w)" and b: "sb_ok b"
    and refs: "sb_refs b = sb_refs (h_bufs w ! a)" and cap: "length (sb_buf b) = length (sb_buf (h_bufs w ! a))"
    and pool: "sb_pool b = sb_pool (h_bufs w ! a)" and pos: "0 < sb_count (h_bufs w ! a)"
  shows "heap_ok H (w\<lparr>h_bufs := (h_bufs w)[a := b]\<rparr>)" (is "heap_ok _ ?w")
proof (rule heap_okI)
  have free: "a \<notin> set (h_pools w pr)" for pr by (rule held_not_pooled [OF ok pos])
  show "pool_ok ?w pr" for pr
    by (rule pool_ok_cong [OF _ _ _ heap_ok_pool [OF ok]])
      (use free [of pr] in \<open>auto intro!: nth_list_update_neq\<close>)
  show "count H x = 0 \<and> queued ?w x = 0 \<and> \<not> pinned ?w x" if "length (h_bufs ?w) \<le> x" for x
    using heap_ok_fresh [OF ok, of x] that by simp
  fix x assume "x < length (h_bufs ?w)"
  then have x: "x < length (h_bufs w)" by simp
  note D = heap_okD [OF ok x]
  have "sb_count b = sb_count (h_bufs w ! a)" "foreign b = foreign (h_bufs w ! a)"
    using refs cap pool by (simp_all add: sb_count_def foreign_def)
  with D b a show "sb_ok (h_bufs ?w ! x)" "sb_count (h_bufs ?w ! x) < ref_limit"
    "count H x + queued ?w x + of_bool (pinned ?w x \<or> foreign (h_bufs ?w ! x)) \<le> sb_count (h_bufs ?w ! x)"
    by (cases "x = a"; simp)+
qed

end
