(* ===== verification/Consumer.thy ===== *)
theory Consumer
  imports MediaAccounting
begin

text \<open>
  \<open>transport/ws_media/consumer.go\<close>: the WebSocket consumer of a publisher. Its goroutine
  \<open>readMessages\<close> is a state machine that takes messages off the channel, writes them to the
  connection and releases them. The WebSocket library is a parameter: the bytes its
  \<open>WriteHeader\<close> hands to the writer for a final binary frame of a given length, and its
  \<open>MaxHeaderSize\<close>.
\<close>

record ws_lib =
  ws_header_bytes :: "int \<Rightarrow> io_err + byte list"
  ws_maxHeaderSize :: nat

section \<open>Frame header\<close>

definition ws_header_write :: "byte list \<Rightarrow> ws_header \<Rightarrow> nat \<times> io_err option \<times> ws_header" where
  "ws_header_write data h =
     (if length data > length (wh_data h) then (0, Some ErrShortBuffer, h)
      else (length data, None, h\<lparr>wh_data := blit 0 data (wh_data h), wh_len := length data\<rparr>))"

definition ws_header_encode :: "ws_lib \<Rightarrow> message \<Rightarrow> ws_header \<Rightarrow> io_err option \<times> ws_header" where
  "ws_header_encode lib m h =
     (case ws_header_bytes lib (uint (m_length m + of_nat mesgHdrLen)) of
        Inl e \<Rightarrow> (Some e, h)
      | Inr bs \<Rightarrow> (case ws_header_write bs h of (_, e, h') \<Rightarrow> (e, h')))"

definition ws_header_slice :: "ws_header \<Rightarrow> byte list" where
  "ws_header_slice h = take (wh_len h) (wh_data h)"

section \<open>The consumer\<close>

definition new_ws_consumer :: "ws_lib \<Rightarrow> string \<Rightarrow> string \<Rightarrow> conn \<Rightarrow> ws_consumer" where
  "new_ws_consumer lib cid pid k = \<lparr>wc_id = cid, wc_pubID = pid, wc_conn = k,
     wc_messages = make_chan 128, wc_stopped = 0, wc_bufs = [],
     wc_wsHdr = \<lparr>wh_len = 0, wh_data = replicate (ws_maxHeaderSize lib) 0\<rparr>,
     wc_mesgHdr = replicate mesgHdrLen 0\<rparr>"

text \<open>\<open>c.bufs.WriteTo(c.conn)\<close>, after which \<open>c.bufs\<close> is empty unless the write failed.\<close>

definition flush_bufs :: "ws_consumer \<Rightarrow> io_err option \<times> ws_consumer" where
  "flush_bufs c =
     (case buffers_write_to (wc_bufs c) (wc_conn c) of
        (None, _, k) \<Rightarrow> (None, c\<lparr>wc_conn := k, wc_bufs := []\<rparr>)
      | (Some e, rest, k) \<Rightarrow> (Some e, c\<lparr>wc_conn := k, wc_bufs := rest\<rparr>))"

text \<open>The body of \<open>writeMessage\<close>, given the bytes of the message's buffer.\<close>

definition write_body :: "ws_lib \<Rightarrow> message \<Rightarrow> byte list \<Rightarrow> ws_consumer \<Rightarrow> (io_err option \<times> ws_consumer) option" where
  "write_body lib m data c =
     (if is_continuation m then Some (flush_bufs (c\<lparr>wc_bufs := wc_bufs c @ [data]\<rparr>))
      else case ws_header_encode lib m (wc_wsHdr c) of
          (Some e, h) \<Rightarrow> Some (Some e, c\<lparr>wc_wsHdr := h\<rparr>)
        | (None, h) \<Rightarrow> do {
            mh \<leftarrow> mesg_header_encode m (wc_mesgHdr c);
            Some (flush_bufs (c\<lparr>wc_wsHdr := h, wc_mesgHdr := mh,
              wc_bufs := wc_bufs c @ [ws_header_slice h, mh, data]\<rparr>))
          })"

text \<open>\<open>writeMessage\<close>: the deferred release runs on every path.\<close>

definition write_message ::
    "ws_lib \<Rightarrow> message \<Rightarrow> consumer_ref \<Rightarrow> media_world \<Rightarrow> (io_err option \<times> media_world) option" where
  "write_message lib m i w = do {
     c \<leftarrow> deref (w_cons w) i;
     b \<leftarrow> deref (h_bufs w) (m_data m);
     (e, c) \<leftarrow> write_body lib m (sb_bytes b) c;
     w \<leftarrow> h_release (m_data m) (w\<lparr>w_cons := (w_cons w)[i := c]\<rparr>);
     Some (e, w)
   }"

text \<open>\<open>Stop\<close>: only the caller that swaps the flag closes the channel.\<close>

definition stop_consumer_obj :: "ws_consumer \<Rightarrow> ws_consumer option" where
  "stop_consumer_obj c =
     (if wc_stopped c = 0
      then do {
        ch \<leftarrow> close_chan (wc_messages c);
        Some (c\<lparr>wc_stopped := 1, wc_messages := ch\<rparr>)
      }
      else Some c)"

definition consumer_stop :: "consumer_ref \<Rightarrow> media_world \<Rightarrow> media_world option" where
  "consumer_stop i w = do {
     c \<leftarrow> deref (w_cons w) i;
     c \<leftarrow> stop_consumer_obj c;
     Some (w\<lparr>w_cons := (w_cons w)[i := c]\<rparr>)
   }"

text \<open>
  \<open>readMessages\<close>: the first loop writes until the channel is closed or a write fails, the second
  releases what is left until the channel is closed, then the deferred \<open>Close\<close> runs. A receive
  from an empty open channel blocks the goroutine.
\<close>

datatype reader_pc = Writing | Draining | Finished

datatype step_result = Blocked | Stepped reader_pc media_world

definition take_message :: "consumer_ref \<Rightarrow> media_world \<Rightarrow> (message received \<times> media_world) option" where
  "take_message i w = do {
     c \<leftarrow> deref (w_cons w) i;
     (case recv_chan (wc_messages c) of
        (x, ch) \<Rightarrow> Some (x, w\<lparr>w_cons := (w_cons w)[i := c\<lparr>wc_messages := ch\<rparr>]\<rparr>))
   }"

definition close_conn :: "consumer_ref \<Rightarrow> media_world \<Rightarrow> media_world option" where
  "close_conn i w = do {
     c \<leftarrow> deref (w_cons w) i;
     Some (w\<lparr>w_cons := (w_cons w)[i := c\<lparr>wc_conn := (wc_conn c)\<lparr>cn_closed := True\<rparr>\<rparr>]\<rparr>)
   }"

fun read_messages_step ::
    "ws_lib \<Rightarrow> consumer_ref \<Rightarrow> reader_pc \<Rightarrow> media_world \<Rightarrow> step_result option" where
  "read_messages_step lib i Writing w = do {
     (x, w) \<leftarrow> take_message i w;
     (case x of
        Item m \<Rightarrow> do {
          (e, w) \<leftarrow> write_message lib m i w;
          Some (Stepped (if e = None then Writing else Draining) w)
        }
      | Closed \<Rightarrow> Some (Stepped Draining w)
      | WouldBlock \<Rightarrow> Some Blocked)
   }"
| "read_messages_step lib i Draining w = do {
     (x, w) \<leftarrow> take_message i w;
     (case x of
        Item m \<Rightarrow> do {
          w \<leftarrow> h_release (m_data m) w;
          Some (Stepped Draining w)
        }
      | Closed \<Rightarrow> do {
          w \<leftarrow> close_conn i w;
          Some (Stepped Finished w)
        }
      | WouldBlock \<Rightarrow> Some Blocked)
   }"
| "read_messages_step lib i Finished w = Some Blocked"

text \<open>Running the goroutine alone for at most so many steps.\<close>

fun run_reader :: "ws_lib \<Rightarrow> consumer_ref \<Rightarrow> nat \<Rightarrow> reader_pc \<Rightarrow> media_world \<Rightarrow> (reader_pc \<times> media_world) option" where
  "run_reader lib i 0 pc w = Some (pc, w)"
| "run_reader lib i (Suc n) pc w =
     (case read_messages_step lib i pc w of
        None \<Rightarrow> None
      | Some Blocked \<Rightarrow> Some (pc, w)
      | Some (Stepped pc' w') \<Rightarrow> run_reader lib i n pc' w')"

section \<open>Well-formed consumers\<close>

definition cons_ok :: "ws_consumer \<Rightarrow> bool" where
  "cons_ok c \<longleftrightarrow> (wc_stopped c \<noteq> 0 \<longleftrightarrow> ch_closed (wc_messages c)) \<and> chan_ok (wc_messages c)
     \<and> length (wc_mesgHdr c) = mesgHdrLen"

definition consumers_ok :: "media_world \<Rightarrow> bool" where
  "consumers_ok w \<longleftrightarrow> list_all cons_ok (w_cons w)"

lemma consumers_okD: "consumers_ok w \<Longrightarrow> i < length (w_cons w) \<Longrightarrow> cons_ok (w_cons w ! i)"
  by (simp add: consumers_ok_def list_all_length)

lemma consumers_ok_update:
  "consumers_ok w \<Longrightarrow> cons_ok c \<Longrightarrow> consumers_ok (w\<lparr>w_cons := (w_cons w)[i := c]\<rparr>)"
  using set_update_subset_insert [of "w_cons w" i c] by (auto simp: consumers_ok_def list_all_iff)

lemma consumers_ok_cong: "w_cons w' = w_cons w \<Longrightarrow> consumers_ok w' = consumers_ok w"
  by (simp add: consumers_ok_def)

lemma new_ws_consumer_ok: "cons_ok (new_ws_consumer lib cid pid k)"
  by (simp add: new_ws_consumer_def cons_ok_def make_chan_def chan_ok_def)

definition ids_of :: "ws_consumer \<Rightarrow> string \<times> string" where
  "ids_of c = (wc_id c, wc_pubID c)"

section \<open>Stop\<close>

lemma stop_consumer_obj_ok:
  assumes "cons_ok c"
  obtains c' where "stop_consumer_obj c = Some c'" "cons_ok c'" "ch_closed (wc_messages c')"
    "ch_queue (wc_messages c') = ch_queue (wc_messages c)" "wc_id c' = wc_id c" "wc_pubID c' = wc_pubID c"
proof (cases "wc_stopped c = 0")
  case True
  with assms have not_closed: "\<not> ch_closed (wc_messages c)" by (simp add: cons_ok_def)
  show ?thesis
    by (rule that [of "c\<lparr>wc_stopped := 1, wc_messages := (wc_messages c)\<lparr>ch_closed := True\<rparr>\<rparr>"])
      (use True not_closed assms in \<open>simp_all add: stop_consumer_obj_def close_chan_def cons_ok_def chan_ok_def\<close>)
next
  case False
  then show ?thesis
    using assms by (intro that [of c]) (auto simp: stop_consumer_obj_def cons_ok_def)
qed

lemma stop_consumer_obj_idem:
  "stop_consumer_obj c = Some c' \<Longrightarrow> stop_consumer_obj c' = Some c'"
  by (auto simp: stop_consumer_obj_def close_chan_def split: if_splits)

lemma queue_refs_cong: "ch_queue (wc_messages c') = ch_queue (wc_messages c) \<Longrightarrow> queue_refs a c' = queue_refs a c"
  by (simp add: queue_refs_def)

text \<open>Replacing a consumer by one with the same queue keeps the accounting.\<close>

lemma heap_ok_same_queue:
  assumes "heap_ok H w" and "i < length (w_cons w)"
    and "ch_queue (wc_messages c) = ch_queue (wc_messages (w_cons w ! i))"
  shows "heap_ok H (w\<lparr>w_cons := (w_cons w)[i := c]\<rparr>)"
proof (rule heap_ok_cons [OF assms(1)])
  fix a
  show "count H a + queued (w\<lparr>w_cons := (w_cons w)[i := c]\<rparr>) a \<le> count H a + queued w a"
    using queued_update [OF assms(2), of c a] queue_refs_cong [OF assms(3), of a] by simp
qed

lemma consumer_stop_ok:
  assumes "heap_ok H w" and "consumers_ok w" and i: "i < length (w_cons w)"
  obtains w' where "consumer_stop i w = Some w'" "heap_ok H w'" "consumers_ok w'"
    "ch_closed (wc_messages (w_cons w' ! i))" "length (w_cons w') = length (w_cons w)"
    "\<forall>j. j \<noteq> i \<longrightarrow> w_cons w' ! j = w_cons w ! j" "h_bufs w' = h_bufs w" "h_pools w' = h_pools w"
    "w_pubs w' = w_pubs w" "w_chan w' = w_chan w" "wc_id (w_cons w' ! i) = wc_id (w_cons w ! i)"
proof -
  obtain c' where c': "stop_consumer_obj (w_cons w ! i) = Some c'" "cons_ok c'" "ch_closed (wc_messages c')"
    "ch_queue (wc_messages c') = ch_queue (wc_messages (w_cons w ! i))" "wc_id c' = wc_id (w_cons w ! i)"
    using stop_consumer_obj_ok [OF consumers_okD [OF assms(2) i]] by metis
  show ?thesis
    by (rule that [of "w\<lparr>w_cons := (w_cons w)[i := c']\<rparr>"])
      (use c' i heap_ok_same_queue [OF assms(1) i c'(4)] consumers_ok_update [OF assms(2) c'(2)] in
        \<open>simp_all add: consumer_stop_def\<close>)
qed

section \<open>Writing a message\<close>

lemma flush_bufs_simps:
  assumes "flush_bufs c = (e, c')"
  shows "wc_messages c' = wc_messages c" "wc_stopped c' = wc_stopped c" "wc_mesgHdr c' = wc_mesgHdr c"
    "wc_wsHdr c' = wc_wsHdr c" "wc_id c' = wc_id c" "wc_pubID c' = wc_pubID c"
    "e = None \<Longrightarrow> wc_bufs c' = [] \<and> cn_out (wc_conn c') = cn_out (wc_conn c) @ concat (wc_bufs c)"
  using assms buffers_write_to_ok [of "wc_bufs c" "wc_conn c"]
  by (auto simp: flush_bufs_def split: prod.splits option.splits)

lemma write_body_ok:
  assumes "cons_ok c"
  obtains e c' where "write_body lib m data c = Some (e, c')" "cons_ok c'"
    "wc_messages c' = wc_messages c" "wc_id c' = wc_id c" "wc_pubID c' = wc_pubID c"
proof (cases "is_continuation m")
  case True
  obtain e c' where f: "flush_bufs (c\<lparr>wc_bufs := wc_bufs c @ [data]\<rparr>) = (e, c')"
    by (cases "flush_bufs (c\<lparr>wc_bufs := wc_bufs c @ [data]\<rparr>)")
  show ?thesis
    using flush_bufs_simps(1-6) [OF f] f True assms
    by (intro that [of e c']) (simp_all add: write_body_def cons_ok_def)
next
  case False
  obtain e h where enc: "ws_header_encode lib m (wc_wsHdr c) = (e, h)"
    by (cases "ws_header_encode lib m (wc_wsHdr c)")
  show ?thesis
  proof (cases e)
    case (Some x)
    then show ?thesis
      using False enc assms by (intro that [of e "c\<lparr>wc_wsHdr := h\<rparr>"]) (simp_all add: write_body_def cons_ok_def)
  next
    case None
    let ?c = "c\<lparr>wc_wsHdr := h, wc_mesgHdr := mesg_header_layout m,
      wc_bufs := wc_bufs c @ [ws_header_slice h, mesg_header_layout m, data]\<rparr>"
    obtain e' c' where f: "flush_bufs ?c = (e', c')" by (cases "flush_bufs ?c")
    have "length (mesg_header_layout m) = mesgHdrLen" by (simp add: mesg_header_layout_def mesgHdrLen_def)
    moreover have "mesg_header_encode m (wc_mesgHdr c) = Some (mesg_header_layout m)"
      using assms by (intro mesg_header_encode_layout) (simp add: cons_ok_def)
    ultimately show ?thesis
      using flush_bufs_simps(1-6) [OF f] f None False enc assms
      by (intro that [of e' c']) (simp_all add: write_body_def cons_ok_def)
  qed
qed

text \<open>What a message looks like on the wire when the write succeeds.\<close>

definition wire_bytes :: "ws_lib \<Rightarrow> message \<Rightarrow> byte list \<Rightarrow> byte list" where
  "wire_bytes lib m data =
     (if is_continuation m then data
      else (case ws_header_bytes lib (uint (m_length m + of_nat mesgHdrLen)) of Inl _ \<Rightarrow> [] | Inr bs \<Rightarrow> bs)
        @ mesg_header_layout m @ data)"

lemma write_body_wire:
  assumes "cons_ok c" and "wc_bufs c = []" and w: "write_body lib m data c = Some (None, c')"
  shows "cn_out (wc_conn c') = cn_out (wc_conn c) @ wire_bytes lib m data" and "wc_bufs c' = []"
proof -
  have mh: "mesg_header_encode m (wc_mesgHdr c) = Some (mesg_header_layout m)"
    using assms(1) by (intro mesg_header_encode_layout) (simp add: cons_ok_def)
  have "cn_out (wc_conn c') = cn_out (wc_conn c) @ wire_bytes lib m data \<and> wc_bufs c' = []"
  proof (cases "is_continuation m")
    case True
    with w have "flush_bufs (c\<lparr>wc_bufs := wc_bufs c @ [data]\<rparr>) = (None, c')" by (simp add: write_body_def)
    from flush_bufs_simps(7) [OF this] True assms(2) show ?thesis by (simp add: wire_bytes_def)
  next
    case False
    with w mh obtain h where enc: "ws_header_encode lib m (wc_wsHdr c) = (None, h)"
      and f: "flush_bufs (c\<lparr>wc_wsHdr := h, wc_mesgHdr := mesg_header_layout m,
        wc_bufs := wc_bufs c @ [ws_header_slice h, mesg_header_layout m, data]\<rparr>) = (None, c')"
      by (auto simp: write_body_def split: prod.splits option.splits)
    from enc have "ws_header_bytes lib (uint (m_length m + of_nat mesgHdrLen)) = Inr (ws_header_slice h)"
      by (auto simp: ws_header_encode_def ws_header_write_def ws_header_slice_def blit_def
        split: sum.splits if_splits)
    with flush_bufs_simps(7) [OF f] False assms(2) show ?thesis by (simp add: wire_bytes_def)
  qed
  then show "cn_out (wc_conn c') = cn_out (wc_conn c) @ wire_bytes lib m data" "wc_bufs c' = []"
    by simp_all
qed

lemma write_message_eq:
  assumes ok: "heap_ok (add_mset (m_data m) H) w" and i: "i < length (w_cons w)"
    and wb: "write_body lib m (sb_bytes (h_bufs w ! m_data m)) (w_cons w ! i) = Some (e, c)"
    and same: "wc_messages c = wc_messages (w_cons w ! i)"
  shows "write_message lib m i w = Some (e, released (m_data m) (w\<lparr>w_cons := (w_cons w)[i := c]\<rparr>))"
    and "heap_ok H (released (m_data m) (w\<lparr>w_cons := (w_cons w)[i := c]\<rparr>))"
proof -
  have a: "m_data m < length (h_bufs w)" using heap_ok_held [OF ok, of "m_data m"] by simp
  have "heap_ok (add_mset (m_data m) H) (w\<lparr>w_cons := (w_cons w)[i := c]\<rparr>)"
    by (rule heap_ok_same_queue [OF ok i]) (simp add: same)
  note rel = heap_ok_release [OF this]
  show "write_message lib m i w = Some (e, released (m_data m) (w\<lparr>w_cons := (w_cons w)[i := c]\<rparr>))"
    using a i wb rel(1) by (simp add: write_message_def)
  show "heap_ok H (released (m_data m) (w\<lparr>w_cons := (w_cons w)[i := c]\<rparr>))"
    by (rule rel)
qed

lemma write_message_ok:
  assumes ok: "heap_ok (add_mset (m_data m) H) w" and cs: "consumers_ok w" and i: "i < length (w_cons w)"
  obtains e w' where "write_message lib m i w = Some (e, w')" "heap_ok H w'" "consumers_ok w'"
    "length (w_cons w') = length (w_cons w)" "wc_messages (w_cons w' ! i) = wc_messages (w_cons w ! i)"
    "\<forall>j. j \<noteq> i \<longrightarrow> w_cons w' ! j = w_cons w ! j" "w_pubs w' = w_pubs w" "w_chan w' = w_chan w"
    "ids_of (w_cons w' ! i) = ids_of (w_cons w ! i)"
proof -
  obtain e c where wb: "write_body lib m (sb_bytes (h_bufs w ! m_data m)) (w_cons w ! i) = Some (e, c)"
    "cons_ok c" "wc_messages c = wc_messages (w_cons w ! i)" "ids_of c = ids_of (w_cons w ! i)"
    using write_body_ok [OF consumers_okD [OF cs i]] unfolding ids_of_def by metis
  let ?w = "w\<lparr>w_cons := (w_cons w)[i := c]\<rparr>"
  note so = same_objectsD [OF same_objects_released, of "m_data m" ?w]
  show ?thesis
    by (rule that [of e "released (m_data m) ?w"])
      (use write_message_eq [OF ok i wb(1,3)] so i consumers_ok_update [OF cs wb(2)] wb(3,4)
        consumers_ok_cong [OF so(1)] in simp_all)
qed

section \<open>The reading goroutine\<close>

text \<open>Taking a message moves its reference from the queue into the goroutine's hands.\<close>

lemma take_message_item:
  assumes ok: "heap_ok H w" and cs: "consumers_ok w" and i: "i < length (w_cons w)"
    and q: "ch_queue (wc_messages (w_cons w ! i)) = m # q'"
  obtains w' where "take_message i w = Some (Item m, w')" "heap_ok (add_mset (m_data m) H) w'"
    "consumers_ok w'" "length (w_cons w') = length (w_cons w)"
    "wc_messages (w_cons w' ! i) = (wc_messages (w_cons w ! i))\<lparr>ch_queue := q'\<rparr>"
    "\<forall>j. j \<noteq> i \<longrightarrow> w_cons w' ! j = w_cons w ! j" "w_pubs w' = w_pubs w" "w_chan w' = w_chan w"
    "h_bufs w' = h_bufs w" "ids_of (w_cons w' ! i) = ids_of (w_cons w ! i)"
proof -
  let ?c = "(w_cons w ! i)\<lparr>wc_messages := (wc_messages (w_cons w ! i))\<lparr>ch_queue := q'\<rparr>\<rparr>"
  let ?w = "w\<lparr>w_cons := (w_cons w)[i := ?c]\<rparr>"
  have refs: "queue_refs a (w_cons w ! i) = queue_refs a ?c + of_bool (m_data m = a)" for a
    by (simp add: queue_refs_def q)
  have "heap_ok (add_mset (m_data m) H) ?w"
  proof (rule heap_ok_cons [OF ok])
    fix a
    show "count (add_mset (m_data m) H) a + queued ?w a \<le> count H a + queued w a"
      using queued_update [OF i, of ?c a] refs [of a] by (auto split: if_splits)
  qed
  moreover have "consumers_ok ?w"
    by (rule consumers_ok_update [OF cs])
      (use consumers_okD [OF cs i] in \<open>auto simp: cons_ok_def chan_ok_def q\<close>)
  ultimately show ?thesis
    by (intro that [of ?w]) (use i q in \<open>simp_all add: take_message_def recv_chan_def ids_of_def\<close>)
qed

lemma take_message_empty:
  assumes "i < length (w_cons w)" and "ch_queue (wc_messages (w_cons w ! i)) = []"
  shows "take_message i w = Some (if ch_closed (wc_messages (w_cons w ! i)) then Closed else WouldBlock, w)"
  using assms by (simp add: take_message_def recv_chan_def)

lemma close_conn_ok:
  assumes ok: "heap_ok H w" and cs: "consumers_ok w" and i: "i < length (w_cons w)"
  obtains w' where "close_conn i w = Some w'" "heap_ok H w'" "consumers_ok w'"
    "length (w_cons w') = length (w_cons w)" "wc_messages (w_cons w' ! i) = wc_messages (w_cons w ! i)"
    "cn_closed (wc_conn (w_cons w' ! i))" "\<forall>j. j \<noteq> i \<longrightarrow> w_cons w' ! j = w_cons w ! j"
    "w_pubs w' = w_pubs w" "w_chan w' = w_chan w" "ids_of (w_cons w' ! i) = ids_of (w_cons w ! i)"
proof -
  let ?c = "(w_cons w ! i)\<lparr>wc_conn := (wc_conn (w_cons w ! i))\<lparr>cn_closed := True\<rparr>\<rparr>"
  have "cons_ok ?c" using consumers_okD [OF cs i] by (simp add: cons_ok_def)
  then show ?thesis
    by (intro that [of "w\<lparr>w_cons := (w_cons w)[i := ?c]\<rparr>"])
      (use i heap_ok_same_queue [OF ok i, of ?c] consumers_ok_update [OF cs] in
        \<open>simp_all add: close_conn_def ids_of_def\<close>)
qed

text \<open>No step of the goroutine panics; every step keeps the accounting and shortens the queue.\<close>

definition queue_of :: "media_world \<Rightarrow> consumer_ref \<Rightarrow> message list" where
  "queue_of w i = ch_queue (wc_messages (w_cons w ! i))"

definition closed_of :: "media_world \<Rightarrow> consumer_ref \<Rightarrow> bool" where
  "closed_of w i \<longleftrightarrow> ch_closed (wc_messages (w_cons w ! i))"

fun pc_rank :: "reader_pc \<Rightarrow> nat" where
  "pc_rank Writing = 2"
| "pc_rank Draining = 1"
| "pc_rank Finished = 0"

lemma read_messages_step_ok:
  assumes ok: "heap_ok H w" and cs: "consumers_ok w" and i: "i < length (w_cons w)"
  shows "(read_messages_step lib i pc w = Some Blocked
        \<and> (pc = Finished \<or> queue_of w i = [] \<and> \<not> closed_of w i))
    \<or> (\<exists>pc' w'. read_messages_step lib i pc w = Some (Stepped pc' w') \<and> heap_ok H w' \<and> consumers_ok w'
        \<and> length (w_cons w') = length (w_cons w) \<and> closed_of w' i = closed_of w i
        \<and> (\<forall>j. j \<noteq> i \<longrightarrow> w_cons w' ! j = w_cons w ! j) \<and> w_pubs w' = w_pubs w \<and> w_chan w' = w_chan w
        \<and> length (queue_of w' i) + pc_rank pc' < length (queue_of w i) + pc_rank pc
        \<and> (pc' = Finished \<longrightarrow> queue_of w' i = [] \<and> cn_closed (wc_conn (w_cons w' ! i)))
        \<and> ids_of (w_cons w' ! i) = ids_of (w_cons w ! i))"
proof (cases "pc = Finished")
  case True
  then show ?thesis by simp
next
  case running: False
  show ?thesis
  proof (cases "ch_queue (wc_messages (w_cons w ! i))")
    case Nil
    note t = take_message_empty [OF i Nil]
    show ?thesis
    proof (cases "ch_closed (wc_messages (w_cons w ! i)) \<and> pc = Draining")
      case True
      obtain w' where "close_conn i w = Some w'" "heap_ok H w'" "consumers_ok w'"
        "length (w_cons w') = length (w_cons w)" "wc_messages (w_cons w' ! i) = wc_messages (w_cons w ! i)"
        "cn_closed (wc_conn (w_cons w' ! i))" "\<forall>j. j \<noteq> i \<longrightarrow> w_cons w' ! j = w_cons w ! j"
        "w_pubs w' = w_pubs w" "w_chan w' = w_chan w" "ids_of (w_cons w' ! i) = ids_of (w_cons w ! i)"
        by (rule close_conn_ok [OF ok cs i]) blast
      then show ?thesis using True t Nil by (simp add: queue_of_def closed_of_def)
    next
      case False
      then show ?thesis using t Nil running ok cs
        by (cases pc) (auto simp: queue_of_def closed_of_def)
    qed
  next
    case (Cons m q')
    obtain w1 where w1: "take_message i w = Some (Item m, w1)" "heap_ok (add_mset (m_data m) H) w1"
      "consumers_ok w1" "length (w_cons w1) = length (w_cons w)"
      "wc_messages (w_cons w1 ! i) = (wc_messages (w_cons w ! i))\<lparr>ch_queue := q'\<rparr>"
      "\<forall>j. j \<noteq> i \<longrightarrow> w_cons w1 ! j = w_cons w ! j" "w_pubs w1 = w_pubs w" "w_chan w1 = w_chan w"
      "ids_of (w_cons w1 ! i) = ids_of (w_cons w ! i)"
      by (rule take_message_item [OF ok cs i Cons]) blast
    show ?thesis
    proof (cases pc)
      case Writing
      obtain e w' where "write_message lib m i w1 = Some (e, w')" "heap_ok H w'" "consumers_ok w'"
        "length (w_cons w') = length (w_cons w1)" "wc_messages (w_cons w' ! i) = wc_messages (w_cons w1 ! i)"
        "\<forall>j. j \<noteq> i \<longrightarrow> w_cons w' ! j = w_cons w1 ! j" "w_pubs w' = w_pubs w1" "w_chan w' = w_chan w1"
        "ids_of (w_cons w' ! i) = ids_of (w_cons w1 ! i)"
        using write_message_ok [OF w1(2,3)] i w1(4) by metis
      then show ?thesis using w1 Writing Cons by (auto simp: queue_of_def closed_of_def)
    next
      case Draining
      note so = same_objectsD [OF same_objects_released, of "m_data m" w1]
      show ?thesis
        using w1 Draining Cons heap_ok_release [OF w1(2)] so consumers_ok_cong [OF so(1)]
        by (auto simp: queue_of_def closed_of_def)
    next
      case Finished
      then show ?thesis using running by simp
    qed
  qed
qed

text \<open>A stopped consumer's goroutine drains its queue, closes the connection and ends.\<close>

lemma run_reader_finishes:
  assumes "heap_ok H w" and "consumers_ok w" and "i < length (w_cons w)" and "closed_of w i"
    and "pc \<noteq> Finished" and "length (queue_of w i) + pc_rank pc \<le> n"
  shows "\<exists>w'. run_reader lib i n pc w = Some (Finished, w') \<and> heap_ok H w' \<and> consumers_ok w'
    \<and> queue_of w' i = [] \<and> cn_closed (wc_conn (w_cons w' ! i))"
  using assms
proof (induction n arbitrary: pc w)
  case 0
  then show ?case by (cases pc) simp_all
next
  case (Suc n)
  from read_messages_step_ok [OF Suc.prems(1-3), of lib pc] Suc.prems(4,5)
  obtain pc' w' where s: "read_messages_step lib i pc w = Some (Stepped pc' w')" "heap_ok H w'"
    "consumers_ok w'" "length (w_cons w') = length (w_cons w)" "closed_of w' i"
    "length (queue_of w' i) + pc_rank pc' < length (queue_of w i) + pc_rank pc"
    "pc' = Finished \<Longrightarrow> queue_of w' i = [] \<and> cn_closed (wc_conn (w_cons w' ! i))"
    by auto
  show ?case
  proof (cases "pc' = Finished")
    case True
    have "run_reader lib i n Finished w' = Some (Finished, w')" by (cases n) simp_all
    with True s show ?thesis by simp
  next
    case False
    have "length (queue_of w' i) + pc_rank pc' \<le> n" using s(6) Suc.prems(6) by simp
    from Suc.IH [OF s(2,3) _ s(5) False this] s(1,4) Suc.prems(3) show ?thesis by simp
  qed
qed

text \<open>An open channel with nothing queued blocks the goroutine for good, however long it runs.\<close>

lemma run_reader_blocked:
  assumes "i < length (w_cons w)" and "queue_of w i = []" and "\<not> closed_of w i" and "pc \<noteq> Finished"
  shows "run_reader lib i n pc w = Some (pc, w)"
proof (cases n)
  case (Suc k)
  have "take_message i w = Some (WouldBlock, w)"
    using take_message_empty [OF assms(1)] assms(2,3) by (simp add: queue_of_def closed_of_def)
  then have "read_messages_step lib i pc w = Some Blocked" using assms(4) by (cases pc) simp_all
  with Suc show ?thesis by simp
qed simp

section \<open>Framing\<close>

text \<open>Writing the messages of a list one after the other, as the first loop does.\<close>

fun write_all :: "ws_lib \<Rightarrow> consumer_ref \<Rightarrow> message list \<Rightarrow> media_world \<Rightarrow> (io_err option \<times> media_world) option" where
  "write_all lib i [] w = Some (None, w)"
| "write_all lib i (m # ms) w = do {
     (e, w) \<leftarrow> write_message lib m i w;
     (case e of None \<Rightarrow> write_all lib i ms w | Some e \<Rightarrow> Some (Some e, w))
   }"

definition bytes_of :: "media_world \<Rightarrow> message \<Rightarrow> byte list" where
  "bytes_of w m = sb_bytes (h_bufs w ! m_data m)"

text \<open>
  As long as the references are held, what reaches the wire is the bytes the buffers held at the
  start: releasing one message never recycles a buffer that a later message still refers to.
\<close>

lemma held_twice: "0 < count M x \<Longrightarrow> count (add_mset x M) x + b + c \<le> (n :: nat) \<Longrightarrow> n \<noteq> 1"
  by (simp del: count_greater_zero_iff)

lemma write_all_wire:
  assumes "heap_ok (mset (map m_data ms) + H) w" and "consumers_ok w" and "i < length (w_cons w)"
    and "wc_bufs (w_cons w ! i) = []" and "write_all lib i ms w = Some (None, w')"
  shows "cn_out (wc_conn (w_cons w' ! i)) = cn_out (wc_conn (w_cons w ! i))
    @ concat (map (\<lambda>m. wire_bytes lib m (bytes_of w m)) ms)"
  using assms
proof (induction ms arbitrary: w)
  case Nil
  then show ?case by simp
next
  case (Cons m ms)
  let ?H = "mset (map m_data ms) + H"
  have ok: "heap_ok (add_mset (m_data m) ?H) w" using Cons.prems(1) by simp
  have a: "m_data m < length (h_bufs w)" using heap_ok_held [OF ok, of "m_data m"] by simp
  obtain e c where wb: "write_body lib m (bytes_of w m) (w_cons w ! i) = Some (e, c)" "cons_ok c"
    "wc_messages c = wc_messages (w_cons w ! i)"
    using write_body_ok [OF consumers_okD [OF Cons.prems(2,3)]] by metis
  define w0 where "w0 = w\<lparr>w_cons := (w_cons w)[i := c]\<rparr>"
  define w1 where "w1 = released (m_data m) w0"
  note eq = write_message_eq [OF ok Cons.prems(3) wb(1)[unfolded bytes_of_def] wb(3), folded w0_def w1_def]
  note so = same_objectsD [OF same_objects_released, of "m_data m" w0, folded w1_def]
  from Cons.prems(5) eq(1) have e: "e = None" and rest: "write_all lib i ms w1 = Some (None, w')"
    by (auto split: option.splits)
  note wire = write_body_wire [OF consumers_okD [OF Cons.prems(2,3)] Cons.prems(4) wb(1) [unfolded e]]
  have c1: "w_cons w1 = (w_cons w)[i := c]" using so(1) by (simp add: w0_def)
  have same: "bytes_of w1 x = bytes_of w x" if "x \<in> set ms" for x
  proof (cases "m_data x = m_data m")
    case True
    with that have "0 < count ?H (m_data m)"
      by (metis count_greater_zero_iff image_eqI image_set in_multiset_in_set union_iff)
    with heap_okD(3) [OF ok a] have "sb_count (h_bufs w ! m_data m) \<noteq> 1"
      by (intro held_twice)
    then show ?thesis using True released_bytes [of w0 "m_data m"] by (simp add: bytes_of_def w1_def w0_def)
  qed (simp add: bytes_of_def w1_def w0_def)
  have "cn_out (wc_conn (w_cons w' ! i)) = cn_out (wc_conn (w_cons w1 ! i))
      @ concat (map (\<lambda>m. wire_bytes lib m (bytes_of w1 m)) ms)"
    by (rule Cons.IH [OF eq(2) _ _ _ rest])
      (use Cons.prems(3) c1 wire(2) consumers_ok_update [OF Cons.prems(2) wb(2)] in
        \<open>simp_all add: consumers_ok_def\<close>)
  then show ?case
    using c1 wire(1) Cons.prems(3) same by (simp cong: map_cong)
qed

end
