(* ===== verification/Publisher.thy ===== *)
theory Publisher
  imports Consumer
begin

text \<open>
  \<open>transport/media_channel/publisher.go\<close>: one stream's publisher, which fans messages out to
  its consumers without ever waiting for one, remembers the sequence headers and the meta data for
  consumers that join later, and drops a consumer whose channel is full. Go iterates over the map
  of consumers in an order of its own choosing: the order is the argument \<open>perm\<close>, any permutation
  of the keys.
\<close>

datatype media_err = ErrNoPublisher | ErrPublisherExists | ErrConsumerExists | ErrSendInitialData string

section \<open>Construction and buffers\<close>

definition new_publisher :: "string \<Rightarrow> media_world \<Rightarrow> publisher_ref \<times> media_world" where
  "new_publisher i w =
     (let p = length (w_pubs w);
          pub = \<lparr>pub_id = i, pub_consumers = None, pub_videoPool = (p, VideoPool),
                 pub_audioPool = (p, AudioPool), pub_videoSeqHdr = None, pub_audioSeqHdr = None,
                 pub_meta = None\<rparr>
      in (p, w\<lparr>w_pubs := w_pubs w @ [pub]\<rparr>))"

definition acquire_video_buffer ::
    "pool_choice \<Rightarrow> publisher_ref \<Rightarrow> media_world \<Rightarrow> (buf_ref \<times> media_world) option" where
  "acquire_video_buffer pick p w = do {
     pub \<leftarrow> deref (w_pubs w) p;
     acquire_from_pool pick (pub_videoPool pub) w
   }"

definition acquire_audio_buffer ::
    "pool_choice \<Rightarrow> publisher_ref \<Rightarrow> media_world \<Rightarrow> (buf_ref \<times> media_world) option" where
  "acquire_audio_buffer pick p w = do {
     pub \<leftarrow> deref (w_pubs w) p;
     acquire_from_pool pick (pub_audioPool pub) w
   }"

definition hold_buffer :: "buf_ref \<Rightarrow> bool \<Rightarrow> media_world \<Rightarrow> (buf_ref \<times> media_world) option" where
  "hold_buffer a copy w = do {
     (r, w) \<leftarrow> (if copy
       then do {
         b \<leftarrow> deref (h_bufs w) a;
         c \<leftarrow> sb_copy_slice b;
         Some (alloc_buf c w)
       }
       else Some (a, w));
     w \<leftarrow> h_acquire r 1 w;
     Some (r, w)
   }"

definition set_pub :: "publisher_ref \<Rightarrow> (publisher \<Rightarrow> publisher) \<Rightarrow> media_world \<Rightarrow> media_world option" where
  "set_pub p f w = do {
     pub \<leftarrow> deref (w_pubs w) p;
     Some (w\<lparr>w_pubs := (w_pubs w)[p := f pub]\<rparr>)
   }"

section \<open>Sending to one consumer\<close>

text \<open>\<open>sendMessage\<close>: the flag says whether the channel took the message.\<close>

definition send_to :: "consumer_ref \<Rightarrow> message \<Rightarrow> media_world \<Rightarrow> (bool \<times> media_world) option" where
  "send_to i m w = do {
     c \<leftarrow> deref (w_cons w) i;
     (ok, ch) \<leftarrow> try_send m (wc_messages c);
     Some (ok, w\<lparr>w_cons := (w_cons w)[i := c\<lparr>wc_messages := ch\<rparr>]\<rparr>)
   }"

text \<open>\<open>stopConsumer\<close>: forgets the consumer, sets an empty map to nil, stops the consumer.\<close>

definition drop_consumer :: "string \<Rightarrow> publisher \<Rightarrow> publisher" where
  "drop_consumer cid pub =
     (let m = AList.delete cid (consumers_of pub)
      in pub\<lparr>pub_consumers := (if m = [] then None else Some m)\<rparr>)"

definition stop_consumer :: "publisher_ref \<Rightarrow> consumer_ref \<Rightarrow> media_world \<Rightarrow> media_world option" where
  "stop_consumer p i w = do {
     c \<leftarrow> deref (w_cons w) i;
     w \<leftarrow> set_pub p (drop_consumer (wc_id c)) w;
     consumer_stop i w
   }"

definition send_message_stop ::
    "publisher_ref \<Rightarrow> consumer_ref \<Rightarrow> message \<Rightarrow> media_world \<Rightarrow> (bool \<times> media_world) option" where
  "send_message_stop p i m w = do {
     w \<leftarrow> h_acquire (m_data m) 1 w;
     (ok, w) \<leftarrow> send_to i m w;
     if ok then Some (True, w)
     else do {
       w \<leftarrow> h_release (m_data m) w;
       w \<leftarrow> stop_consumer p i w;
       Some (False, w)
     }
   }"

section \<open>Initial data\<close>

text \<open>One of the three blocks of \<open>sendInitialData\<close>: nothing is sent for a nil buffer.\<close>

definition send_held ::
    "publisher_ref \<Rightarrow> consumer_ref \<Rightarrow> u8 \<Rightarrow> buf_ref option \<Rightarrow> media_world \<Rightarrow> (bool \<times> media_world) option" where
  "send_held p i typ held w =
     (case held of
        None \<Rightarrow> Some (True, w)
      | Some a \<Rightarrow> do {
          b \<leftarrow> deref (h_bufs w) a;
          send_message_stop p i
            \<lparr>m_type = typ, m_flags = 0, m_timestamp = 0, m_length = of_nat (sb_length b), m_data = a\<rparr> w
        })"

definition send_initial_data ::
    "publisher_ref \<Rightarrow> consumer_ref \<Rightarrow> media_world \<Rightarrow> (string option \<times> media_world) option" where
  "send_initial_data p i w = do {
     pub \<leftarrow> deref (w_pubs w) p;
     (ok, w) \<leftarrow> send_held p i MesgMetaData (pub_meta pub) w;
     if \<not> ok then Some (Some ''failed to send meta data'', w)
     else do {
       (ok, w) \<leftarrow> send_held p i MesgVideoSeqHdr (pub_videoSeqHdr pub) w;
       if \<not> ok then Some (Some ''failed to send video seq header'', w)
       else do {
         (ok, w) \<leftarrow> send_held p i MesgAudioSeqHdr (pub_audioSeqHdr pub) w;
         if \<not> ok then Some (Some ''failed to send audio seq header'', w)
         else Some (None, w)
       }
     }
   }"

section \<open>Fan-out\<close>

definition store_seq_header :: "publisher_ref \<Rightarrow> message \<Rightarrow> media_world \<Rightarrow> media_world option" where
  "store_seq_header p m w =
     (if m_type m = MesgVideoSeqHdr
      then do {
        (a, w) \<leftarrow> hold_buffer (m_data m) True w;
        set_pub p (\<lambda>pub. pub\<lparr>pub_videoSeqHdr := Some a\<rparr>) w
      }
      else if m_type m = MesgAudioSeqHdr
      then do {
        (a, w) \<leftarrow> hold_buffer (m_data m) True w;
        set_pub p (\<lambda>pub. pub\<lparr>pub_audioSeqHdr := Some a\<rparr>) w
      }
      else Some w)"

text \<open>A consumer that has not had a video key frame yet is not sent the video in between.\<close>

definition skips :: "message \<Rightarrow> consumer_data \<Rightarrow> bool" where
  "skips m d \<longleftrightarrow> m_type m = MesgVideo \<and> \<not> cd_sentVideoKeyFrame d \<and> (\<not> is_key_frame m \<or> is_continuation m)"

definition mark_sent :: "string \<Rightarrow> message \<Rightarrow> consumer_data \<Rightarrow> publisher \<Rightarrow> publisher" where
  "mark_sent cid m d pub =
     (if m_type m = MesgVideo \<and> is_key_frame m \<and> \<not> cd_sentVideoKeyFrame d
      then pub\<lparr>pub_consumers := Some (AList.update cid (d\<lparr>cd_sentVideoKeyFrame := True\<rparr>) (consumers_of pub))\<rparr>
      else pub)"

text \<open>
  The loop over the consumers; an entry that is no longer in the map is not produced by the
  iteration. Consumers whose channel is full are collected; the reference acquired for them is
  not given back here.
\<close>

fun fan_out :: "publisher_ref \<Rightarrow> message \<Rightarrow> string list \<Rightarrow> consumer_ref list \<Rightarrow> media_world \<Rightarrow>
    (consumer_ref list \<times> media_world) option" where
  "fan_out p m [] removed w = Some (removed, w)"
| "fan_out p m (cid # cids) removed w = do {
     pub \<leftarrow> deref (w_pubs w) p;
     (case map_of (consumers_of pub) cid of
        None \<Rightarrow> fan_out p m cids removed w
      | Some d \<Rightarrow>
          if skips m d
          then do {
            w \<leftarrow> h_release (m_data m) w;
            fan_out p m cids removed w
          }
          else do {
            (ok, w) \<leftarrow> send_to (cd_consumer d) m w;
            if ok
            then do {
              w \<leftarrow> set_pub p (mark_sent cid m d) w;
              fan_out p m cids removed w
            }
            else fan_out p m cids (removed @ [cd_consumer d]) w
          })
   }"

fun stop_consumers :: "publisher_ref \<Rightarrow> consumer_ref list \<Rightarrow> media_world \<Rightarrow> media_world option" where
  "stop_consumers p [] w = Some w"
| "stop_consumers p (i # is) w = do {
     w \<leftarrow> stop_consumer p i w;
     stop_consumers p is w
   }"

definition send_message ::
    "(string list \<Rightarrow> string list) \<Rightarrow> publisher_ref \<Rightarrow> message \<Rightarrow> media_world \<Rightarrow> media_world option" where
  "send_message perm p m w = do {
     w \<leftarrow> store_seq_header p m w;
     pub \<leftarrow> deref (w_pubs w) p;
     w \<leftarrow> h_acquire (m_data m) (length (consumers_of pub)) w;
     (removed, w) \<leftarrow> fan_out p m (perm (keys (consumers_of pub))) [] w;
     stop_consumers p removed w
   }"

definition send_meta_data ::
    "(string list \<Rightarrow> string list) \<Rightarrow> publisher_ref \<Rightarrow> meta_data \<Rightarrow> media_world \<Rightarrow>
       (io_err option \<times> media_world) option" where
  "send_meta_data perm p md w = do {
     encoded \<leftarrow> meta_encode md (replicate metaDataEncodedSize 0);
     (case encoded of
        Inl e \<Rightarrow> Some (Some e, w)
      | Inr data \<Rightarrow> do {
          pub \<leftarrow> deref (w_pubs w) p;
          b \<leftarrow> new_shared_buffer (pub_audioPool pub) data (length data);
          let (a, w) = alloc_buf b w;
          (meta, w) \<leftarrow> hold_buffer a False w;
          w \<leftarrow> set_pub p (\<lambda>pub. pub\<lparr>pub_meta := Some meta\<rparr>) w;
          mb \<leftarrow> deref (h_bufs w) meta;
          w \<leftarrow> send_message perm p \<lparr>m_type = MesgMetaData, m_flags = 0, m_timestamp = 0,
            m_length = of_nat (sb_length mb), m_data = meta\<rparr> w;
          Some (None, w)
        })
   }"

section \<open>Consumers joining and leaving\<close>

definition has_consumer :: "publisher_ref \<Rightarrow> string \<Rightarrow> media_world \<Rightarrow> bool option" where
  "has_consumer p cid w = do {
     pub \<leftarrow> deref (w_pubs w) p;
     Some (map_of (consumers_of pub) cid \<noteq> None)
   }"

definition insert_consumer :: "string \<Rightarrow> consumer_ref \<Rightarrow> publisher \<Rightarrow> publisher" where
  "insert_consumer cid i pub =
     (let m = (case pub_consumers pub of None \<Rightarrow> [] | Some m \<Rightarrow> m)
      in pub\<lparr>pub_consumers :=
        Some (AList.update cid \<lparr>cd_consumer = i, cd_sentVideoKeyFrame = False\<rparr> m)\<rparr>)"

definition pub_add_consumer ::
    "publisher_ref \<Rightarrow> consumer_ref \<Rightarrow> media_world \<Rightarrow> (media_err option \<times> media_world) option" where
  "pub_add_consumer p i w = do {
     c \<leftarrow> deref (w_cons w) i;
     known \<leftarrow> has_consumer p (wc_id c) w;
     if known then Some (Some ErrConsumerExists, w)
     else do {
       (e, w) \<leftarrow> send_initial_data p i w;
       (case e of
          Some e \<Rightarrow> Some (Some (ErrSendInitialData e), w)
        | None \<Rightarrow> do {
            w \<leftarrow> set_pub p (insert_consumer (wc_id c) i) w;
            Some (None, w)
          })
     }
   }"

definition pub_remove_consumer :: "publisher_ref \<Rightarrow> consumer_ref \<Rightarrow> media_world \<Rightarrow> media_world option" where
  "pub_remove_consumer p i w = stop_consumer p i w"

text \<open>\<open>Stop\<close> stops the consumers but leaves them in the map.\<close>

fun stop_each :: "(string \<times> consumer_data) list \<Rightarrow> string list \<Rightarrow> media_world \<Rightarrow> media_world option" where
  "stop_each cs [] w = Some w"
| "stop_each cs (cid # cids) w =
     (case map_of cs cid of
        None \<Rightarrow> stop_each cs cids w
      | Some d \<Rightarrow> do {
          w \<leftarrow> consumer_stop (cd_consumer d) w;
          stop_each cs cids w
        })"

definition pub_stop ::
    "(string list \<Rightarrow> string list) \<Rightarrow> publisher_ref \<Rightarrow> media_world \<Rightarrow> media_world option" where
  "pub_stop perm p w = do {
     pub \<leftarrow> deref (w_pubs w) p;
     stop_each (consumers_of pub) (perm (keys (consumers_of pub))) w
   }"

end
