(* ===== verification/PublisherInv.thy ===== *)
theory PublisherInv
  imports Publisher
begin

text \<open>
  The invariant of a publisher that may send: its consumers have distinct identifiers, each entry
  names a consumer object with that identifier, and no consumer in the map has been stopped, so no
  send meets a closed channel. The fan-out is described pointwise, independently of the order of
  the iteration.
\<close>

abbreviation cons_map :: "media_world \<Rightarrow> publisher_ref \<Rightarrow> (string \<times> consumer_data) list" where
  "cons_map w p \<equiv> consumers_of (w_pubs w ! p)"

definition members :: "media_world \<Rightarrow> publisher_ref \<Rightarrow> consumer_ref set" where
  "members w p = cd_consumer ` snd ` set (cons_map w p)"

definition entry_ok :: "media_world \<Rightarrow> string \<Rightarrow> consumer_data \<Rightarrow> bool" where
  "entry_ok w cid d \<longleftrightarrow> cd_consumer d < length (w_cons w) \<and> wc_id (w_cons w ! cd_consumer d) = cid
     \<and> \<not> closed_of w (cd_consumer d)"

definition pub_ok :: "media_world \<Rightarrow> publisher_ref \<Rightarrow> bool" where
  "pub_ok w p \<longleftrightarrow> p < length (w_pubs w) \<and> distinct (keys (cons_map w p))
     \<and> pub_consumers (w_pubs w ! p) \<noteq> Some []
     \<and> (\<forall>(cid, d) \<in> set (cons_map w p). entry_ok w cid d)"

text \<open>The state invariant, for the references \<open>H\<close> held by running code and the live publishers \<open>L\<close>.\<close>

definition live_ok :: "buf_ref multiset \<Rightarrow> publisher_ref set \<Rightarrow> media_world \<Rightarrow> bool" where
  "live_ok H L w \<longleftrightarrow> heap_ok H w \<and> consumers_ok w \<and> (\<forall>p \<in> L. pub_ok w p)
     \<and> (\<forall>p \<in> L. \<forall>q \<in> L. p \<noteq> q \<longrightarrow> members w p \<inter> members w q = {})"

lemma live_okD:
  assumes "live_ok H L w"
  shows "heap_ok H w" "consumers_ok w" "p \<in> L \<Longrightarrow> pub_ok w p"
    "p \<in> L \<Longrightarrow> q \<in> L \<Longrightarrow> p \<noteq> q \<Longrightarrow> members w p \<inter> members w q = {}"
  using assms unfolding live_ok_def by blast+

lemma pub_okD:
  assumes "pub_ok w p"
  shows "p < length (w_pubs w)" "distinct (keys (cons_map w p))"
    "pub_consumers (w_pubs w ! p) \<noteq> Some []"
    "(cid, d) \<in> set (cons_map w p) \<Longrightarrow> entry_ok w cid d"
    "map_of (cons_map w p) cid = Some d \<Longrightarrow> entry_ok w cid d"
  using assms map_of_SomeD [of "cons_map w p" cid d] unfolding pub_ok_def by auto

text \<open>Entries survive every step that keeps identifiers and closes none of the members.\<close>

lemma pub_ok_frame:
  assumes "pub_ok w p" and "length (w_pubs w') = length (w_pubs w)" and "w_pubs w' ! p = w_pubs w ! p"
    and "length (w_cons w) \<le> length (w_cons w')"
    and "\<And>i. i \<in> members w p \<Longrightarrow> wc_id (w_cons w' ! i) = wc_id (w_cons w ! i)"
    and "\<And>i. i \<in> members w p \<Longrightarrow> closed_of w' i = closed_of w i"
  shows "pub_ok w' p"
proof -
  have "entry_ok w' cid d" if "(cid, d) \<in> set (cons_map w p)" for cid d
  proof -
    have "cd_consumer d \<in> members w p" using that by (force simp: members_def)
    with pub_okD(4) [OF assms(1) that] assms(4-6) show ?thesis
      by (auto simp: entry_ok_def)
  qed
  with assms(1-3) show ?thesis by (auto simp: pub_ok_def)
qed

section \<open>What a message does to one consumer\<close>

definition takes :: "message \<Rightarrow> consumer_data \<Rightarrow> ws_consumer \<Rightarrow> bool" where
  "takes m d c \<longleftrightarrow> \<not> skips m d \<and> length (ch_queue (wc_messages c)) < ch_cap (wc_messages c)"

definition overflows :: "message \<Rightarrow> consumer_data \<Rightarrow> ws_consumer \<Rightarrow> bool" where
  "overflows m d c \<longleftrightarrow> \<not> skips m d \<and> \<not> length (ch_queue (wc_messages c)) < ch_cap (wc_messages c)"

definition data_out :: "message \<Rightarrow> consumer_data \<Rightarrow> ws_consumer \<Rightarrow> consumer_data" where
  "data_out m d c =
     (if takes m d c \<and> m_type m = MesgVideo \<and> is_key_frame m then d\<lparr>cd_sentVideoKeyFrame := True\<rparr> else d)"

definition push_message :: "message \<Rightarrow> ws_consumer \<Rightarrow> ws_consumer" where
  "push_message m c = c\<lparr>wc_messages := (wc_messages c)\<lparr>ch_queue := ch_queue (wc_messages c) @ [m]\<rparr>\<rparr>"

definition cons_out :: "message \<Rightarrow> consumer_data \<Rightarrow> ws_consumer \<Rightarrow> ws_consumer" where
  "cons_out m d c = (if takes m d c then push_message m c else c)"

lemma cd_consumer_data_out [simp]: "cd_consumer (data_out m d c) = cd_consumer d"
  by (simp add: data_out_def)

lemma cons_out_simps [simp]:
  "wc_id (cons_out m d c) = wc_id c" "ch_closed (wc_messages (cons_out m d c)) = ch_closed (wc_messages c)"
  by (simp_all add: cons_out_def push_message_def)

text \<open>The entry of the publisher's map that belongs to a consumer object, if there is one.\<close>

definition entry :: "media_world \<Rightarrow> publisher_ref \<Rightarrow> consumer_ref \<Rightarrow> consumer_data option" where
  "entry w p i =
     (case map_of (cons_map w p) (wc_id (w_cons w ! i)) of
        Some d \<Rightarrow> if cd_consumer d = i then Some d else None
      | None \<Rightarrow> None)"

lemma entry_member:
  assumes "pub_ok w p" and "map_of (cons_map w p) cid = Some d"
  shows "entry w p (cd_consumer d) = Some d"
  using pub_okD(5) [OF assms] assms(2) by (simp add: entry_def entry_ok_def)

lemma entry_none:
  assumes "pub_ok w p" and "i \<notin> members w p"
  shows "entry w p i = None"
proof (rule ccontr)
  assume "entry w p i \<noteq> None"
  then obtain d where "map_of (cons_map w p) (wc_id (w_cons w ! i)) = Some d" "cd_consumer d = i"
    by (auto simp: entry_def split: option.splits if_splits)
  then show False using assms(2) by (force simp: members_def dest: map_of_SomeD)
qed

text \<open>The fan-out of \<open>m\<close> over the identifiers \<open>cids\<close>, pointwise.\<close>

definition fan_entry ::
    "message \<Rightarrow> string list \<Rightarrow> media_world \<Rightarrow> string \<times> consumer_data \<Rightarrow> string \<times> consumer_data" where
  "fan_entry m cids w = (\<lambda>(x, d). (x, if x \<in> set cids then data_out m d (w_cons w ! cd_consumer d) else d))"

definition fan_rel :: "publisher_ref \<Rightarrow> message \<Rightarrow> string list \<Rightarrow> media_world \<Rightarrow> media_world \<Rightarrow> bool" where
  "fan_rel p m cids w w' \<longleftrightarrow>
     w_pubs w' = (w_pubs w)[p := (w_pubs w ! p)\<lparr>pub_consumers :=
       map_option (map (fan_entry m cids w)) (pub_consumers (w_pubs w ! p))\<rparr>]
     \<and> length (w_cons w') = length (w_cons w)
     \<and> (\<forall>i. w_cons w' ! i = (case entry w p i of
           Some d \<Rightarrow> if wc_id (w_cons w ! i) \<in> set cids then cons_out m d (w_cons w ! i) else w_cons w ! i
         | None \<Rightarrow> w_cons w ! i))
     \<and> w_chan w' = w_chan w"

lemma fan_relD:
  assumes "fan_rel p m cids w w'"
  shows "w_pubs w' = (w_pubs w)[p := (w_pubs w ! p)\<lparr>pub_consumers :=
       map_option (map (fan_entry m cids w)) (pub_consumers (w_pubs w ! p))\<rparr>]"
    "length (w_cons w') = length (w_cons w)" "w_chan w' = w_chan w"
    "w_cons w' ! i = (case entry w p i of
         Some d \<Rightarrow> if wc_id (w_cons w ! i) \<in> set cids then cons_out m d (w_cons w ! i) else w_cons w ! i
       | None \<Rightarrow> w_cons w ! i)"
  using assms unfolding fan_rel_def by blast+

lemma consumers_of_map [simp]:
  "consumers_of (pub\<lparr>pub_consumers := map_option (map f) (pub_consumers pub)\<rparr>) = map f (consumers_of pub)"
  by (cases "pub_consumers pub") simp_all

lemma fan_rel_cons_map:
  "p < length (w_pubs w) \<Longrightarrow> fan_rel p m cids w w' \<Longrightarrow>
     cons_map w' p = map (fan_entry m cids w) (cons_map w p)"
  by (simp add: fan_relD(1))

lemma keys_fan_entry [simp]: "keys (map (fan_entry m cids w) xs) = keys xs"
  by (simp add: fan_entry_def)

lemma fan_rel_closed: "fan_rel p m cids w w' \<Longrightarrow> closed_of w' i = closed_of w i"
  by (simp add: fan_relD(4) closed_of_def split: option.splits)

lemma fan_rel_id: "fan_rel p m cids w w' \<Longrightarrow> wc_id (w_cons w' ! i) = wc_id (w_cons w ! i)"
  by (simp add: fan_relD(4) split: option.splits)

lemma map_of_fan_entry:
  "map_of (map (fan_entry m cids w) xs) x =
     map_option (\<lambda>d. if x \<in> set cids then data_out m d (w_cons w ! cd_consumer d) else d) (map_of xs x)"
  by (induction xs) (auto simp: fan_entry_def)

lemma members_map_data:
  assumes "\<And>x d. (x, d) \<in> set xs \<Longrightarrow> cd_consumer (snd (f (x, d))) = cd_consumer d"
  shows "cd_consumer ` snd ` set (map f xs) = cd_consumer ` snd ` set xs"
  using assms by (force simp: image_image)

lemma fan_rel_members:
  assumes "p < length (w_pubs w)" and "fan_rel p m cids w w'"
  shows "members w' q = members w q"
proof (cases "q = p")
  case True
  then show ?thesis
    unfolding members_def fan_rel_cons_map [OF assms] True
    by (intro members_map_data) (simp add: fan_entry_def)
next
  case False
  then show ?thesis by (simp add: members_def fan_relD(1) [OF assms(2)])
qed

lemma fan_rel_pub_ok:
  assumes "pub_ok w p" and "fan_rel p m cids w w'"
  shows "pub_ok w' p"
proof -
  note p = pub_okD(1) [OF assms(1)]
  note cm = fan_rel_cons_map [OF p assms(2)]
  have keep: "entry_ok w' cid d'" if mem: "(cid, d') \<in> set (cons_map w' p)" for cid d'
  proof -
    obtain d where d: "(cid, d) \<in> set (cons_map w p)" "cd_consumer d' = cd_consumer d"
      using mem unfolding cm by (auto simp: fan_entry_def)
    from pub_okD(4) [OF assms(1) d(1)] show ?thesis
      using d(2) fan_rel_closed [OF assms(2)] fan_rel_id [OF assms(2)] fan_relD(2) [OF assms(2)]
      by (auto simp: entry_ok_def)
  qed
  have "pub_consumers (w_pubs w' ! p) \<noteq> Some []"
    using p pub_okD(3) [OF assms(1)] by (auto simp: fan_relD(1) [OF assms(2)])
  moreover have "distinct (keys (cons_map w' p))" "p < length (w_pubs w')"
    using pub_okD(2) [OF assms(1)] p by (simp_all add: cm fan_relD(1) [OF assms(2)])
  ultimately show ?thesis using keep unfolding pub_ok_def by blast
qed

section \<open>The fan-out computes the pointwise relation\<close>

lemma fan_entry_Nil [simp]: "fan_entry m [] w = id"
  by (auto simp: fan_entry_def)

lemma fan_rel_Nil [simp]: "fan_rel p m [] w w"
  by (simp add: fan_rel_def option.map_id list.map_id split: option.splits)

text \<open>One identifier, then the rest.\<close>

lemma fan_rel_Cons:
  assumes ok: "pub_ok w p" and one: "fan_rel p m [cid] w w1" and rest: "fan_rel p m cids w1 w'"
    and new: "cid \<notin> set cids"
  shows "fan_rel p m (cid # cids) w w'"
proof -
  note p = pub_okD(1) [OF ok]
  note cm = fan_rel_cons_map [OF p one]
  have ent: "entry w1 p i = map_option (\<lambda>d. if wc_id (w_cons w ! i) = cid then data_out m d (w_cons w ! i) else d)
      (entry w p i)" for i
  proof -
    show ?thesis
      unfolding entry_def cm fan_rel_id [OF one] map_of_fan_entry by (auto split: option.splits)
  qed
  have data: "fan_entry m cids w1 (fan_entry m [cid] w (x, d)) = fan_entry m (cid # cids) w (x, d)"
    if "(x, d) \<in> set (cons_map w p)" for x d
  proof -
    have "w_cons w1 ! cd_consumer d = w_cons w ! cd_consumer d" if "x \<noteq> cid"
      using pub_okD(4) [OF ok \<open>(x, d) \<in> set (cons_map w p)\<close>] that
      by (auto simp: fan_relD(4) [OF one] entry_ok_def split: option.splits)
    then show ?thesis using new by (auto simp: fan_entry_def)
  qed
  have "map_option (map (fan_entry m cids w1)) (map_option (map (fan_entry m [cid] w)) (pub_consumers (w_pubs w ! p)))
      = map_option (map (fan_entry m (cid # cids) w)) (pub_consumers (w_pubs w ! p))"
  proof (cases "pub_consumers (w_pubs w ! p)")
    case (Some xs)
    have "map (fan_entry m cids w1 \<circ> fan_entry m [cid] w) xs = map (fan_entry m (cid # cids) w) xs"
      using data Some by (intro map_cong) auto
    with Some show ?thesis by simp
  qed simp
  then have "w_pubs w' = (w_pubs w)[p := (w_pubs w ! p)\<lparr>pub_consumers :=
       map_option (map (fan_entry m (cid # cids) w)) (pub_consumers (w_pubs w ! p))\<rparr>]"
    using p by (simp add: fan_relD(1) [OF one] fan_relD(1) [OF rest])
  moreover have "w_cons w' ! i = (case entry w p i of
         Some d \<Rightarrow> if wc_id (w_cons w ! i) \<in> set (cid # cids) then cons_out m d (w_cons w ! i) else w_cons w ! i
       | None \<Rightarrow> w_cons w ! i)" for i
    using new by (auto simp: fan_relD(4) [OF rest] fan_relD(4) [OF one] ent fan_rel_id [OF one] split: option.splits)
  ultimately show ?thesis
    using fan_relD(2,3) [OF one] fan_relD(2,3) [OF rest] by (simp add: fan_rel_def)
qed

text \<open>The three things that can happen for one consumer.\<close>

lemma list_update_eqI:
  "length ys = length xs \<Longrightarrow> (\<And>j. ys ! j = (if j = i \<and> i < length xs then v else xs ! j)) \<Longrightarrow> ys = xs[i := v]"
  by (rule nth_equalityI) (auto simp: nth_list_update)

lemma fan_entry_single:
  assumes "pub_ok w p" and "map_of (cons_map w p) cid = Some d"
  shows "map (fan_entry m [cid] w) (cons_map w p) =
    AList.update cid (data_out m d (w_cons w ! cd_consumer d)) (cons_map w p)"
proof -
  have "cid \<in> set (keys (cons_map w p))" using assms(2) by (simp add: map_of_keys_Some)
  moreover have "e = d" if "(cid, e) \<in> set (cons_map w p)" for e
    using mem_map_of [OF pub_okD(2) [OF assms(1)] that] assms(2) by simp
  ultimately show ?thesis
    using pub_okD(2) [OF assms(1)] by (subst update_existing) (auto simp: fan_entry_def)
qed

lemma pub_consumers_Some:
  assumes "map_of (consumers_of pub) cid = Some d"
  obtains xs where "pub_consumers pub = Some xs" and "consumers_of pub = xs"
  using assms by (cases "pub_consumers pub") simp_all

lemma mark_sent_eq:
  assumes "distinct (keys (consumers_of pub))" and "map_of (consumers_of pub) cid = Some d"
    and "takes m d c"
  shows "mark_sent cid m d pub =
    pub\<lparr>pub_consumers := Some (AList.update cid (data_out m d c) (consumers_of pub))\<rparr>"
proof -
  have k: "cid \<in> set (keys (consumers_of pub))" using assms(2) by (simp add: map_of_keys_Some)
  have same: "AList.update cid d (consumers_of pub) = consumers_of pub"
    using mem_map_of [OF assms(1)] assms(2)
    by (subst update_existing [OF assms(1) k]) (auto intro!: map_idI)
  obtain xs where some: "pub_consumers pub = Some xs" "consumers_of pub = xs"
    by (rule pub_consumers_Some [OF assms(2)])
  show ?thesis
  proof (cases "m_type m = MesgVideo \<and> is_key_frame m \<and> \<not> cd_sentVideoKeyFrame d")
    case True
    then show ?thesis using assms(3) by (simp add: mark_sent_def data_out_def)
  next
    case False
    then have "data_out m d c = d" by (auto simp: data_out_def)
    with False same some show ?thesis by (auto simp: mark_sent_def)
  qed
qed

lemma fan_rel_same:
  assumes ok: "pub_ok w p" and d: "map_of (cons_map w p) cid = Some d"
    and not: "\<not> takes m d (w_cons w ! cd_consumer d)" and same: "same_objects w w1"
  shows "fan_rel p m [cid] w w1"
proof -
  let ?pub = "w_pubs w ! p"
  note p = pub_okD(1) [OF ok]
  obtain xs where some: "pub_consumers ?pub = Some xs" "cons_map w p = xs"
    by (rule pub_consumers_Some [OF d])
  have out: "data_out m d (w_cons w ! cd_consumer d) = d" using not by (simp add: data_out_def)
  have "cid \<in> set (keys (cons_map w p))" using d by (simp add: map_of_keys_Some)
  from update_existing [OF pub_okD(2) [OF ok] this, of d]
  have "map (fan_entry m [cid] w) (cons_map w p) = map (\<lambda>(x, e). (x, if x = cid then d else e)) (cons_map w p)"
    using fan_entry_single [OF ok d, of m] out by simp
  also have "\<dots> = cons_map w p"
    using mem_map_of [OF pub_okD(2) [OF ok]] d by (auto intro!: map_idI)
  finally have "map_option (map (fan_entry m [cid] w)) (pub_consumers ?pub) = pub_consumers ?pub"
    using some by simp
  then have "w_pubs w1 = (w_pubs w)[p := ?pub\<lparr>pub_consumers :=
      map_option (map (fan_entry m [cid] w)) (pub_consumers ?pub)\<rparr>]"
    using same by (simp add: same_objects_def)
  moreover have "e = d" if "entry w p i = Some e" "wc_id (w_cons w ! i) = cid" for i e
    using that d by (auto simp: entry_def split: if_splits)
  moreover have "i = cd_consumer e" if "entry w p i = Some e" for i e
    using that by (auto simp: entry_def split: option.splits if_splits)
  ultimately show ?thesis
    using not same by (auto simp: fan_rel_def same_objects_def cons_out_def split: option.splits)
qed

lemma fan_rel_push:
  assumes ok: "pub_ok w p" and d: "map_of (cons_map w p) cid = Some d"
    and tk: "takes m d (w_cons w ! cd_consumer d)"
    and w1: "w1 = w\<lparr>w_cons := (w_cons w)[cd_consumer d := push_message m (w_cons w ! cd_consumer d)],
      w_pubs := (w_pubs w)[p := mark_sent cid m d (w_pubs w ! p)]\<rparr>"
  shows "fan_rel p m [cid] w w1"
proof -
  let ?pub = "w_pubs w ! p" and ?i = "cd_consumer d"
  note eo = pub_okD(5) [OF ok d]
  obtain xs where some: "pub_consumers ?pub = Some xs" "cons_map w p = xs"
    by (rule pub_consumers_Some [OF d])
  have "w_pubs w1 = (w_pubs w)[p := ?pub\<lparr>pub_consumers :=
      map_option (map (fan_entry m [cid] w)) (pub_consumers ?pub)\<rparr>]"
    using mark_sent_eq [OF pub_okD(2) [OF ok] d tk] fan_entry_single [OF ok d, of m] some
    by (simp add: w1)
  moreover have "w_cons w1 ! i = (case entry w p i of
         Some e \<Rightarrow> if wc_id (w_cons w ! i) \<in> set [cid] then cons_out m e (w_cons w ! i) else w_cons w ! i
       | None \<Rightarrow> w_cons w ! i)" for i
  proof (cases "i = ?i")
    case True
    then show ?thesis
      using eo tk entry_member [OF ok d] by (simp add: w1 cons_out_def entry_ok_def)
  next
    case False
    then have "\<not> (wc_id (w_cons w ! i) = cid \<and> entry w p i \<noteq> None)"
      using d by (auto simp: entry_def)
    with False show ?thesis by (auto simp: w1 split: option.splits)
  qed
  ultimately show ?thesis by (simp add: fan_rel_def w1)
qed

lemma push_message_ok:
  "cons_ok c \<Longrightarrow> length (ch_queue (wc_messages c)) < ch_cap (wc_messages c) \<Longrightarrow> cons_ok (push_message m c)"
  by (auto simp: cons_ok_def push_message_def chan_ok_def)

lemma heap_ok_push:
  assumes ok: "heap_ok (add_mset (m_data m) H) w" and i: "i < length (w_cons w)"
  shows "heap_ok H (w\<lparr>w_cons := (w_cons w)[i := push_message m (w_cons w ! i)]\<rparr>)"
proof (rule heap_ok_cons [OF ok])
  fix a
  show "count H a + queued (w\<lparr>w_cons := (w_cons w)[i := push_message m (w_cons w ! i)]\<rparr>) a
      \<le> count (add_mset (m_data m) H) a + queued w a"
    using queued_update [OF i, of "push_message m (w_cons w ! i)" a]
    by (auto simp: push_message_def split: if_splits)
qed

text \<open>Changing only the map of consumers of a publisher changes no pin.\<close>

lemma heap_ok_pub_consumers:
  assumes ok: "heap_ok H w" and p: "p < length (w_pubs w)"
    and same: "pub_videoSeqHdr pub = pub_videoSeqHdr (w_pubs w ! p)"
      "pub_audioSeqHdr pub = pub_audioSeqHdr (w_pubs w ! p)" "pub_meta pub = pub_meta (w_pubs w ! p)"
  shows "heap_ok H (w\<lparr>w_pubs := (w_pubs w)[p := pub]\<rparr>)"
proof (rule heap_ok_pubs [OF ok p])
  fix a
  assume "pins pub a" and "\<not> pinned w a"
  with same p show "a < length (h_bufs w) \<and> count H a + queued w a + 1 \<le> sb_count (h_bufs w ! a)"
    by (auto simp: pinned_def pins_def list_ex_iff)
qed

lemma fan_out_step:
  assumes ok: "heap_ok (add_mset (m_data m) H) w" and cs: "consumers_ok w" and po: "pub_ok w p"
    and d: "map_of (cons_map w p) cid = Some d"
  obtains w1 where
    "fan_out p m (cid # cids) removed w = fan_out p m cids
       (removed @ (if overflows m d (w_cons w ! cd_consumer d) then [cd_consumer d] else [])) w1"
    "heap_ok H w1" "consumers_ok w1" "fan_rel p m [cid] w w1"
    "h_bufs w1 = (if skips m d then h_bufs (released (m_data m) w) else h_bufs w)"
proof -
  let ?i = "cd_consumer d"
  note p = pub_okD(1) [OF po] and eo = pub_okD(5) [OF po d]
  have i: "?i < length (w_cons w)" and nc: "\<not> ch_closed (wc_messages (w_cons w ! ?i))"
    using eo by (simp_all add: entry_ok_def closed_of_def)
  consider (skip) "skips m d" | (push) "takes m d (w_cons w ! ?i)" | (full) "overflows m d (w_cons w ! ?i)"
    by (auto simp: takes_def overflows_def)
  then show ?thesis
  proof cases
    case skip
    note so = same_objects_released [of w "m_data m"]
    have "fan_rel p m [cid] w (released (m_data m) w)"
      by (rule fan_rel_same [OF po d _ so]) (simp add: takes_def skip)
    then show ?thesis
      using skip p d heap_ok_release [OF ok] consumers_ok_cong [OF same_objectsD(1) [OF so]] cs
      by (intro that [of "released (m_data m) w"]) (simp_all add: overflows_def)
  next
    case push
    let ?c = "push_message m (w_cons w ! ?i)"
    let ?w0 = "w\<lparr>w_cons := (w_cons w)[?i := ?c]\<rparr>"
    let ?w1 = "?w0\<lparr>w_pubs := (w_pubs w)[p := mark_sent cid m d (w_pubs w ! p)]\<rparr>"
    have send: "send_to ?i m w = Some (True, ?w0)"
      using i nc push by (simp add: send_to_def try_send_def takes_def push_message_def)
    have "heap_ok H ?w0" by (rule heap_ok_push [OF ok i])
    then have "heap_ok H ?w1"
      using heap_ok_pub_consumers [of H ?w0 p "mark_sent cid m d (w_pubs w ! p)"] p
      by (simp add: mark_sent_def)
    moreover have "consumers_ok ?w1"
      using consumers_ok_update [OF cs, of ?c ?i] push_message_ok [OF consumers_okD [OF cs i]] push
      by (simp add: consumers_ok_def takes_def)
    moreover have "fan_rel p m [cid] w ?w1"
      by (rule fan_rel_push [OF po d push]) simp
    ultimately show ?thesis
      using p d push send
      by (intro that [of ?w1]) (auto simp: takes_def overflows_def set_pub_def)
  next
    case full
    have send: "send_to ?i m w = Some (False, w)"
      using i nc full by (simp add: send_to_def try_send_def overflows_def)
    have "fan_rel p m [cid] w w"
      by (rule fan_rel_same [OF po d]) (use full in \<open>auto simp: takes_def overflows_def\<close>)
    then show ?thesis
      using full p d send heap_ok_leak [OF ok, of H] cs
      by (intro that [of w]) (auto simp: overflows_def)
  qed
qed

text \<open>The consumers whose channel is full, in the order of the iteration.\<close>

definition overflowed :: "publisher_ref \<Rightarrow> message \<Rightarrow> string list \<Rightarrow> media_world \<Rightarrow> consumer_ref list" where
  "overflowed p m cids w = concat (map (\<lambda>cid. case map_of (cons_map w p) cid of
      Some d \<Rightarrow> if overflows m d (w_cons w ! cd_consumer d) then [cd_consumer d] else []
    | None \<Rightarrow> []) cids)"

definition skipped :: "publisher_ref \<Rightarrow> message \<Rightarrow> string list \<Rightarrow> media_world \<Rightarrow> nat" where
  "skipped p m cids w = length (filter (\<lambda>cid. case map_of (cons_map w p) cid of
      Some d \<Rightarrow> skips m d | None \<Rightarrow> False) cids)"

text \<open>What one step leaves for the others.\<close>

lemma fan_rel_others:
  assumes po: "pub_ok w p" and rel: "fan_rel p m [cid] w w1" and "x \<noteq> cid"
    and d: "map_of (cons_map w p) x = Some d"
  shows "map_of (cons_map w1 p) x = Some d" and "w_cons w1 ! cd_consumer d = w_cons w ! cd_consumer d"
  using fan_rel_cons_map [OF pub_okD(1) [OF po] rel] d assms(3) pub_okD(5) [OF po d] fan_relD(4) [OF rel]
  by (auto simp: map_of_fan_entry entry_ok_def split: option.splits)

lemma fan_rel_map_of_None:
  "pub_ok w p \<Longrightarrow> fan_rel p m cids w w1 \<Longrightarrow> map_of (cons_map w1 p) x = None \<longleftrightarrow> map_of (cons_map w p) x = None"
  by (simp add: fan_rel_cons_map [OF pub_okD(1)] map_of_fan_entry)

lemma overflowed_rest:
  assumes po: "pub_ok w p" and rel: "fan_rel p m [cid] w w1" and new: "cid \<notin> set cids"
  shows "overflowed p m cids w1 = overflowed p m cids w" and "skipped p m cids w1 = skipped p m cids w"
proof -
  have "map_of (cons_map w1 p) x = map_of (cons_map w p) x
      \<and> (\<forall>d. map_of (cons_map w p) x = Some d \<longrightarrow> w_cons w1 ! cd_consumer d = w_cons w ! cd_consumer d)"
    if "x \<in> set cids" for x
    using that new fan_rel_others [OF po rel, of x] fan_rel_map_of_None [OF po rel, of x]
    by (cases "map_of (cons_map w p) x") auto
  then show "overflowed p m cids w1 = overflowed p m cids w" "skipped p m cids w1 = skipped p m cids w"
    unfolding overflowed_def skipped_def
    by (auto intro!: arg_cong [of _ _ concat] arg_cong [of _ _ length] filter_cong split: option.splits)
qed

text \<open>How often the buffer of the message was released during the fan-out.\<close>

fun released_times :: "nat \<Rightarrow> buf_ref \<Rightarrow> shared_buffer list \<Rightarrow> shared_buffer list" where
  "released_times 0 a bs = bs"
| "released_times (Suc n) a bs = released_times n a
     (bs[a := (bs ! a)\<lparr>sb_refs := sb_refs (bs ! a) - 1, sb_len := (if sb_count (bs ! a) = 1 then 0 else sb_len (bs ! a))\<rparr>])"

lemma h_bufs_released: "h_bufs (released a w) = released_times 1 a (h_bufs w)"
  by (simp add: released_def Let_def)

lemma released_times_add: "released_times (j + k) a bs = released_times k a (released_times j a bs)"
  by (induction j arbitrary: bs) simp_all

lemma fan_out_ok:
  assumes "heap_ok (H + replicate_mset (length cids) (m_data m)) w" and "consumers_ok w" and "pub_ok w p"
    and "distinct cids" and "set cids \<subseteq> set (keys (cons_map w p))"
  shows "\<exists>w'. fan_out p m cids removed w = Some (removed @ overflowed p m cids w, w')
    \<and> heap_ok H w' \<and> consumers_ok w' \<and> fan_rel p m cids w w'
    \<and> h_bufs w' = released_times (skipped p m cids w) (m_data m) (h_bufs w)"
  using assms
proof (induction cids arbitrary: w removed)
  case Nil
  then show ?case by (simp add: overflowed_def skipped_def)
next
  case (Cons cid cids)
  obtain d where d: "map_of (cons_map w p) cid = Some d"
    using Cons.prems(5) by (auto simp: map_of_keys_Some)
  let ?r = "if overflows m d (w_cons w ! cd_consumer d) then [cd_consumer d] else []"
  have ok1: "heap_ok (add_mset (m_data m) (H + replicate_mset (length cids) (m_data m))) w"
    using Cons.prems(1) by simp
  obtain w1 where w1: "fan_out p m (cid # cids) removed w = fan_out p m cids (removed @ ?r) w1"
    "heap_ok (H + replicate_mset (length cids) (m_data m)) w1" "consumers_ok w1" "fan_rel p m [cid] w w1"
    "h_bufs w1 = (if skips m d then h_bufs (released (m_data m) w) else h_bufs w)"
    by (rule fan_out_step [OF ok1 Cons.prems(2,3) d, where cids = cids and removed = removed])
  have sub: "set cids \<subseteq> set (keys (cons_map w1 p))"
    using Cons.prems(5) fan_rel_cons_map [OF pub_okD(1) [OF Cons.prems(3)] w1(4)] by simp
  note po1 = fan_rel_pub_ok [OF Cons.prems(3) w1(4)]
  have new: "cid \<notin> set cids" and dist: "distinct cids" using Cons.prems(4) by simp_all
  from Cons.IH [OF w1(2,3) po1 dist sub, of "removed @ ?r"] obtain w' where
    w': "fan_out p m cids (removed @ ?r) w1 = Some ((removed @ ?r) @ overflowed p m cids w1, w')"
    "heap_ok H w'" "consumers_ok w'" "fan_rel p m cids w1 w'"
    "h_bufs w' = released_times (skipped p m cids w1) (m_data m) (h_bufs w1)" by blast
  note orest = overflowed_rest [OF Cons.prems(3) w1(4) new]
  have "(removed @ ?r) @ overflowed p m cids w1 = removed @ overflowed p m (cid # cids) w"
    unfolding orest by (simp add: overflowed_def d)
  moreover have "h_bufs w' = released_times (skipped p m (cid # cids) w) (m_data m) (h_bufs w)"
    unfolding w'(5) w1(5) orest by (simp add: skipped_def d h_bufs_released)
  ultimately show ?case
    using w1(1) w' fan_rel_Cons [OF Cons.prems(3) w1(4) w'(4) new] by auto
qed

end
