(* ===== verification/PublisherSend.thy ===== *)
theory PublisherSend
  imports PublisherInv
begin

text \<open>
  The operations of a live publisher: stopping consumers, keeping a sequence header, sending a
  message to everybody, sending meta data. Each lemma gives the result of the operation outright
  and says that the state invariant is kept.
\<close>

section \<open>Stopping consumers\<close>

definition stopped :: "ws_consumer \<Rightarrow> ws_consumer" where
  "stopped c = (if wc_stopped c = 0
     then c\<lparr>wc_stopped := 1, wc_messages := (wc_messages c)\<lparr>ch_closed := True\<rparr>\<rparr> else c)"

lemma stop_consumer_obj_eq: "cons_ok c \<Longrightarrow> stop_consumer_obj c = Some (stopped c)"
  by (auto simp: stop_consumer_obj_def stopped_def close_chan_def cons_ok_def)

lemma stopped_ok: "cons_ok c \<Longrightarrow> cons_ok (stopped c) \<and> ch_closed (wc_messages (stopped c))"
  by (auto simp: stopped_def cons_ok_def chan_ok_def)

lemma stopped_simps [simp]:
  "wc_id (stopped c) = wc_id c" "wc_pubID (stopped c) = wc_pubID c" "wc_conn (stopped c) = wc_conn c"
  "ch_queue (wc_messages (stopped c)) = ch_queue (wc_messages c)"
  "ch_cap (wc_messages (stopped c)) = ch_cap (wc_messages c)"
  by (simp_all add: stopped_def)

lemma consumer_stop_eq:
  "consumers_ok w \<Longrightarrow> i < length (w_cons w) \<Longrightarrow>
     consumer_stop i w = Some (w\<lparr>w_cons := (w_cons w)[i := stopped (w_cons w ! i)]\<rparr>)"
  by (simp add: consumer_stop_def stop_consumer_obj_eq consumers_okD)

lemma cons_map_drop:
  "consumers_of (drop_consumer cid pub) = filter (\<lambda>(x, d). x \<noteq> cid) (consumers_of pub)"
proof -
  have "AList.delete cid m = filter (\<lambda>(x, d). x \<noteq> cid) m" for m :: "(string \<times> consumer_data) list"
    by (induction m) auto
  then show ?thesis by (simp add: drop_consumer_def Let_def)
qed

lemma drop_consumer_simps [simp]:
  "pub_consumers (drop_consumer cid pub) \<noteq> Some []" "pub_id (drop_consumer cid pub) = pub_id pub"
  "pub_videoSeqHdr (drop_consumer cid pub) = pub_videoSeqHdr pub"
  "pub_audioSeqHdr (drop_consumer cid pub) = pub_audioSeqHdr pub"
  "pub_meta (drop_consumer cid pub) = pub_meta pub"
  by (simp_all add: drop_consumer_def Let_def)

lemma distinct_keys_filter: "distinct (keys m) \<Longrightarrow> distinct (keys (filter P m))"
  by (induction m) (auto simp: keys_def)

definition after_stop :: "publisher_ref \<Rightarrow> consumer_ref \<Rightarrow> media_world \<Rightarrow> media_world" where
  "after_stop p i w = w\<lparr>w_pubs := (w_pubs w)[p := drop_consumer (wc_id (w_cons w ! i)) (w_pubs w ! p)],
     w_cons := (w_cons w)[i := stopped (w_cons w ! i)]\<rparr>"

lemma after_stop_members: "p < length (w_pubs w) \<Longrightarrow> members (after_stop p i w) q \<subseteq> members w q"
  by (cases "q = p") (auto simp: members_def after_stop_def cons_map_drop)

lemma after_stop_pub_ok:
  assumes "pub_ok w p" and "i < length (w_cons w)"
  shows "pub_ok (after_stop p i w) p"
proof -
  let ?w = "after_stop p i w" and ?cid = "wc_id (w_cons w ! i)"
  note p = pub_okD(1) [OF assms(1)]
  have cm: "cons_map ?w p = filter (\<lambda>(x, d). x \<noteq> ?cid) (cons_map w p)"
    using p by (simp add: after_stop_def cons_map_drop)
  have "entry_ok ?w x d" if "(x, d) \<in> set (cons_map ?w p)" for x d
  proof -
    from that have "(x, d) \<in> set (cons_map w p)" "x \<noteq> ?cid" by (auto simp: cm)
    with pub_okD(4) [OF assms(1) this(1)] have "cd_consumer d \<noteq> i" and "entry_ok w x d"
      by (auto simp: entry_ok_def)
    then show ?thesis by (simp add: entry_ok_def after_stop_def closed_of_def)
  qed
  then show ?thesis
    using p distinct_keys_filter [OF pub_okD(2) [OF assms(1)]] cm
    unfolding pub_ok_def by (auto simp: after_stop_def)
qed

lemma stop_consumer_ok:
  assumes ok: "live_ok H L w" and p: "p \<in> L" and i: "i < length (w_cons w)"
    and mine: "\<And>q. q \<in> L \<Longrightarrow> q \<noteq> p \<Longrightarrow> i \<notin> members w q"
  shows "stop_consumer p i w = Some (after_stop p i w)" and "live_ok H L (after_stop p i w)"
proof -
  let ?w = "after_stop p i w"
  note L = live_okD [OF ok] and po = live_okD(3) [OF ok p]
  let ?u = "w\<lparr>w_pubs := (w_pubs w)[p := drop_consumer (wc_id (w_cons w ! i)) (w_pubs w ! p)]\<rparr>"
  have cs0: "consumers_ok ?u" using L(2) by (simp add: consumers_ok_def)
  have "set_pub p (drop_consumer (wc_id (w_cons w ! i))) w = Some ?u"
    using pub_okD(1) [OF po] by (simp add: set_pub_def)
  moreover have "consumer_stop i ?u = Some ?w"
    using consumer_stop_eq [OF cs0, of i] i by (simp add: after_stop_def)
  ultimately show "stop_consumer p i w = Some ?w"
    using i by (simp add: stop_consumer_def)
  have "heap_ok H ?u"
    by (rule heap_ok_pub_consumers [OF L(1) pub_okD(1) [OF po]]) simp_all
  then have "heap_ok H ?w"
    using heap_ok_same_queue [of H ?u i "stopped (w_cons w ! i)"] i by (simp add: after_stop_def)
  moreover have "consumers_ok ?w"
    using consumers_ok_update [OF cs0, of "stopped (w_cons w ! i)" i] stopped_ok [OF consumers_okD [OF L(2) i]]
    by (simp add: after_stop_def)
  moreover have "pub_ok ?w q" if "q \<in> L" for q
  proof (cases "q = p")
    case True
    then show ?thesis using after_stop_pub_ok [OF po i] by simp
  next
    case False
    have other: "w_cons ?w ! j = w_cons w ! j" if "j \<in> members w q" for j
    proof -
      have "j \<noteq> i" using mine [OF \<open>q \<in> L\<close> False] that by auto
      then show ?thesis by (simp add: after_stop_def)
    qed
    show ?thesis
      by (rule pub_ok_frame [OF L(3) [OF that]])
        (use False other in \<open>auto simp: closed_of_def\<close>, simp_all add: after_stop_def)
  qed
  moreover have "members ?w q \<inter> members ?w r = {}" if "q \<in> L" "r \<in> L" "q \<noteq> r" for q r
    using L(4) [OF that] after_stop_members [OF pub_okD(1) [OF po]] by blast
  ultimately show "live_ok H L ?w" unfolding live_ok_def by blast
qed

lemma stop_consumers_ok:
  assumes "live_ok H L w" and "p \<in> L" and "set is \<subseteq> members w p" and "distinct is"
  shows "\<exists>w'. stop_consumers p is w = Some w' \<and> live_ok H L w'
    \<and> cons_map w' p = filter (\<lambda>(x, d). cd_consumer d \<notin> set is) (cons_map w p)
    \<and> (\<forall>i. w_cons w' ! i = (if i \<in> set is then stopped (w_cons w ! i) else w_cons w ! i))
    \<and> length (w_cons w') = length (w_cons w) \<and> length (w_pubs w') = length (w_pubs w)
    \<and> (\<forall>q. q \<noteq> p \<longrightarrow> w_pubs w' ! q = w_pubs w ! q) \<and> w_chan w' = w_chan w
    \<and> h_bufs w' = h_bufs w \<and> h_pools w' = h_pools w
    \<and> (\<exists>m. w_pubs w' ! p = (w_pubs w ! p)\<lparr>pub_consumers := m\<rparr>)"
  using assms
proof (induction "is" arbitrary: w)
  case Nil
  have "w_pubs w ! p = (w_pubs w ! p)\<lparr>pub_consumers := pub_consumers (w_pubs w ! p)\<rparr>" by simp
  then have "\<exists>m. w_pubs w ! p = (w_pubs w ! p)\<lparr>pub_consumers := m\<rparr>" by (rule exI)
  with Nil show ?case by simp
next
  case (Cons i "is")
  let ?w = "after_stop p i w" and ?cid = "wc_id (w_cons w ! i)"
  note po = live_okD(3) [OF Cons.prems(1,2)]
  note p = pub_okD(1) [OF po]
  obtain cid d where d: "(cid, d) \<in> set (cons_map w p)" "cd_consumer d = i"
    using Cons.prems(3) by (auto simp: members_def)
  with pub_okD(4) [OF po d(1)] have i: "i < length (w_cons w)" and cid: "cid = ?cid"
    by (simp_all add: entry_ok_def)
  have mine: "i \<notin> members w q" if "q \<in> L" "q \<noteq> p" for q
    using live_okD(4) [OF Cons.prems(1) that(1) Cons.prems(2) that(2)] Cons.prems(3) by auto
  note st = stop_consumer_ok [OF Cons.prems(1,2) i mine]
  have same_id: "x = ?cid \<longleftrightarrow> cd_consumer e = i" if "(x, e) \<in> set (cons_map w p)" for x e
  proof
    assume "x = ?cid"
    then show "cd_consumer e = i"
      using mem_map_of [OF pub_okD(2) [OF po] that] mem_map_of [OF pub_okD(2) [OF po] d(1)] d(2) cid by simp
  next
    assume "cd_consumer e = i"
    then show "x = ?cid" using pub_okD(4) [OF po that] by (simp add: entry_ok_def)
  qed
  have cm: "cons_map ?w p = filter (\<lambda>(x, e). cd_consumer e \<noteq> i) (cons_map w p)"
    using p same_id by (auto simp: after_stop_def cons_map_drop intro!: filter_cong)
  have "set is \<subseteq> members ?w p"
    using Cons.prems(3,4) by (fastforce simp: members_def cm)
  from Cons.IH [OF st(2) Cons.prems(2) this] Cons.prems(4) obtain w' where
    w': "stop_consumers p is ?w = Some w'" "live_ok H L w'"
    "cons_map w' p = filter (\<lambda>(x, d). cd_consumer d \<notin> set is) (cons_map ?w p)"
    "\<forall>j. w_cons w' ! j = (if j \<in> set is then stopped (w_cons ?w ! j) else w_cons ?w ! j)"
    "length (w_cons w') = length (w_cons ?w)" "length (w_pubs w') = length (w_pubs ?w)"
    "\<forall>q. q \<noteq> p \<longrightarrow> w_pubs w' ! q = w_pubs ?w ! q" "w_chan w' = w_chan ?w"
    "h_bufs w' = h_bufs ?w" "h_pools w' = h_pools ?w"
    "\<exists>m. w_pubs w' ! p = (w_pubs ?w ! p)\<lparr>pub_consumers := m\<rparr>" by auto
  have "cons_map w' p = filter (\<lambda>(x, d). cd_consumer d \<notin> set (i # is)) (cons_map w p)"
    by (auto simp: w'(3) cm intro!: filter_cong)
  moreover have "w_cons w' ! j = (if j \<in> set (i # is) then stopped (w_cons w ! j) else w_cons w ! j)" for j
    using w'(4) i Cons.prems(4) by (auto simp: after_stop_def nth_list_update)
  moreover have "\<exists>m. w_pubs w' ! p = (w_pubs w ! p)\<lparr>pub_consumers := m\<rparr>"
    using w'(11) p by (auto simp: after_stop_def drop_consumer_def Let_def)
  ultimately show ?case
    using st(1) w' by (simp add: after_stop_def)
qed

end
