(* ===== verification/PublisherOps.thy ===== *)
theory PublisherOps
  imports PublisherSend
begin

text \<open>
  Keeping a sequence header and sending a message or meta data to everybody, as whole operations.
  Each lemma gives the outcome outright, independently of the order in which the map of consumers is
  iterated, and says that the state invariant is kept.
\<close>

section \<open>Keeping a sequence header\<close>

definition held_copy :: "shared_buffer \<Rightarrow> shared_buffer" where
  "held_copy b = \<lparr>sb_pool = sb_pool b, sb_buf = sb_bytes b, sb_refs = 1, sb_len = sb_len b\<rparr>"

lemma held_copy_simps [simp]:
  "sb_ok (held_copy b) \<longleftrightarrow> sb_len b \<le> length (sb_bytes b)" "sb_count (held_copy b) = 1"
  "sb_pool (held_copy b) = sb_pool b" "sb_len (held_copy b) = sb_len b"
  by (simp_all add: held_copy_def sb_ok_def sb_count_def)

lemma held_copy_bytes: "sb_ok b \<Longrightarrow> sb_bytes (held_copy b) = sb_bytes b"
  by (simp add: held_copy_def) (simp add: sb_bytes_def sb_ok_def)

text \<open>A buffer that is new, has one reference and is kept by a publisher.\<close>

lemma heap_ok_new_pin:
  assumes ok: "heap_ok H w" and p: "p < length (w_pubs w)" and b: "sb_ok b" "sb_count b = 1"
    and pins: "\<And>a. pins pub a \<Longrightarrow> pins (w_pubs w ! p) a \<or> a = length (h_bufs w)"
  shows "heap_ok H (w\<lparr>h_bufs := h_bufs w @ [b], w_pubs := (w_pubs w)[p := pub]\<rparr>)"
proof -
  let ?w = "w\<lparr>h_bufs := h_bufs w @ [b]\<rparr>"
  have ok1: "heap_ok H ?w"
    by (rule heap_ok_alloc [OF ok b(1)]) (simp_all add: b ref_limit_def)
  have "heap_ok H (?w\<lparr>w_pubs := (w_pubs ?w)[p := pub]\<rparr>)"
  proof (rule heap_ok_pubs [OF ok1])
    show "p < length (w_pubs ?w)" using p by simp
    fix a assume a: "pins pub a" "\<not> pinned ?w a"
    have "a = length (h_bufs w)"
      using pins [OF a(1)] a(2) p by (auto simp: pinned_def list_ex_iff)
    then show "a < length (h_bufs ?w) \<and> count H a + queued ?w a + 1 \<le> sb_count (h_bufs ?w ! a)"
      using heap_ok_fresh [OF ok, of a] b by simp
  qed
  then show ?thesis by simp
qed

definition is_seq_header :: "message \<Rightarrow> bool" where
  "is_seq_header m \<longleftrightarrow> m_type m = MesgVideoSeqHdr \<or> m_type m = MesgAudioSeqHdr"

definition keep_header :: "message \<Rightarrow> buf_ref \<Rightarrow> publisher \<Rightarrow> publisher" where
  "keep_header m a pub =
     (if m_type m = MesgVideoSeqHdr then pub\<lparr>pub_videoSeqHdr := Some a\<rparr>
      else if m_type m = MesgAudioSeqHdr then pub\<lparr>pub_audioSeqHdr := Some a\<rparr>
      else pub)"

definition after_store :: "publisher_ref \<Rightarrow> message \<Rightarrow> media_world \<Rightarrow> media_world" where
  "after_store p m w =
     (if is_seq_header m
      then w\<lparr>h_bufs := h_bufs w @ [held_copy (h_bufs w ! m_data m)],
             w_pubs := (w_pubs w)[p := keep_header m (length (h_bufs w)) (w_pubs w ! p)]\<rparr>
      else w)"

lemma keep_header_simps [simp]:
  "pub_id (keep_header m a pub) = pub_id pub" "pub_consumers (keep_header m a pub) = pub_consumers pub"
  "pub_meta (keep_header m a pub) = pub_meta pub"
  "consumers_of (keep_header m a pub) = consumers_of pub"
  by (simp_all add: keep_header_def consumers_of_def)

lemma pins_keep_header: "pins (keep_header m a pub) x \<Longrightarrow> pins pub x \<or> x = a"
  by (auto simp: pins_def keep_header_def split: if_splits)

lemma after_store_simps [simp]:
  "w_cons (after_store p m w) = w_cons w" "w_chan (after_store p m w) = w_chan w"
  "h_pools (after_store p m w) = h_pools w" "length (w_pubs (after_store p m w)) = length (w_pubs w)"
  by (simp_all add: after_store_def)

lemma after_store_cons_map [simp]:
  "p < length (w_pubs w) \<Longrightarrow> cons_map (after_store p m w) q = cons_map w q"
  by (cases "q = p") (simp_all add: after_store_def)

lemma after_store_consumers [simp]:
  "p < length (w_pubs w) \<Longrightarrow> pub_consumers (w_pubs (after_store p m w) ! q) = pub_consumers (w_pubs w ! q)"
  by (cases "q = p") (simp_all add: after_store_def)

lemma live_ok_cong:
  assumes "live_ok H L w" and "heap_ok H' w'" and "w_cons w' = w_cons w"
    and "length (w_pubs w') = length (w_pubs w)"
    and "\<And>q. pub_consumers (w_pubs w' ! q) = pub_consumers (w_pubs w ! q)"
  shows "live_ok H' L w'"
proof -
  note L = live_okD [OF assms(1)]
  have cm: "cons_map w' q = cons_map w q" for q using assms(5) by (simp add: consumers_of_def)
  have "pub_ok w' q" if "q \<in> L" for q
    using L(3) [OF that] assms(3,4) cm assms(5) unfolding pub_ok_def entry_ok_def closed_of_def by simp
  moreover have "consumers_ok w'" using L(2) assms(3) by (simp add: consumers_ok_def)
  moreover have "members w' q = members w q" for q by (simp add: members_def cm)
  ultimately show ?thesis using assms(2) L(4) unfolding live_ok_def by simp
qed

lemma hold_buffer_copy:
  assumes "a < length (h_bufs w)" and "sb_ok (h_bufs w ! a)"
  shows "hold_buffer a True w =
    Some (length (h_bufs w), w\<lparr>h_bufs := h_bufs w @ [held_copy (h_bufs w ! a)]\<rparr>)"
  using assms
  by (simp add: hold_buffer_def sb_copy_slice_eq alloc_buf_def h_acquire_def sb_acquire_def held_copy_def
      length_sb_bytes)

lemma store_seq_header_ok:
  assumes ok: "live_ok H L w" and p: "p \<in> L" and a: "m_data m < length (h_bufs w)"
  shows "store_seq_header p m w = Some (after_store p m w)" and "live_ok H L (after_store p m w)"
proof -
  note L = live_okD [OF ok] and pl = pub_okD(1) [OF live_okD(3) [OF ok p]]
  note b = heap_okD(1) [OF L(1) a]
  show "store_seq_header p m w = Some (after_store p m w)"
    using hold_buffer_copy [OF a b] pl
    by (auto simp: store_seq_header_def set_pub_def after_store_def is_seq_header_def keep_header_def mesg_types)
  have "heap_ok H (after_store p m w)"
  proof (cases "is_seq_header m")
    case True
    then show ?thesis
      using heap_ok_new_pin [OF L(1) pl, of "held_copy (h_bufs w ! m_data m)"
          "keep_header m (length (h_bufs w)) (w_pubs w ! p)"] b pins_keep_header length_sb_bytes [OF b]
      by (simp add: after_store_def)
  next
    case False
    then show ?thesis using L(1) by (simp add: after_store_def)
  qed
  then show "live_ok H L (after_store p m w)"
    by (rule live_ok_cong [OF ok]) (simp_all add: pl)
qed

section \<open>Sending a message to everybody\<close>

lemma released_times_held:
  assumes "k < sb_count (bs ! a)"
  shows "released_times k a bs = bs[a := (bs ! a)\<lparr>sb_refs := sb_refs (bs ! a) - of_nat k\<rparr>]"
  using assms
proof (induction k arbitrary: bs)
  case 0
  then show ?case by simp
next
  case (Suc k)
  show ?case
  proof (cases "a < length bs")
    case True
    let ?b = "bs ! a" and ?bs = "bs[a := (bs ! a)\<lparr>sb_refs := sb_refs (bs ! a) - 1\<rparr>]"
    have "released_times (Suc k) a bs = released_times k a ?bs"
      using Suc.prems by simp
    moreover have "sb_count (?bs ! a) = sb_count ?b - 1"
      using True Suc.prems unat_minus_one32 [of "sb_refs ?b"] by (simp add: sb_count_def)
    ultimately show ?thesis using Suc.IH [of ?bs] Suc.prems True by (simp add: algebra_simps)
  next
    case False
    then have "released_times n a bs = bs" for n by (induction n) (simp_all add: list_update_beyond)
    then show ?thesis using False by (simp add: list_update_beyond)
  qed
qed

text \<open>Who is skipped or full, read off the map of consumers instead of the order of iteration.\<close>

definition full_members :: "publisher_ref \<Rightarrow> message \<Rightarrow> media_world \<Rightarrow> consumer_ref set" where
  "full_members p m w = {cd_consumer d | x d. (x, d) \<in> set (cons_map w p) \<and> overflows m d (w_cons w ! cd_consumer d)}"

lemma same_member:
  assumes "pub_ok w p" and "(x, d) \<in> set (cons_map w p)" and "(y, e) \<in> set (cons_map w p)"
    and "cd_consumer d = cd_consumer e"
  shows "x = y \<and> d = e"
proof -
  have "x = y" using pub_okD(4) [OF assms(1,2)] pub_okD(4) [OF assms(1,3)] assms(4) by (simp add: entry_ok_def)
  then show ?thesis
    using mem_map_of [OF pub_okD(2) [OF assms(1)]] assms(2,3) by (metis option.inject)
qed

lemma full_members_iff:
  "pub_ok w p \<Longrightarrow> (x, d) \<in> set (cons_map w p) \<Longrightarrow>
     cd_consumer d \<in> full_members p m w \<longleftrightarrow> overflows m d (w_cons w ! cd_consumer d)"
  by (auto simp: full_members_def dest: same_member)

lemma overflowed_mem:
  "i \<in> set (overflowed p m cids w) \<longleftrightarrow> (\<exists>x d. x \<in> set cids \<and> map_of (cons_map w p) x = Some d
     \<and> overflows m d (w_cons w ! cd_consumer d) \<and> i = cd_consumer d)"
proof (induction cids)
  case Nil
  then show ?case by (simp add: overflowed_def)
next
  case (Cons c cids)
  have "set (overflowed p m (c # cids) w) = set (case map_of (cons_map w p) c of
      Some d \<Rightarrow> if overflows m d (w_cons w ! cd_consumer d) then [cd_consumer d] else []
    | None \<Rightarrow> []) \<union> set (overflowed p m cids w)" by (simp add: overflowed_def)
  with Cons.IH show ?case by (cases "map_of (cons_map w p) c") auto
qed

lemma overflowed_set:
  assumes po: "pub_ok w p" and cids: "mset cids = mset (keys (cons_map w p))"
  shows "set (overflowed p m cids w) = full_members p m w" and "distinct (overflowed p m cids w)"
proof -
  have sub: "set cids = set (keys (cons_map w p))" using cids by (rule mset_eq_setD)
  have dist: "distinct cids"
    using mset_eq_imp_distinct_iff [OF cids] pub_okD(2) [OF po] by simp
  have "i \<in> set (overflowed p m cids w) \<longleftrightarrow> i \<in> full_members p m w" for i
  proof -
    have "(x, d) \<in> set (cons_map w p) \<longleftrightarrow> x \<in> set cids \<and> map_of (cons_map w p) x = Some d" for x d
      using pub_okD(2) [OF po] unfolding sub map_of_keys_Some by (auto simp: keys_def)
    then show ?thesis unfolding overflowed_mem full_members_def by auto
  qed
  then show "set (overflowed p m cids w) = full_members p m w" by blast
  have id: "i \<in> set (overflowed p m cs w) \<Longrightarrow> wc_id (w_cons w ! i) \<in> set cs" for i cs
    unfolding overflowed_mem using pub_okD(5) [OF po] by (auto simp: entry_ok_def)
  have step: "overflowed p m (x # cs) w = (case map_of (cons_map w p) x of
      Some d \<Rightarrow> if overflows m d (w_cons w ! cd_consumer d) then [cd_consumer d] else []
    | None \<Rightarrow> []) @ overflowed p m cs w" for x cs by (simp add: overflowed_def)
  show "distinct (overflowed p m cids w)"
    using dist
  proof (induction cids)
    case Nil
    then show ?case by (simp add: overflowed_def)
  next
    case (Cons x cs)
    then have IH: "distinct (overflowed p m cs w)" and new: "x \<notin> set cs" by simp_all
    show ?case
    proof (cases "map_of (cons_map w p) x")
      case None
      with IH show ?thesis by (simp add: step)
    next
      case (Some d)
      have "cd_consumer d \<notin> set (overflowed p m cs w)"
        using id [of "cd_consumer d" cs] new pub_okD(5) [OF po Some] by (auto simp: entry_ok_def)
      with IH Some show ?thesis by (simp add: step)
    qed
  qed
qed

lemma skipped_count:
  assumes po: "pub_ok w p" and cids: "mset cids = mset (keys (cons_map w p))"
  shows "skipped p m cids w = length (filter (\<lambda>(x, d). skips m d) (cons_map w p))"
proof -
  let ?f = "\<lambda>cid. case map_of (cons_map w p) cid of Some d \<Rightarrow> skips m d | None \<Rightarrow> False"
  have "mset (filter ?f cids) = mset (filter ?f (keys (cons_map w p)))"
    using cids by (simp only: mset_filter)
  then have "skipped p m cids w = length (filter ?f (keys (cons_map w p)))"
    unfolding skipped_def by (rule mset_eq_length)
  also have "\<dots> = length (filter (?f \<circ> fst) (cons_map w p))"
    by (simp add: keys_def filter_map)
  also have "filter (?f \<circ> fst) (cons_map w p) = filter (\<lambda>(x, d). skips m d) (cons_map w p)"
    using mem_map_of [OF pub_okD(2) [OF po]] by (intro filter_cong) auto
  finally show ?thesis .
qed

lemma fan_rel_live_ok:
  assumes ok: "live_ok H' L w" and p: "p \<in> L" and rel: "fan_rel p m cids w w'"
    and h: "heap_ok H w'" and cs: "consumers_ok w'"
  shows "live_ok H L w'"
proof -
  note L = live_okD [OF ok] and pl = pub_okD(1) [OF live_okD(3) [OF ok p]]
  note mem = fan_rel_members [OF pl rel]
  have "pub_ok w' q" if q: "q \<in> L" for q
  proof (cases "q = p")
    case True
    then show ?thesis using fan_rel_pub_ok [OF L(3) [OF p] rel] by simp
  next
    case False
    show ?thesis
      by (rule pub_ok_frame [OF L(3) [OF q]])
        (use False in \<open>simp_all add: fan_rel_id [OF rel] fan_rel_closed [OF rel] fan_relD(1,2) [OF rel]\<close>)
  qed
  with h cs L(4) show ?thesis unfolding live_ok_def mem by blast
qed

text \<open>The outcome of \<open>SendMessage\<close>, for the map of consumers and for each consumer object.\<close>

definition fanned :: "message \<Rightarrow> media_world \<Rightarrow> (string \<times> consumer_data) list \<Rightarrow> (string \<times> consumer_data) list" where
  "fanned m w xs = map (\<lambda>(x, d). (x, data_out m d (w_cons w ! cd_consumer d)))
     (filter (\<lambda>(x, d). \<not> overflows m d (w_cons w ! cd_consumer d)) xs)"

definition sent_cons :: "publisher_ref \<Rightarrow> message \<Rightarrow> media_world \<Rightarrow> consumer_ref \<Rightarrow> ws_consumer" where
  "sent_cons p m w i =
     (case entry w p i of
        None \<Rightarrow> w_cons w ! i
      | Some d \<Rightarrow> if overflows m d (w_cons w ! i) then stopped (w_cons w ! i) else cons_out m d (w_cons w ! i))"

text \<open>References that the fan-out leaves on the buffer: one per consumer that is not skipped.\<close>

definition kept_refs :: "publisher_ref \<Rightarrow> message \<Rightarrow> media_world \<Rightarrow> nat" where
  "kept_refs p m w = length (filter (\<lambda>(x, d). \<not> skips m d) (cons_map w p))"

definition send_outcome :: "publisher_ref \<Rightarrow> message \<Rightarrow> media_world \<Rightarrow> media_world \<Rightarrow> bool" where
  "send_outcome p m w w' \<longleftrightarrow>
     cons_map w' p = fanned m w (cons_map w p)
     \<and> length (w_cons w') = length (w_cons w) \<and> (\<forall>i. w_cons w' ! i = sent_cons p m w i)
     \<and> length (w_pubs w') = length (w_pubs w) \<and> (\<forall>q. q \<noteq> p \<longrightarrow> w_pubs w' ! q = w_pubs w ! q)
     \<and> (\<exists>c. w_pubs w' ! p = (w_pubs (after_store p m w) ! p)\<lparr>pub_consumers := c\<rparr>)
     \<and> w_chan w' = w_chan w
     \<and> h_bufs w' = (h_bufs (after_store p m w))[m_data m := (h_bufs w ! m_data m)
         \<lparr>sb_refs := sb_refs (h_bufs w ! m_data m) + of_nat (kept_refs p m w)\<rparr>]"

lemma kept_refs_skipped:
  "kept_refs p m w + length (filter (\<lambda>(x, d). skips m d) (cons_map w p)) = length (cons_map w p)"
  using sum_length_filter_compl [of "\<lambda>(x, d). skips m d" "cons_map w p"]
  by (simp add: kept_refs_def case_prod_unfold)

lemma after_store_entry [simp]: "p < length (w_pubs w) \<Longrightarrow> entry (after_store p m w) q i = entry w q i"
  by (simp add: entry_def)

lemma fanned_cong: "w_cons w' = w_cons w \<Longrightarrow> fanned m w' xs = fanned m w xs"
  by (simp add: fanned_def)

lemma fan_then_stop_map:
  assumes po: "pub_ok w p" and rel: "fan_rel p m cids w w1" and cids: "set cids = set (keys (cons_map w p))"
  shows "filter (\<lambda>(x, d). cd_consumer d \<notin> full_members p m w) (cons_map w1 p) = fanned m w (cons_map w p)"
proof -
  have "x \<in> set cids" if "(x, d) \<in> set (cons_map w p)" for x d
    using that unfolding cids by (force simp: keys_def)
  then have "cons_map w1 p = map (\<lambda>(x, d). (x, data_out m d (w_cons w ! cd_consumer d))) (cons_map w p)"
    unfolding fan_rel_cons_map [OF pub_okD(1) [OF po] rel]
    by (intro map_cong) (auto simp: fan_entry_def)
  moreover have "filter (\<lambda>(x, d). cd_consumer d \<notin> full_members p m w) (cons_map w p)
      = filter (\<lambda>(x, d). \<not> overflows m d (w_cons w ! cd_consumer d)) (cons_map w p)"
    using full_members_iff [OF po] by (intro filter_cong) auto
  moreover have "filter (\<lambda>(x, d). cd_consumer d \<notin> F) (map (\<lambda>(x, d). (x, data_out m d (f d))) xs)
      = map (\<lambda>(x, d). (x, data_out m d (f d))) (filter (\<lambda>(x, d). cd_consumer d \<notin> F) xs)"
    for F f and xs :: "(string \<times> consumer_data) list"
    by (induction xs) auto
  ultimately show ?thesis by (simp add: fanned_def)
qed

lemma fan_then_stop_cons:
  assumes po: "pub_ok w p" and rel: "fan_rel p m cids w w1" and cids: "set cids = set (keys (cons_map w p))"
  shows "(if i \<in> full_members p m w then stopped (w_cons w1 ! i) else w_cons w1 ! i) = sent_cons p m w i"
proof (cases "entry w p i")
  case None
  have "i \<notin> full_members p m w"
    using None entry_member [OF po] mem_map_of [OF pub_okD(2) [OF po]]
    by (fastforce simp: full_members_def)
  with None show ?thesis by (simp add: sent_cons_def fan_relD(4) [OF rel])
next
  case (Some d)
  then have d: "map_of (cons_map w p) (wc_id (w_cons w ! i)) = Some d" "cd_consumer d = i"
    by (auto simp: entry_def split: option.splits if_splits)
  have "wc_id (w_cons w ! i) \<in> set cids" using d(1) cids by (auto simp: map_of_keys_Some)
  moreover have "i \<in> full_members p m w \<longleftrightarrow> overflows m d (w_cons w ! i)"
    using full_members_iff [OF po map_of_SomeD [OF d(1)], of m] d(2) by simp
  ultimately show ?thesis
    using Some by (auto simp: sent_cons_def fan_relD(4) [OF rel] cons_out_def takes_def overflows_def)
qed

lemma fan_rel_shape:
  assumes "p < length (w_pubs w)" and "fan_rel p m cids w w'"
  shows "\<exists>c. w_pubs w' ! p = (w_pubs w ! p)\<lparr>pub_consumers := c\<rparr>"
    and "q \<noteq> p \<Longrightarrow> w_pubs w' ! q = w_pubs w ! q" and "length (w_pubs w') = length (w_pubs w)"
  using assms by (auto simp: fan_relD(1) [OF assms(2)])

text \<open>The fan-out and the stops, from the state with the references already taken.\<close>

lemma fan_and_stop_ok:
  assumes ok: "live_ok (H + replicate_mset (length (cons_map w p)) (m_data m)) L w" and p: "p \<in> L"
    and perm: "permutes_keys perm"
  shows "\<exists>w'. (do { (removed, w) \<leftarrow> fan_out p m (perm (keys (cons_map w p))) [] w; stop_consumers p removed w }) = Some w'
    \<and> live_ok H L w' \<and> cons_map w' p = fanned m w (cons_map w p)
    \<and> length (w_cons w') = length (w_cons w) \<and> (\<forall>i. w_cons w' ! i = sent_cons p m w i)
    \<and> length (w_pubs w') = length (w_pubs w) \<and> (\<forall>q. q \<noteq> p \<longrightarrow> w_pubs w' ! q = w_pubs w ! q)
    \<and> (\<exists>c. w_pubs w' ! p = (w_pubs w ! p)\<lparr>pub_consumers := c\<rparr>) \<and> w_chan w' = w_chan w
    \<and> h_bufs w' = released_times (length (filter (\<lambda>(x, d). skips m d) (cons_map w p))) (m_data m) (h_bufs w)"
proof -
  let ?cids = "perm (keys (cons_map w p))"
  note L = live_okD [OF ok] and po = live_okD(3) [OF ok p]
  note pl = pub_okD(1) [OF po]
  have cids: "mset ?cids = mset (keys (cons_map w p))" using perm by (simp add: permutes_keys_def)
  note pk = permutes_keysD [OF perm, of "keys (cons_map w p)"]
  have "distinct ?cids" "set ?cids \<subseteq> set (keys (cons_map w p))" using pk pub_okD(2) [OF po] by simp_all
  with fan_out_ok [OF _ L(2) po this, of H m "[]"] L(1) pk(2) obtain w1 where
    f: "fan_out p m ?cids [] w = Some (overflowed p m ?cids w, w1)" "heap_ok H w1" "consumers_ok w1"
    "fan_rel p m ?cids w w1" "h_bufs w1 = released_times (skipped p m ?cids w) (m_data m) (h_bufs w)"
    by auto
  note lo = fan_rel_live_ok [OF ok p f(4) f(2,3)]
  note os = overflowed_set [OF po cids, of m]
  have sub: "set (overflowed p m ?cids w) \<subseteq> members w1 p"
    unfolding os fan_rel_members [OF pl f(4)] by (force simp: full_members_def members_def)
  from stop_consumers_ok [OF lo p sub os(2)] obtain w' where
    s: "stop_consumers p (overflowed p m ?cids w) w1 = Some w'" "live_ok H L w'"
    "cons_map w' p = filter (\<lambda>(x, d). cd_consumer d \<notin> full_members p m w) (cons_map w1 p)"
    "\<forall>i. w_cons w' ! i = (if i \<in> full_members p m w then stopped (w_cons w1 ! i) else w_cons w1 ! i)"
    "length (w_cons w') = length (w_cons w1)" "length (w_pubs w') = length (w_pubs w1)"
    "\<forall>q. q \<noteq> p \<longrightarrow> w_pubs w' ! q = w_pubs w1 ! q" "w_chan w' = w_chan w1" "h_bufs w' = h_bufs w1"
    "\<exists>c. w_pubs w' ! p = (w_pubs w1 ! p)\<lparr>pub_consumers := c\<rparr>"
    unfolding os(1) by blast
  note sh = fan_rel_shape [OF pl f(4)]
  have "\<exists>c. w_pubs w' ! p = (w_pubs w ! p)\<lparr>pub_consumers := c\<rparr>" using s(10) sh(1) by auto
  then show ?thesis
    using f(1,5) s sh(2,3) fan_relD(2,3) [OF f(4)] skipped_count [OF po cids, of m]
      fan_then_stop_map [OF po f(4) pk(1)] fan_then_stop_cons [OF po f(4) pk(1)]
    by auto
qed

lemma after_store_buf [simp]:
  "a < length (h_bufs w) \<Longrightarrow> h_bufs (after_store p m w) ! a = h_bufs w ! a"
  "length (h_bufs w) \<le> length (h_bufs (after_store p m w))"
  by (simp_all add: after_store_def nth_append)

text \<open>Acquiring for every consumer, releasing for the skipped ones.\<close>

lemma acquire_then_release_skipped:
  assumes a: "a < length bs" and pos: "0 < sb_count (bs ! a)" and room: "sb_count (bs ! a) + n < ref_limit"
    and k: "r + k = n"
  shows "released_times k a (bs[a := sb_acquire n (bs ! a)])
    = bs[a := (bs ! a)\<lparr>sb_refs := sb_refs (bs ! a) + of_nat r\<rparr>]"
proof -
  let ?bs = "bs[a := sb_acquire n (bs ! a)]"
  have "sb_count (?bs ! a) = sb_count (bs ! a) + n" using a sb_count_acquire [OF room] by simp
  then have "released_times k a ?bs = ?bs[a := (?bs ! a)\<lparr>sb_refs := sb_refs (?bs ! a) - of_nat k\<rparr>]"
    using pos k by (intro released_times_held) simp
  moreover have "sb_refs (bs ! a) + of_nat n - of_nat k = sb_refs (bs ! a) + of_nat r"
    unfolding k [symmetric] by simp
  ultimately show ?thesis using a by (simp add: sb_acquire_def)
qed

lemma send_message_ok:
  assumes ok: "live_ok H L w" and p: "p \<in> L" and a: "m_data m < length (h_bufs w)"
    and pos: "0 < sb_count (h_bufs w ! m_data m)"
    and room: "sb_count (h_bufs w ! m_data m) + length (cons_map w p) < ref_limit"
    and perm: "permutes_keys perm"
  shows "\<exists>w'. send_message perm p m w = Some w' \<and> live_ok H L w' \<and> send_outcome p m w w'"
proof -
  let ?a = "m_data m" and ?n = "length (cons_map w p)"
  note pl = pub_okD(1) [OF live_okD(3) [OF ok p]]
  note st = store_seq_header_ok [OF ok p a]
  define w1 where "w1 = after_store p m w"
  define w2 where "w2 = w1\<lparr>h_bufs := (h_bufs w1)[?a := sb_acquire ?n (h_bufs w ! ?a)]\<rparr>"
  have a1: "?a < length (h_bufs w1)"
    unfolding w1_def by (rule less_le_trans [OF a after_store_buf(2)])
  have b1: "h_bufs w1 ! ?a = h_bufs w ! ?a" using a by (simp add: w1_def)
  have cm1: "cons_map w1 q = cons_map w q" for q using pl by (simp add: w1_def)
  note L1 = live_okD [OF st(2), folded w1_def]
  have acq: "h_acquire ?a ?n w1 = Some w2" by (simp add: h_acquire_eq [OF a1] w2_def b1)
  have "heap_ok (H + replicate_mset ?n ?a) w2"
    unfolding w2_def using heap_ok_acquire [OF L1(1) a1, of ?n] held_not_pooled [OF L1(1), of ?a] pos room b1
    by simp
  then have ok2: "live_ok (H + replicate_mset (length (cons_map w2 p)) ?a) L w2"
    by (intro live_ok_cong [OF st(2)[folded w1_def]]) (simp_all add: w2_def cm1)
  from fan_and_stop_ok [OF ok2 p perm] obtain w' where
    f: "(do { (removed, w) \<leftarrow> fan_out p m (perm (keys (cons_map w2 p))) [] w2; stop_consumers p removed w }) = Some w'"
    "live_ok H L w'" "cons_map w' p = fanned m w2 (cons_map w2 p)"
    "length (w_cons w') = length (w_cons w2)" "\<forall>i. w_cons w' ! i = sent_cons p m w2 i"
    "length (w_pubs w') = length (w_pubs w2)" "\<forall>q. q \<noteq> p \<longrightarrow> w_pubs w' ! q = w_pubs w2 ! q"
    "\<exists>c. w_pubs w' ! p = (w_pubs w2 ! p)\<lparr>pub_consumers := c\<rparr>" "w_chan w' = w_chan w2"
    "h_bufs w' = released_times (length (filter (\<lambda>(x, d). skips m d) (cons_map w2 p))) ?a (h_bufs w2)"
    by blast
  have run: "send_message perm p m w = Some w'"
    using f(1) st(1) acq pl by (simp add: send_message_def w1_def [symmetric] cm1) (simp add: w2_def cm1 w1_def)
  have same: "w_cons w2 = w_cons w" "entry w2 p i = entry w p i" "cons_map w2 p = cons_map w p" for i
    using pl by (simp_all add: w2_def w1_def entry_def)
  have "sent_cons p m w2 i = sent_cons p m w i" for i unfolding sent_cons_def same ..
  moreover have "h_bufs w' = (h_bufs w1)[?a := (h_bufs w ! ?a)\<lparr>sb_refs := sb_refs (h_bufs w ! ?a) + of_nat (kept_refs p m w)\<rparr>]"
    unfolding f(10) same w2_def
    using acquire_then_release_skipped [OF a1, of ?n "kept_refs p m w"] pos room kept_refs_skipped [of p m w] b1
    by (simp add: cm1)
  ultimately have "send_outcome p m w w'"
    using f(3-9) same fanned_cong [OF same(1), of m] by (auto simp: send_outcome_def w2_def w1_def after_store_def)
  then show ?thesis using run f(2) by blast
qed

lemma kept_refs_split:
  "kept_refs p m w = length (filter (\<lambda>(x, d). takes m d (w_cons w ! cd_consumer d)) (cons_map w p))
     + length (filter (\<lambda>(x, d). overflows m d (w_cons w ! cd_consumer d)) (cons_map w p))"
proof -
  have "length (filter (\<lambda>(x, d). \<not> skips m d) xs) =
      length (filter (\<lambda>(x, d). takes m d (w_cons w ! cd_consumer d)) xs)
      + length (filter (\<lambda>(x, d). overflows m d (w_cons w ! cd_consumer d)) xs)"
    for xs :: "(string \<times> consumer_data) list"
    by (induction xs) (auto simp: takes_def overflows_def)
  then show ?thesis by (simp add: kept_refs_def)
qed

lemma send_outcome_count:
  assumes "send_outcome p m w w'" and a: "m_data m < length (h_bufs w)"
    and room: "sb_count (h_bufs w ! m_data m) + length (cons_map w p) < ref_limit"
  shows "sb_count (h_bufs w' ! m_data m) = sb_count (h_bufs w ! m_data m) + kept_refs p m w"
    and "sb_bytes (h_bufs w' ! m_data m) = sb_bytes (h_bufs w ! m_data m)"
    and "b < length (h_bufs w) \<Longrightarrow> b \<noteq> m_data m \<Longrightarrow> h_bufs w' ! b = h_bufs w ! b"
proof -
  have a1: "m_data m < length (h_bufs (after_store p m w))" by (rule less_le_trans [OF a after_store_buf(2)])
  have b: "h_bufs w' ! m_data m = (h_bufs w ! m_data m)\<lparr>sb_refs := sb_refs (h_bufs w ! m_data m) + of_nat (kept_refs p m w)\<rparr>"
    using assms(1) a1 by (simp add: send_outcome_def)
  have "kept_refs p m w \<le> length (cons_map w p)" by (simp add: kept_refs_def)
  then show "sb_count (h_bufs w' ! m_data m) = sb_count (h_bufs w ! m_data m) + kept_refs p m w"
    using room unat_add_of_nat32 [of "sb_refs (h_bufs w ! m_data m)" "kept_refs p m w"]
    by (simp add: b sb_count_def ref_limit_def)
  show "sb_bytes (h_bufs w' ! m_data m) = sb_bytes (h_bufs w ! m_data m)"
    by (simp add: b sb_bytes_def)
  show "h_bufs w' ! b = h_bufs w ! b" if "b < length (h_bufs w)" "b \<noteq> m_data m"
    using assms(1) that by (simp add: send_outcome_def)
qed

section \<open>Meta data\<close>

definition meta_buf :: "publisher \<Rightarrow> meta_data \<Rightarrow> shared_buffer" where
  "meta_buf pub md = \<lparr>sb_pool = pub_audioPool pub, sb_buf = meta_layout md, sb_refs = 1,
     sb_len = metaDataEncodedSize\<rparr>"

definition after_meta :: "publisher_ref \<Rightarrow> meta_data \<Rightarrow> media_world \<Rightarrow> media_world" where
  "after_meta p md w = w\<lparr>h_bufs := h_bufs w @ [meta_buf (w_pubs w ! p) md],
     w_pubs := (w_pubs w)[p := (w_pubs w ! p)\<lparr>pub_meta := Some (length (h_bufs w))\<rparr>]\<rparr>"

definition meta_message :: "buf_ref \<Rightarrow> message" where
  "meta_message a = \<lparr>m_type = MesgMetaData, m_flags = 0, m_timestamp = 0,
     m_length = of_nat metaDataEncodedSize, m_data = a\<rparr>"

lemma meta_buf_simps [simp]:
  "sb_ok (meta_buf pub md)" "sb_count (meta_buf pub md) = 1" "sb_len (meta_buf pub md) = metaDataEncodedSize"
  "sb_bytes (meta_buf pub md) = meta_layout md"
  by (simp_all add: meta_buf_def sb_ok_def sb_count_def sb_bytes_def)

lemma after_meta_ok:
  assumes ok: "live_ok H L w" and p: "p \<in> L"
  shows "live_ok H L (after_meta p md w)" and "cons_map (after_meta p md w) q = cons_map w q"
    and "w_cons (after_meta p md w) = w_cons w"
proof -
  note L = live_okD [OF ok] and pl = pub_okD(1) [OF live_okD(3) [OF ok p]]
  have "heap_ok H (after_meta p md w)"
    unfolding after_meta_def by (rule heap_ok_new_pin [OF L(1) pl]) (auto simp: pins_def)
  moreover have "pub_consumers (w_pubs (after_meta p md w) ! q) = pub_consumers (w_pubs w ! q)" for q
    using pl by (cases "q = p") (simp_all add: after_meta_def)
  ultimately show "live_ok H L (after_meta p md w)"
    by (intro live_ok_cong [OF ok]) (simp_all add: after_meta_def)
  show "cons_map (after_meta p md w) q = cons_map w q"
    using pl by (cases "q = p") (simp_all add: after_meta_def consumers_of_def)
  show "w_cons (after_meta p md w) = w_cons w" by (simp add: after_meta_def)
qed

lemma send_meta_data_ok:
  assumes ok: "live_ok H L w" and p: "p \<in> L" and room: "Suc (length (cons_map w p)) < ref_limit"
    and perm: "permutes_keys perm"
  shows "\<exists>w'. send_meta_data perm p md w = Some (None, w') \<and> live_ok H L w'
    \<and> send_outcome p (meta_message (length (h_bufs w))) (after_meta p md w) w'"
proof -
  let ?m = "meta_message (length (h_bufs w))" and ?w = "after_meta p md w"
  note pl = pub_okD(1) [OF live_okD(3) [OF ok p]]
  note am = after_meta_ok [OF ok p, of md]
  have buf: "h_bufs ?w ! length (h_bufs w) = meta_buf (w_pubs w ! p) md" "length (h_bufs ?w) = Suc (length (h_bufs w))"
    by (simp_all add: after_meta_def)
  from send_message_ok [OF am(1) p _ _ _ perm, of ?m] obtain w' where
    w': "send_message perm p ?m ?w = Some w'" "live_ok H L w'" "send_outcome p ?m ?w w'"
    using room by (auto simp: meta_message_def buf am)
  have enc: "meta_encode md (replicate metaDataEncodedSize 0) = Some (Inr (meta_layout md))"
    by (simp add: meta_encode_layout)
  have "send_meta_data perm p md w = Some (None, w')"
    using w'(1) pl
    by (simp add: send_meta_data_def enc new_shared_buffer_def alloc_buf_def hold_buffer_def h_acquire_def
      sb_acquire_def set_pub_def after_meta_def meta_buf_def meta_message_def sb_length_def)
  with w' show ?thesis by blast
qed

end
