(* ===== verification/PublisherJoin.thy ===== *)
theory PublisherJoin
  imports PublisherOps
begin

text \<open>
  A consumer joining a live publisher (\<open>AddConsumer\<close>, with the initial data it is sent first),
  and the end of a publisher (\<open>Stop\<close>).
\<close>

section \<open>A consumer joins\<close>

text \<open>A consumer that may join: it exists, is in no map of a live publisher and is not stopped.\<close>

definition joinable :: "publisher_ref set \<Rightarrow> publisher_ref \<Rightarrow> consumer_ref \<Rightarrow> media_world \<Rightarrow> bool" where
  "joinable L p i w \<longleftrightarrow> i < length (w_cons w) \<and> \<not> closed_of w i \<and> (\<forall>q \<in> L. i \<notin> members w q)
     \<and> map_of (cons_map w p) (wc_id (w_cons w ! i)) = None"

text \<open>The part of the state that sending to a joining consumer leaves alone.\<close>

definition joins :: "nat \<Rightarrow> consumer_ref \<Rightarrow> media_world \<Rightarrow> media_world \<Rightarrow> bool" where
  "joins k i w w' \<longleftrightarrow> w_pubs w' = w_pubs w \<and> w_chan w' = w_chan w \<and> length (w_cons w') = length (w_cons w)
     \<and> (\<forall>j. j \<noteq> i \<longrightarrow> w_cons w' ! j = w_cons w ! j) \<and> wc_id (w_cons w' ! i) = wc_id (w_cons w ! i)
     \<and> wc_pubID (w_cons w' ! i) = wc_pubID (w_cons w ! i) \<and> ch_cap (wc_messages (w_cons w' ! i)) = ch_cap (wc_messages (w_cons w ! i))
     \<and> length (h_bufs w') = length (h_bufs w)
     \<and> (\<forall>a < length (h_bufs w). sb_bytes (h_bufs w' ! a) = sb_bytes (h_bufs w ! a)
          \<and> sb_len (h_bufs w' ! a) = sb_len (h_bufs w ! a)
          \<and> sb_count (h_bufs w ! a) \<le> sb_count (h_bufs w' ! a)
          \<and> sb_count (h_bufs w' ! a) \<le> sb_count (h_bufs w ! a) + k)"

lemma list_update_other: "j \<noteq> i \<Longrightarrow> xs[i := x] ! j = xs ! j"
  by simp

text \<open>Changing only a consumer that is no member keeps every publisher.\<close>

lemma live_ok_outsider:
  assumes ok: "live_ok H L w" and out: "\<forall>q \<in> L. i \<notin> members w q"
    and h: "heap_ok H' w'" and cs: "consumers_ok w'" and len: "length (w_cons w') = length (w_cons w)"
    and same: "\<forall>j. j \<noteq> i \<longrightarrow> w_cons w' ! j = w_cons w ! j" and pubs: "w_pubs w' = w_pubs w"
  shows "live_ok H' L w'"
proof -
  note L = live_okD [OF ok]
  have "pub_ok w' q" if q: "q \<in> L" for q
  proof (rule pub_ok_frame [OF L(3) [OF q]])
    fix j assume "j \<in> members w q"
    then have "j \<noteq> i" using out q by auto
    then show "wc_id (w_cons w' ! j) = wc_id (w_cons w ! j)" "closed_of w' j = closed_of w j"
      using same by (simp_all add: closed_of_def)
  qed (simp_all add: pubs len)
  moreover have "members w' q = members w q" for q by (simp add: members_def pubs)
  ultimately show ?thesis using h cs L(4) unfolding live_ok_def by simp
qed

lemma drop_absent:
  assumes "pub_ok w p" and "map_of (cons_map w p) cid = None"
  shows "drop_consumer cid (w_pubs w ! p) = w_pubs w ! p"
proof -
  have "AList.delete cid m = m" if "map_of m cid = None" for m :: "(string \<times> consumer_data) list"
    using that by (induction m) (auto split: if_splits)
  with assms pub_okD(3) [OF assms(1)] show ?thesis
    by (cases "pub_consumers (w_pubs w ! p)") (simp_all add: drop_consumer_def Let_def)
qed

definition joined :: "consumer_ref \<Rightarrow> message \<Rightarrow> media_world \<Rightarrow> media_world" where
  "joined i m w = w\<lparr>h_bufs := (h_bufs w)[m_data m := sb_acquire 1 (h_bufs w ! m_data m)],
     w_cons := (w_cons w)[i := push_message m (w_cons w ! i)]\<rparr>"

lemma push_message_simps [simp]:
  "wc_id (push_message m c) = wc_id c" "wc_pubID (push_message m c) = wc_pubID c"
  "ch_cap (wc_messages (push_message m c)) = ch_cap (wc_messages c)"
  "ch_queue (wc_messages (push_message m c)) = ch_queue (wc_messages c) @ [m]"
  "ch_closed (wc_messages (push_message m c)) = ch_closed (wc_messages c)"
  by (simp_all add: push_message_def)

lemma send_message_stop_room:
  assumes ok: "live_ok H L w" and p: "p \<in> L" and j: "joinable L p i w"
    and a: "m_data m < length (h_bufs w)" and pos: "0 < sb_count (h_bufs w ! m_data m)"
    and limit: "Suc (sb_count (h_bufs w ! m_data m)) < ref_limit"
    and room: "length (queue_of w i) < ch_cap (wc_messages (w_cons w ! i))"
  shows "send_message_stop p i m w = Some (True, joined i m w)" and "live_ok H L (joined i m w)"
    and "joins 1 i w (joined i m w)" and "joinable L p i (joined i m w)"
    and "queue_of (joined i m w) i = queue_of w i @ [m]"
proof -
  let ?b = "h_bufs w ! m_data m" and ?c = "w_cons w ! i"
  let ?u = "w\<lparr>h_bufs := (h_bufs w)[m_data m := sb_acquire 1 ?b]\<rparr>"
  note L = live_okD [OF ok]
  have i: "i < length (w_cons w)" and open': "\<not> ch_closed (wc_messages ?c)"
    using j by (simp_all add: joinable_def closed_of_def)
  have full: "length (ch_queue (wc_messages ?c)) < ch_cap (wc_messages ?c)" using room by (simp add: queue_of_def)
  show "send_message_stop p i m w = Some (True, joined i m w)"
    using i open' full a
    by (simp add: send_message_stop_def h_acquire_eq send_to_def try_send_def joined_def push_message_def)
  have "heap_ok (H + replicate_mset 1 (m_data m)) ?u"
    by (rule heap_ok_acquire [OF L(1) a]) (use limit held_not_pooled [OF L(1) pos] in simp_all)
  then have "heap_ok (add_mset (m_data m) H) ?u" by simp
  from heap_ok_push [OF this, of i] i have h: "heap_ok H (joined i m w)" by (simp add: joined_def)
  have cs: "consumers_ok (joined i m w)"
    using consumers_ok_update [OF L(2) push_message_ok [OF consumers_okD [OF L(2) i] full], of i]
    by (simp add: joined_def consumers_ok_def)
  show "live_ok H L (joined i m w)"
    by (rule live_ok_outsider [OF ok _ h cs, where i = i]) (use j in \<open>simp_all add: joined_def joinable_def\<close>)
  have cnt: "sb_count (sb_acquire 1 ?b) = Suc (sb_count ?b)"
    using sb_count_acquire [of ?b 1] limit by simp
  have other: "sb_bytes (sb_acquire 1 b) = sb_bytes b" "sb_len (sb_acquire 1 b) = sb_len b" for b
    by (simp_all add: sb_acquire_def sb_bytes_def)
  show "joins 1 i w (joined i m w)"
    using i a cnt other by (auto simp: joins_def joined_def nth_list_update)
  show "joinable L p i (joined i m w)"
    using j i by (auto simp: joinable_def joined_def closed_of_def members_def)
  show "queue_of (joined i m w) i = queue_of w i @ [m]" using i by (simp add: queue_of_def joined_def)
qed

lemma send_message_stop_full:
  assumes ok: "live_ok H L w" and p: "p \<in> L" and j: "joinable L p i w"
    and a: "m_data m < length (h_bufs w)" and pos: "0 < sb_count (h_bufs w ! m_data m)"
    and limit: "Suc (sb_count (h_bufs w ! m_data m)) < ref_limit"
    and full: "ch_cap (wc_messages (w_cons w ! i)) \<le> length (queue_of w i)"
  defines "w' \<equiv> w\<lparr>w_cons := (w_cons w)[i := stopped (w_cons w ! i)]\<rparr>"
  shows "send_message_stop p i m w = Some (False, w')" and "live_ok H L w'"
proof -
  let ?b = "h_bufs w ! m_data m" and ?c = "w_cons w ! i"
  let ?u = "w\<lparr>h_bufs := (h_bufs w)[m_data m := sb_acquire 1 ?b]\<rparr>"
  note L = live_okD [OF ok]
  have i: "i < length (w_cons w)" and open': "\<not> ch_closed (wc_messages ?c)"
    using j by (simp_all add: joinable_def closed_of_def)
  have nofit: "\<not> length (ch_queue (wc_messages ?c)) < ch_cap (wc_messages ?c)" using full by (simp add: queue_of_def)
  have cnt: "sb_count (sb_acquire 1 ?b) = Suc (sb_count ?b)" using sb_count_acquire [of ?b 1] limit by simp
  have rel: "h_release (m_data m) ?u = Some w"
  proof -
    have "h_release (m_data m) ?u = Some (released (m_data m) ?u)"
      by (rule h_release_eq) (use a cnt limit in simp_all)
    moreover have "released (m_data m) ?u = w"
      using a cnt pos by (simp add: released_def Let_def sb_acquire_def)
    ultimately show ?thesis by simp
  qed
  have send: "send_to i m ?u = Some (False, ?u)"
    using i open' nofit by (simp add: send_to_def try_send_def)
  have "set_pub p (drop_consumer (wc_id ?c)) w = Some w"
    using pub_okD(1) [OF L(3) [OF p]] drop_absent [OF L(3) [OF p], of "wc_id ?c"] j
    by (simp add: set_pub_def joinable_def)
  then have "stop_consumer p i w = Some w'"
    using i consumer_stop_eq [OF L(2) i] by (simp add: stop_consumer_def w'_def)
  with rel send show "send_message_stop p i m w = Some (False, w')"
    by (simp add: send_message_stop_def h_acquire_eq [OF a])
  have h: "heap_ok H w'"
    unfolding w'_def by (rule heap_ok_same_queue [OF L(1) i]) simp
  have cs: "consumers_ok w'"
    unfolding w'_def by (rule consumers_ok_update [OF L(2)]) (simp add: stopped_ok consumers_okD [OF L(2) i])
  show "live_ok H L w'"
    by (rule live_ok_outsider [OF ok _ h cs, where i = i]) (use j in \<open>simp_all add: w'_def joinable_def\<close>)
qed

text \<open>The messages a joining consumer is sent, in this order.\<close>

definition held_message :: "media_world \<Rightarrow> u8 \<Rightarrow> buf_ref option \<Rightarrow> message list" where
  "held_message w typ held = (case held of None \<Rightarrow> [] | Some a \<Rightarrow>
     [\<lparr>m_type = typ, m_flags = 0, m_timestamp = 0, m_length = of_nat (sb_len (h_bufs w ! a)), m_data = a\<rparr>])"

definition initial_messages :: "media_world \<Rightarrow> publisher \<Rightarrow> message list" where
  "initial_messages w pub = held_message w MesgMetaData (pub_meta pub)
     @ held_message w MesgVideoSeqHdr (pub_videoSeqHdr pub)
     @ held_message w MesgAudioSeqHdr (pub_audioSeqHdr pub)"

text \<open>A buffer that a publisher keeps is referenced, so acquiring it again is safe.\<close>

lemma pinned_held:
  assumes "heap_ok H w" and "p < length (w_pubs w)" and "pins (w_pubs w ! p) a"
  shows "a < length (h_bufs w)" and "0 < sb_count (h_bufs w ! a)"
proof -
  have pin: "pinned w a" using assms(2,3) by (auto simp: pinned_def list_ex_iff)
  then show a: "a < length (h_bufs w)" using heap_ok_fresh [OF assms(1), of a] not_le by blast
  show "0 < sb_count (h_bufs w ! a)" using heap_okD(3) [OF assms(1) a] pin by simp
qed

lemma send_held_ok:
  assumes ok: "live_ok H L w" and p: "p \<in> L" and j: "joinable L p i w"
    and held: "\<And>a. held = Some a \<Longrightarrow> pins (w_pubs w ! p) a \<and> Suc (sb_count (h_bufs w ! a)) < ref_limit"
    and room: "length (queue_of w i) < ch_cap (wc_messages (w_cons w ! i))"
  shows "\<exists>w'. send_held p i typ held w = Some (True, w') \<and> live_ok H L w' \<and> joins 1 i w w'
    \<and> joinable L p i w' \<and> queue_of w' i = queue_of w i @ held_message w typ held"
proof (cases held)
  case None
  then show ?thesis using ok j by (simp add: send_held_def held_message_def joins_def)
next
  case (Some a)
  let ?m = "\<lparr>m_type = typ, m_flags = 0, m_timestamp = 0, m_length = of_nat (sb_len (h_bufs w ! a)), m_data = a\<rparr>"
  note a = pinned_held [OF live_okD(1) [OF ok] pub_okD(1) [OF live_okD(3) [OF ok p]], of a]
  have "pins (w_pubs w ! p) a" "Suc (sb_count (h_bufs w ! a)) < ref_limit" using held [OF Some] by simp_all
  with send_message_stop_room [OF ok p j, of ?m] room a Some show ?thesis
    by (auto simp: send_held_def held_message_def sb_length_def)
qed

lemma joins_trans: "joins k i u v \<Longrightarrow> joins l i v w \<Longrightarrow> joins (k + l) i u w"
  unfolding joins_def by (auto intro: order_trans)

lemma held_message_joins:
  "joins k i w w' \<Longrightarrow> (\<And>a. held = Some a \<Longrightarrow> a < length (h_bufs w)) \<Longrightarrow>
     held_message w' typ held = held_message w typ held"
  by (cases held) (simp_all add: held_message_def joins_def)

lemma send_initial_data_ok:
  assumes ok: "live_ok H L w" and p: "p \<in> L" and j: "joinable L p i w"
    and limit: "\<And>a. pins (w_pubs w ! p) a \<Longrightarrow> sb_count (h_bufs w ! a) + 3 < ref_limit"
    and room: "length (queue_of w i) + 3 \<le> ch_cap (wc_messages (w_cons w ! i))"
  shows "\<exists>w'. send_initial_data p i w = Some (None, w') \<and> live_ok H L w' \<and> joins 3 i w w'
    \<and> joinable L p i w' \<and> queue_of w' i = queue_of w i @ initial_messages w (w_pubs w ! p)"
proof -
  let ?pub = "w_pubs w ! p"
  note pl = pub_okD(1) [OF live_okD(3) [OF ok p]]
  have len: "a < length (h_bufs w)" if "pins ?pub a" for a
    using pinned_held(1) [OF live_okD(1) [OF ok] pl that] .
  have hl: "length (held_message v ty held) \<le> 1" for v ty held
    by (simp add: held_message_def split: option.splits)
  have step: "\<exists>v'. send_held p i ty held v = Some (True, v') \<and> live_ok H L v' \<and> joins (Suc k) i w v'
      \<and> joinable L p i v' \<and> queue_of v' i = queue_of v i @ held_message w ty held"
    if v: "live_ok H L v" "joins k i w v" "joinable L p i v" "k < 3" "length (queue_of v i) \<le> length (queue_of w i) + k"
      and held: "\<And>a. held = Some a \<Longrightarrow> pins ?pub a" for v k ty held
  proof -
    have cap: "length (queue_of v i) < ch_cap (wc_messages (w_cons v ! i))"
      using v(2,4,5) room by (simp add: joins_def)
    have "pins (w_pubs v ! p) a \<and> Suc (sb_count (h_bufs v ! a)) < ref_limit" if "held = Some a" for a
      using held [OF that] limit [of a] v(2,4) len [of a] by (force simp: joins_def)
    from send_held_ok [OF v(1) p v(3) this cap] obtain v' where
      v': "send_held p i ty held v = Some (True, v')" "live_ok H L v'" "joins 1 i v v'" "joinable L p i v'"
      "queue_of v' i = queue_of v i @ held_message v ty held" by blast
    moreover have "held_message v ty held = held_message w ty held"
      using held_message_joins [OF v(2)] held len by blast
    ultimately show ?thesis using joins_trans [OF v(2) v'(3)] by auto
  qed
  have refl: "joins 0 i w w" by (simp add: joins_def)
  obtain w1 where w1: "send_held p i MesgMetaData (pub_meta ?pub) w = Some (True, w1)" "live_ok H L w1"
    "joins 1 i w w1" "joinable L p i w1" "queue_of w1 i = queue_of w i @ held_message w MesgMetaData (pub_meta ?pub)"
    using step [OF ok refl j, where held = "pub_meta ?pub" and ty = MesgMetaData] by (auto simp: pins_def)
  have q1: "length (queue_of w1 i) \<le> length (queue_of w i) + 1" using w1(5) hl by simp
  obtain w2 where w2: "send_held p i MesgVideoSeqHdr (pub_videoSeqHdr ?pub) w1 = Some (True, w2)" "live_ok H L w2"
    "joins 2 i w w2" "joinable L p i w2" "queue_of w2 i = queue_of w1 i @ held_message w MesgVideoSeqHdr (pub_videoSeqHdr ?pub)"
    using step [OF w1(2-4) _ q1, where held = "pub_videoSeqHdr ?pub" and ty = MesgVideoSeqHdr] by (auto simp: pins_def numeral_2_eq_2)
  have q2: "length (queue_of w2 i) \<le> length (queue_of w i) + 2" using w2(5) q1 hl [of w MesgVideoSeqHdr "pub_videoSeqHdr ?pub"] by simp
  obtain w3 where w3: "send_held p i MesgAudioSeqHdr (pub_audioSeqHdr ?pub) w2 = Some (True, w3)" "live_ok H L w3"
    "joins 3 i w w3" "joinable L p i w3" "queue_of w3 i = queue_of w2 i @ held_message w MesgAudioSeqHdr (pub_audioSeqHdr ?pub)"
    using step [OF w2(2-4) _ q2, where held = "pub_audioSeqHdr ?pub" and ty = MesgAudioSeqHdr] by (auto simp: pins_def numeral_3_eq_3)
  have "send_initial_data p i w = Some (None, w3)"
    using pl w1(1) w2(1) w3(1) by (simp add: send_initial_data_def)
  then show ?thesis
    using w3(2-4) w1(5) w2(5) w3(5) by (simp add: initial_messages_def)
qed

lemma consumers_of_insert:
  "consumers_of (insert_consumer cid i pub) =
     AList.update cid \<lparr>cd_consumer = i, cd_sentVideoKeyFrame = False\<rparr> (consumers_of pub)"
  by (cases "pub_consumers pub") (simp_all add: insert_consumer_def)

lemma update_new: "map_of m k = None \<Longrightarrow> AList.update k v m = m @ [(k, v)]"
  by (induction m) (auto split: if_splits)

definition inserted :: "publisher_ref \<Rightarrow> consumer_ref \<Rightarrow> media_world \<Rightarrow> media_world" where
  "inserted p i w = w\<lparr>w_pubs := (w_pubs w)[p := insert_consumer (wc_id (w_cons w ! i)) i (w_pubs w ! p)]\<rparr>"

lemma inserted_ok:
  assumes ok: "live_ok H L w" and p: "p \<in> L" and j: "joinable L p i w"
  shows "live_ok H L (inserted p i w)"
    and "cons_map (inserted p i w) p =
      cons_map w p @ [(wc_id (w_cons w ! i), \<lparr>cd_consumer = i, cd_sentVideoKeyFrame = False\<rparr>)]"
proof -
  let ?w = "inserted p i w" and ?e = "(wc_id (w_cons w ! i), \<lparr>cd_consumer = i, cd_sentVideoKeyFrame = False\<rparr>)"
  note L = live_okD [OF ok] and po = live_okD(3) [OF ok p]
  note pl = pub_okD(1) [OF po]
  have new: "map_of (cons_map w p) (wc_id (w_cons w ! i)) = None" using j by (simp add: joinable_def)
  show cm: "cons_map ?w p = cons_map w p @ [?e]"
    using pl new by (simp add: inserted_def consumers_of_insert update_new)
  have other: "w_pubs ?w ! q = w_pubs w ! q" if "q \<noteq> p" for q using that by (simp add: inserted_def)
  have ent: "entry_ok ?w x d = entry_ok w x d" for x d by (simp add: entry_ok_def inserted_def closed_of_def)
  have "entry_ok ?w x d" if "(x, d) \<in> set (cons_map ?w p)" for x d
    using that pub_okD(4) [OF po, of x d] j unfolding cm ent by (auto simp: entry_ok_def joinable_def)
  moreover have "distinct (keys (cons_map ?w p))"
    using pub_okD(2) [OF po] new unfolding cm by (auto simp: keys_def dest: weak_map_of_SomeI)
  moreover have "pub_consumers (w_pubs ?w ! p) \<noteq> Some []"
    using cm by (auto simp: consumers_of_def split: option.splits)
  ultimately have "pub_ok ?w p" using pl by (auto simp: pub_ok_def inserted_def)
  moreover have "pub_ok ?w q" if "q \<in> L" "q \<noteq> p" for q
    by (rule pub_ok_frame [OF L(3) [OF that(1)]]) (use that(2) in \<open>simp_all add: inserted_def closed_of_def\<close>)
  ultimately have pubs: "\<forall>q \<in> L. pub_ok ?w q" by blast
  have mem: "members ?w q = (if q = p then insert i (members w p) else members w q)" for q
    using other [of q] cm by (auto simp: members_def)
  have h: "heap_ok H ?w"
    unfolding inserted_def by (rule heap_ok_pub_consumers [OF L(1) pl]) (simp_all add: insert_consumer_def Let_def)
  have dj: "members ?w q \<inter> members ?w r = {}" if "q \<in> L" "r \<in> L" "q \<noteq> r" for q r
    using L(4) [OF that] j that unfolding mem joinable_def by auto
  have "consumers_ok ?w" using L(2) by (simp add: inserted_def consumers_ok_def)
  with h pubs dj show "live_ok H L ?w" unfolding live_ok_def by blast
qed

lemma pub_add_consumer_ok:
  assumes ok: "live_ok H L w" and p: "p \<in> L" and j: "joinable L p i w"
    and limit: "\<And>a. pins (w_pubs w ! p) a \<Longrightarrow> sb_count (h_bufs w ! a) + 3 < ref_limit"
    and room: "length (queue_of w i) + 3 \<le> ch_cap (wc_messages (w_cons w ! i))"
  shows "\<exists>w'. pub_add_consumer p i w = Some (None, w') \<and> live_ok H L w'
    \<and> cons_map w' p = cons_map w p @ [(wc_id (w_cons w ! i), \<lparr>cd_consumer = i, cd_sentVideoKeyFrame = False\<rparr>)]
    \<and> queue_of w' i = queue_of w i @ initial_messages w (w_pubs w ! p)
    \<and> (\<forall>j. j \<noteq> i \<longrightarrow> w_cons w' ! j = w_cons w ! j) \<and> \<not> closed_of w' i
    \<and> (\<forall>a < length (h_bufs w). sb_bytes (h_bufs w' ! a) = sb_bytes (h_bufs w ! a))
    \<and> (\<forall>q. q \<noteq> p \<longrightarrow> w_pubs w' ! q = w_pubs w ! q) \<and> pub_id (w_pubs w' ! p) = pub_id (w_pubs w ! p)
    \<and> w_chan w' = w_chan w \<and> wc_pubID (w_cons w' ! i) = wc_pubID (w_cons w ! i)"
proof -
  note pl = pub_okD(1) [OF live_okD(3) [OF ok p]]
  from send_initial_data_ok [OF assms] obtain w1 where
    w1: "send_initial_data p i w = Some (None, w1)" "live_ok H L w1" "joins 3 i w w1" "joinable L p i w1"
    "queue_of w1 i = queue_of w i @ initial_messages w (w_pubs w ! p)" by blast
  note ins = inserted_ok [OF w1(2) p w1(4)]
  have same: "w_pubs w1 = w_pubs w" "wc_id (w_cons w1 ! i) = wc_id (w_cons w ! i)"
    using w1(3) by (simp_all add: joins_def)
  have "pub_add_consumer p i w = Some (None, inserted p i w1)"
    using w1(1) j pl same
    by (simp add: pub_add_consumer_def has_consumer_def joinable_def set_pub_def inserted_def)
  moreover have "queue_of (inserted p i w1) i = queue_of w1 i" "w_cons (inserted p i w1) = w_cons w1"
    "h_bufs (inserted p i w1) = h_bufs w1" "w_chan (inserted p i w1) = w_chan w1"
    "q \<noteq> p \<Longrightarrow> w_pubs (inserted p i w1) ! q = w_pubs w1 ! q"
    "pub_id (w_pubs (inserted p i w1) ! p) = pub_id (w_pubs w1 ! p)" for q
    using pl same(1) by (simp_all add: inserted_def queue_of_def insert_consumer_def Let_def)
  ultimately show ?thesis
    using ins w1(3-5) same by (auto simp: joins_def joinable_def closed_of_def)
qed

text \<open>A second consumer with the identifier of a member changes nothing.\<close>

lemma pub_add_consumer_exists:
  assumes "i < length (w_cons w)" and "p < length (w_pubs w)"
    and "map_of (cons_map w p) (wc_id (w_cons w ! i)) \<noteq> None"
  shows "pub_add_consumer p i w = Some (Some ErrConsumerExists, w)"
  using assms by (simp add: pub_add_consumer_def has_consumer_def)

section \<open>Stopping a publisher\<close>

lemma consumer_stop_live:
  assumes ok: "live_ok H L w" and out: "\<forall>q \<in> L. i \<notin> members w q" and i: "i < length (w_cons w)"
  shows "live_ok H L (w\<lparr>w_cons := (w_cons w)[i := stopped (w_cons w ! i)]\<rparr>)" (is "live_ok H L ?w")
proof (rule live_ok_outsider [OF ok out])
  note L = live_okD [OF ok]
  show "heap_ok H ?w" by (rule heap_ok_same_queue [OF L(1) i]) simp
  show "consumers_ok ?w" by (rule consumers_ok_update [OF L(2)]) (simp add: stopped_ok consumers_okD [OF L(2) i])
qed simp_all

lemma live_ok_subset: "live_ok H L w \<Longrightarrow> L' \<subseteq> L \<Longrightarrow> live_ok H L' w"
  unfolding live_ok_def by blast

text \<open>After \<open>Stop\<close> the publisher is no longer live: its map still names the stopped consumers.\<close>

lemma stop_each_ok:
  assumes "live_ok H L w" and "\<forall>(x, d) \<in> set cs. cd_consumer d < length (w_cons w) \<and> (\<forall>q \<in> L. cd_consumer d \<notin> members w q)"
  shows "\<exists>w'. stop_each cs cids w = Some w' \<and> live_ok H L w' \<and> length (w_cons w') = length (w_cons w)
    \<and> (\<forall>i. w_cons w' ! i = (if \<exists>x \<in> set cids. \<exists>d. map_of cs x = Some d \<and> cd_consumer d = i
         then stopped (w_cons w ! i) else w_cons w ! i))
    \<and> w_pubs w' = w_pubs w \<and> w_chan w' = w_chan w \<and> h_bufs w' = h_bufs w \<and> h_pools w' = h_pools w"
  using assms
proof (induction cids arbitrary: w)
  case Nil
  then show ?case by simp
next
  case (Cons x cids)
  show ?case
  proof (cases "map_of cs x")
    case None
    have "(\<exists>y \<in> set (x # cids). \<exists>d. map_of cs y = Some d \<and> cd_consumer d = i)
        \<longleftrightarrow> (\<exists>y \<in> set cids. \<exists>d. map_of cs y = Some d \<and> cd_consumer d = i)" for i
      using None by auto
    with None Cons.IH [OF Cons.prems] show ?thesis by simp
  next
    case (Some d)
    let ?i = "cd_consumer d"
    let ?u = "w\<lparr>w_cons := (w_cons w)[?i := stopped (w_cons w ! ?i)]\<rparr>"
    have d: "?i < length (w_cons w)" "\<forall>q \<in> L. ?i \<notin> members w q"
      using Cons.prems(2) map_of_SomeD [OF Some] by auto
    have "members ?u q = members w q" for q by (simp add: members_def)
    with Cons.IH [OF consumer_stop_live [OF Cons.prems(1) d(2,1)]] Cons.prems(2) obtain w' where
      w': "stop_each cs cids ?u = Some w'" "live_ok H L w'" "length (w_cons w') = length (w_cons w)"
      "\<forall>i. w_cons w' ! i = (if \<exists>x \<in> set cids. \<exists>d. map_of cs x = Some d \<and> cd_consumer d = i
         then stopped (w_cons ?u ! i) else w_cons ?u ! i)"
      "w_pubs w' = w_pubs w" "w_chan w' = w_chan w" "h_bufs w' = h_bufs w" "h_pools w' = h_pools w"
      by auto
    have twice: "stopped (stopped c) = stopped c" for c by (simp add: stopped_def)
    have "w_cons w' ! i = (if \<exists>y \<in> set (x # cids). \<exists>d. map_of cs y = Some d \<and> cd_consumer d = i
         then stopped (w_cons w ! i) else w_cons w ! i)" for i
      using w'(4) Some d(1) twice by (cases "i = ?i") auto
    then show ?thesis
      using w' Some consumer_stop_eq [OF live_okD(2) [OF Cons.prems(1)] d(1)] by simp
  qed
qed

lemma pub_stop_ok:
  assumes ok: "live_ok H L w" and p: "p \<in> L" and perm: "permutes_keys perm"
  shows "\<exists>w'. pub_stop perm p w = Some w' \<and> live_ok H (L - {p}) w'
    \<and> (\<forall>i. w_cons w' ! i = (if i \<in> members w p then stopped (w_cons w ! i) else w_cons w ! i))
    \<and> length (w_cons w') = length (w_cons w)
    \<and> w_pubs w' = w_pubs w \<and> w_chan w' = w_chan w \<and> h_bufs w' = h_bufs w \<and> h_pools w' = h_pools w"
proof -
  let ?cs = "cons_map w p"
  note po = live_okD(3) [OF ok p]
  have out: "\<forall>(x, d) \<in> set ?cs. cd_consumer d < length (w_cons w) \<and> (\<forall>q \<in> L - {p}. cd_consumer d \<notin> members w q)"
  proof (clarify, intro conjI ballI)
    fix x d assume xd: "(x, d) \<in> set ?cs"
    then show "cd_consumer d < length (w_cons w)" using pub_okD(4) [OF po] by (simp add: entry_ok_def)
    fix q assume "q \<in> L - {p}"
    then show "cd_consumer d \<notin> members w q"
      using live_okD(4) [OF ok p, of q] xd by (force simp: members_def)
  qed
  have mem: "(\<exists>x \<in> set (perm (keys ?cs)). \<exists>d. map_of ?cs x = Some d \<and> cd_consumer d = i) \<longleftrightarrow> i \<in> members w p" for i
    using mem_map_of [OF pub_okD(2) [OF po]]
    by (force simp: permutes_keysD(1) [OF perm] members_def map_of_keys_Some dest: map_of_SomeD)
  from stop_each_ok [OF live_ok_subset [OF ok Diff_subset] out, of "perm (keys ?cs)"] show ?thesis
    using pub_okD(1) [OF po] unfolding mem by (auto simp: pub_stop_def)
qed

end
