(* ===== verification/MediaChannel.thy ===== *)
theory MediaChannel
  imports PublisherJoin
begin

text \<open>
  \<open>transport/media_channel/channel.go\<close>: the table of publishers that the RTMP side fills and the
  WebSocket side reads. \<open>AddPublisher\<close> looks the identifier up in one critical section and stores
  the publisher in a second one; both are operations of their own here, and their composition is the
  call without an interleaving. \<open>media_ok\<close> is the invariant of the whole media pipeline: the live
  publishers are exactly the ones in the table, each under its own identifier.
\<close>

section \<open>Operations\<close>

definition empty_world :: media_world where
  "empty_world = \<lparr>h_bufs = [], h_pools = (\<lambda>_. []), w_cons = [], w_pubs = [], w_chan = []\<rparr>"

definition get_publisher :: "string \<Rightarrow> media_world \<Rightarrow> publisher_ref option" where
  "get_publisher i w = map_of (w_chan w) i"

definition store_publisher :: "publisher_ref \<Rightarrow> media_world \<Rightarrow> media_world option" where
  "store_publisher p w = do {
     pub \<leftarrow> deref (w_pubs w) p;
     Some (w\<lparr>w_chan := AList.update (pub_id pub) p (w_chan w)\<rparr>)
   }"

definition add_publisher :: "publisher_ref \<Rightarrow> media_world \<Rightarrow> (media_err option \<times> media_world) option" where
  "add_publisher p w = do {
     pub \<leftarrow> deref (w_pubs w) p;
     (case get_publisher (pub_id pub) w of
        Some _ \<Rightarrow> Some (Some ErrPublisherExists, w)
      | None \<Rightarrow> do {
          w \<leftarrow> store_publisher p w;
          Some (None, w)
        })
   }"

definition remove_publisher ::
    "(string list \<Rightarrow> string list) \<Rightarrow> publisher_ref \<Rightarrow> media_world \<Rightarrow> media_world option" where
  "remove_publisher perm p w = do {
     pub \<leftarrow> deref (w_pubs w) p;
     pub_stop perm p (w\<lparr>w_chan := AList.delete (pub_id pub) (w_chan w)\<rparr>)
   }"

definition mc_add_consumer :: "consumer_ref \<Rightarrow> media_world \<Rightarrow> (media_err option \<times> media_world) option" where
  "mc_add_consumer i w = do {
     c \<leftarrow> deref (w_cons w) i;
     (case get_publisher (wc_pubID c) w of
        None \<Rightarrow> Some (Some ErrNoPublisher, w)
      | Some p \<Rightarrow> pub_add_consumer p i w)
   }"

definition mc_remove_consumer :: "consumer_ref \<Rightarrow> media_world \<Rightarrow> media_world option" where
  "mc_remove_consumer i w = do {
     c \<leftarrow> deref (w_cons w) i;
     (case get_publisher (wc_pubID c) w of
        None \<Rightarrow> Some w
      | Some p \<Rightarrow> pub_remove_consumer p i w)
   }"

section \<open>Invariant\<close>

definition live :: "media_world \<Rightarrow> publisher_ref set" where
  "live w = snd ` set (w_chan w)"

definition table_ok :: "media_world \<Rightarrow> bool" where
  "table_ok w \<longleftrightarrow> distinct (keys (w_chan w))
     \<and> (\<forall>(x, p) \<in> set (w_chan w). pub_id (w_pubs w ! p) = x)
     \<and> (\<forall>p \<in> live w. \<forall>i \<in> members w p. wc_pubID (w_cons w ! i) = pub_id (w_pubs w ! p))"

definition media_ok :: "buf_ref multiset \<Rightarrow> media_world \<Rightarrow> bool" where
  "media_ok H w \<longleftrightarrow> live_ok H (live w) w \<and> table_ok w"

lemma media_okD:
  assumes "media_ok H w"
  shows "live_ok H (live w) w" "distinct (keys (w_chan w))"
    "(x, p) \<in> set (w_chan w) \<Longrightarrow> pub_id (w_pubs w ! p) = x"
    "p \<in> live w \<Longrightarrow> i \<in> members w p \<Longrightarrow> wc_pubID (w_cons w ! i) = pub_id (w_pubs w ! p)"
  using assms by (auto simp: media_ok_def table_ok_def)

lemma live_iff: "p \<in> live w \<longleftrightarrow> (\<exists>x. (x, p) \<in> set (w_chan w))"
  by (force simp: live_def)

lemma live_entry:
  assumes "media_ok H w" and "p \<in> live w"
  shows "map_of (w_chan w) (pub_id (w_pubs w ! p)) = Some p"
proof -
  obtain x where x: "(x, p) \<in> set (w_chan w)" using assms(2) by (auto simp: live_def)
  then show ?thesis
    using media_okD(3) [OF assms(1) x] mem_map_of [OF media_okD(2) [OF assms(1)] x] by simp
qed

lemma table_entry:
  assumes "media_ok H w" and "get_publisher x w = Some p"
  shows "p \<in> live w" and "pub_id (w_pubs w ! p) = x"
proof -
  have x: "(x, p) \<in> set (w_chan w)" using assms(2) map_of_SomeD by (fastforce simp: get_publisher_def)
  then show "p \<in> live w" by (force simp: live_def)
  show "pub_id (w_pubs w ! p) = x" by (rule media_okD(3) [OF assms(1) x])
qed

text \<open>A consumer can only be in the publisher its identifier names.\<close>

lemma member_of_named:
  assumes "media_ok H w" and "p \<in> live w" and "i \<in> members w p"
  shows "get_publisher (wc_pubID (w_cons w ! i)) w = Some p"
  using live_entry [OF assms(1,2)] media_okD(4) [OF assms] by (simp add: get_publisher_def)

lemma empty_world_ok: "media_ok {#} empty_world"
proof -
  have "heap_ok {#} empty_world"
    by (rule heap_okI) (simp_all add: empty_world_def queued_def pinned_def pool_ok_def)
  then show ?thesis
    by (simp add: media_ok_def live_ok_def table_ok_def live_def empty_world_def consumers_ok_def keys_def)
qed

text \<open>
  Operations that keep the table, the identifiers and the members keep \<open>table_ok\<close>.
\<close>

lemma table_ok_frame:
  assumes "table_ok w" and "w_chan w' = w_chan w"
    and "\<And>p. p \<in> live w \<Longrightarrow> pub_id (w_pubs w' ! p) = pub_id (w_pubs w ! p)"
    and "\<And>p i. p \<in> live w \<Longrightarrow> i \<in> members w' p \<Longrightarrow>
      i \<in> members w p \<and> wc_pubID (w_cons w' ! i) = wc_pubID (w_cons w ! i)
      \<or> wc_pubID (w_cons w' ! i) = pub_id (w_pubs w ! p)"
  shows "table_ok w'" and "live w' = live w"
proof -
  show live: "live w' = live w" using assms(2) by (simp add: live_def)
  have "pub_id (w_pubs w' ! p) = x" if "(x, p) \<in> set (w_chan w')" for x p
  proof -
    have xp: "(x, p) \<in> set (w_chan w)" using that assms(2) by simp
    then have "p \<in> live w" by (force simp: live_def)
    with xp assms(1,3) show ?thesis by (auto simp: table_ok_def)
  qed
  moreover have "wc_pubID (w_cons w' ! i) = pub_id (w_pubs w' ! p)" if "p \<in> live w'" "i \<in> members w' p" for p i
    using assms(1,3) assms(4) [of p i] that unfolding live table_ok_def by auto
  ultimately show "table_ok w'" using assms(1,2) by (auto simp: table_ok_def)
qed

section \<open>Publishers come and go\<close>

lemma heap_ok_new_pub:
  assumes ok: "heap_ok H w" and none: "\<And>a. \<not> pins pub a"
  shows "heap_ok H (w\<lparr>w_pubs := w_pubs w @ [pub]\<rparr>)" (is "heap_ok H ?w")
proof -
  have pin: "pinned ?w a = pinned w a" for a using none by (simp add: pinned_def)
  show ?thesis
    by (rule heap_okI; use heap_okD [OF ok] heap_ok_fresh [OF ok] heap_ok_pool [OF ok] in \<open>simp add: pin pool_ok_def\<close>)
qed

lemma live_bound: "media_ok H w \<Longrightarrow> p \<in> live w \<Longrightarrow> p < length (w_pubs w)"
  using pub_okD(1) [OF live_okD(3) [OF media_okD(1)]] .

lemma members_same: "w_pubs w' ! p = w_pubs w ! p \<Longrightarrow> members w' p = members w p"
  by (simp add: members_def)

text \<open>A publisher that has just been made.\<close>

definition unpublished :: "publisher_ref \<Rightarrow> media_world \<Rightarrow> bool" where
  "unpublished p w \<longleftrightarrow> p < length (w_pubs w) \<and> p \<notin> live w \<and> pub_consumers (w_pubs w ! p) = None"

lemma new_publisher_ok:
  assumes ok: "media_ok H w"
  shows "media_ok H (snd (new_publisher x w))" and "unpublished (fst (new_publisher x w)) (snd (new_publisher x w))"
    and "pub_id (w_pubs (snd (new_publisher x w)) ! fst (new_publisher x w)) = x"
    and "w_chan (snd (new_publisher x w)) = w_chan w"
proof -
  let ?w = "snd (new_publisher x w)"
  note M = media_okD [OF ok]
  note L = live_okD [OF M(1)]
  have w: "?w = w\<lparr>w_pubs := w_pubs w @ [w_pubs ?w ! length (w_pubs w)]\<rparr>"
    "pub_consumers (w_pubs ?w ! length (w_pubs w)) = None" "pub_id (w_pubs ?w ! length (w_pubs w)) = x"
    "\<not> pins (w_pubs ?w ! length (w_pubs w)) a" for a
    by (simp_all add: new_publisher_def Let_def pins_def)
  have old: "w_pubs ?w ! q = w_pubs w ! q" if "q \<in> live w" for q
    using live_bound [OF ok that] by (simp add: new_publisher_def nth_append Let_def)
  have same: "w_cons ?w = w_cons w" "w_chan ?w = w_chan w" by (simp_all add: new_publisher_def Let_def)
  have live: "live ?w = live w" by (simp add: live_def same)
  have h: "heap_ok H ?w" by (subst w(1)) (rule heap_ok_new_pub [OF L(1) w(4)])
  have pub: "pub_ok ?w q" if "q \<in> live w" for q
    using L(3) [OF that] old [OF that]
    by (simp add: pub_ok_def entry_ok_def closed_of_def same) (simp add: new_publisher_def Let_def)
  have mem: "members ?w q = members w q" if "q \<in> live w" for q by (rule members_same [OF old [OF that]])
  have "live_ok H (live ?w) ?w"
    using h pub L(2,4) mem unfolding live_ok_def live by (simp add: consumers_ok_def same)
  moreover have "table_ok ?w"
    by (rule table_ok_frame(1) [of w]) (use ok same old mem in \<open>auto simp: media_ok_def table_ok_def\<close>)
  ultimately show "media_ok H ?w" by (simp add: media_ok_def)
  have "length (w_pubs w) \<notin> live w" using live_bound [OF ok] by blast
  then show "unpublished (fst (new_publisher x w)) ?w"
    using w(2) live by (simp add: unpublished_def new_publisher_def Let_def)
  show "pub_id (w_pubs ?w ! fst (new_publisher x w)) = x" by (simp add: new_publisher_def Let_def)
  show "w_chan ?w = w_chan w" by (rule same)
qed

lemma add_publisher_new:
  assumes ok: "media_ok H w" and p: "unpublished p w" and free: "get_publisher (pub_id (w_pubs w ! p)) w = None"
  defines "w' \<equiv> w\<lparr>w_chan := w_chan w @ [(pub_id (w_pubs w ! p), p)]\<rparr>"
  shows "add_publisher p w = Some (None, w')" and "media_ok H w'" and "live w' = insert p (live w)"
proof -
  let ?x = "pub_id (w_pubs w ! p)"
  note M = media_okD [OF ok]
  note L = live_okD [OF M(1)]
  have pl: "p < length (w_pubs w)" "p \<notin> live w" "cons_map w p = []" "pub_consumers (w_pubs w ! p) = None"
    using p by (simp_all add: unpublished_def consumers_of_def)
  have none: "map_of (w_chan w) ?x = None" using free by (simp add: get_publisher_def)
  show "add_publisher p w = Some (None, w')"
    using pl free by (simp add: add_publisher_def store_publisher_def update_new none w'_def)
  show live: "live w' = insert p (live w)" by (auto simp: live_def w'_def)
  have "distinct (keys (w_chan w'))"
    using M(2) none by (auto simp: w'_def keys_def dest: weak_map_of_SomeI)
  moreover have mem: "members w' q = members w q" for q by (simp add: members_def w'_def)
  moreover have none_p: "members w p = {}" using pl(3) by (simp add: members_def)
  ultimately have "table_ok w'" using M(3,4) live by (auto simp: table_ok_def w'_def)
  moreover have "pub_ok w' q" if "q \<in> live w'" for q
  proof (cases "q = p")
    case True
    then show ?thesis using pl by (simp add: pub_ok_def w'_def keys_def)
  next
    case False
    then have "pub_ok w q" using that live L(3) by simp
    then show ?thesis by (simp add: pub_ok_def entry_ok_def closed_of_def w'_def)
  qed
  moreover have "heap_ok H w'" 
    unfolding w'_def by (rule heap_okI;
      use heap_okD [OF L(1)] heap_ok_fresh [OF L(1)] heap_ok_pool [OF L(1)] in \<open>simp add: pool_ok_def\<close>)
  moreover have "members w' q \<inter> members w' r = {}" if "q \<in> live w'" "r \<in> live w'" "q \<noteq> r" for q r
    using that L(4) [of q r] none_p unfolding mem live by auto
  moreover have "consumers_ok w'" using L(2) by (simp add: consumers_ok_def w'_def)
  ultimately show "media_ok H w'" by (simp add: media_ok_def live_ok_def)
qed

lemma add_publisher_exists:
  "p < length (w_pubs w) \<Longrightarrow> get_publisher (pub_id (w_pubs w ! p)) w \<noteq> None \<Longrightarrow>
     add_publisher p w = Some (Some ErrPublisherExists, w)"
  by (auto simp: add_publisher_def)

lemma live_ok_chan:
  assumes "live_ok H L w"
  shows "live_ok H L (w\<lparr>w_chan := c\<rparr>)"
proof -
  note L = live_okD [OF assms]
  have "heap_ok H (w\<lparr>w_chan := c\<rparr>)"
    by (rule heap_okI;
      use heap_okD [OF L(1)] heap_ok_fresh [OF L(1)] heap_ok_pool [OF L(1)] in \<open>simp add: pool_ok_def\<close>)
  then show ?thesis by (rule live_ok_cong [OF assms]) simp_all
qed

lemma remove_publisher_ok:
  assumes ok: "media_ok H w" and p: "p \<in> live w" and perm: "permutes_keys perm"
  shows "\<exists>w'. remove_publisher perm p w = Some w' \<and> media_ok H w' \<and> live w' = live w - {p}
    \<and> get_publisher (pub_id (w_pubs w ! p)) w' = None
    \<and> (\<forall>i. w_cons w' ! i = (if i \<in> members w p then stopped (w_cons w ! i) else w_cons w ! i))
    \<and> length (w_cons w') = length (w_cons w)
    \<and> w_pubs w' = w_pubs w \<and> h_bufs w' = h_bufs w \<and> h_pools w' = h_pools w"
proof -
  let ?x = "pub_id (w_pubs w ! p)"
  let ?u = "w\<lparr>w_chan := AList.delete ?x (w_chan w)\<rparr>"
  note M = media_okD [OF ok]
  have mem: "members ?u q = members w q" for q by (simp add: members_def)
  from pub_stop_ok [OF live_ok_chan [OF M(1)] p perm, of "AList.delete ?x (w_chan w)"] obtain w' where
    w': "pub_stop perm p ?u = Some w'" "live_ok H (live w - {p}) w'"
    "\<forall>i. w_cons w' ! i = (if i \<in> members w p then stopped (w_cons w ! i) else w_cons w ! i)"
    "length (w_cons w') = length (w_cons w)" "w_pubs w' = w_pubs w" "w_chan w' = AList.delete ?x (w_chan w)"
    "h_bufs w' = h_bufs w" "h_pools w' = h_pools w"
    unfolding mem by auto
  have del: "(y, q) \<in> set (w_chan w') \<longleftrightarrow> (y, q) \<in> set (w_chan w) \<and> y \<noteq> ?x" for y q
    using w'(6) by (simp add: mem_delete)
  have same: "q = p" if "(?x, q) \<in> set (w_chan w)" for q
    using mem_map_of [OF M(2) that] live_entry [OF ok p] by simp
  have "q \<in> live w' \<longleftrightarrow> q \<in> live w \<and> q \<noteq> p" for q
    unfolding live_iff del using M(3) same by blast
  then have live: "live w' = live w - {p}" by blast
  have mem': "members w' q = members w q" for q by (simp add: members_def w'(5))
  have pid: "wc_pubID (w_cons w' ! i) = wc_pubID (w_cons w ! i)" for i using w'(3) by simp
  have "distinct (keys (w_chan w'))" using distinct_keys_delete [OF M(2)] by (simp add: w'(6))
  moreover have "\<forall>(y, q) \<in> set (w_chan w'). pub_id (w_pubs w' ! q) = y"
    using del M(3) by (auto simp: w'(5))
  ultimately have "table_ok w'"
    using M(4) unfolding table_ok_def mem' pid w'(5) live by blast
  then have "media_ok H w'" using w'(2) by (simp add: media_ok_def live)
  moreover have "get_publisher ?x w' = None"
    using w'(6) by (simp add: get_publisher_def delete_conv)
  moreover have "remove_publisher perm p w = Some w'"
    using w'(1) live_bound [OF ok p] by (simp add: remove_publisher_def)
  ultimately show ?thesis using w' live by blast
qed

section \<open>Consumers come and go\<close>

definition add_cons_obj :: "ws_consumer \<Rightarrow> media_world \<Rightarrow> consumer_ref \<times> media_world" where
  "add_cons_obj c w = (length (w_cons w), w\<lparr>w_cons := w_cons w @ [c]\<rparr>)"

text \<open>A consumer that has just been made, up to what its own goroutine may have done.\<close>

definition waiting :: "consumer_ref \<Rightarrow> media_world \<Rightarrow> bool" where
  "waiting i w \<longleftrightarrow> i < length (w_cons w) \<and> \<not> closed_of w i \<and> queue_of w i = []
     \<and> ch_cap (wc_messages (w_cons w ! i)) = 128 \<and> (\<forall>p \<in> live w. i \<notin> members w p)"

lemma member_bound: "live_ok H L w \<Longrightarrow> p \<in> L \<Longrightarrow> i \<in> members w p \<Longrightarrow> i < length (w_cons w)"
  using pub_okD(4) [OF live_okD(3)] by (fastforce simp: members_def entry_ok_def)

lemma add_cons_obj_ok:
  assumes ok: "media_ok H w" and c: "c = new_ws_consumer lib cid pid k"
  shows "media_ok H (snd (add_cons_obj c w))" and "waiting (fst (add_cons_obj c w)) (snd (add_cons_obj c w))"
    and "live (snd (add_cons_obj c w)) = live w"
proof -
  let ?w = "snd (add_cons_obj c w)"
  note M = media_okD [OF ok]
  note L = live_okD [OF M(1)]
  have w: "w_cons ?w = w_cons w @ [c]" "w_pubs ?w = w_pubs w" "w_chan ?w = w_chan w" "h_bufs ?w = h_bufs w"
    "h_pools ?w = h_pools w" by (simp_all add: add_cons_obj_def)
  show live: "live ?w = live w" by (simp add: live_def w)
  have q: "queue_refs a c = 0" for a by (simp add: c new_ws_consumer_def make_chan_def queue_refs_def)
  have queued: "queued ?w a = queued w a" for a by (simp add: queued_def w q)
  have pinned: "pinned ?w a = pinned w a" for a by (simp add: pinned_def w)
  have h: "heap_ok H ?w"
    by (rule heap_okI;
      use heap_okD [OF L(1)] heap_ok_fresh [OF L(1)] heap_ok_pool [OF L(1)] in
        \<open>simp add: w queued pinned pool_ok_def\<close>)
  have mem: "members ?w p = members w p" for p by (simp add: members_def w)
  have old: "w_cons ?w ! i = w_cons w ! i" if "p \<in> live w" "i \<in> members w p" for p i
    using member_bound [OF M(1) that] by (simp add: w nth_append)
  have pub: "pub_ok ?w p" if p: "p \<in> live w" for p
    by (rule pub_ok_frame [OF L(3) [OF p]]) (use old [OF p] in \<open>simp_all add: w closed_of_def\<close>)
  have "consumers_ok ?w" using L(2) new_ws_consumer_ok [of lib cid pid k, folded c] by (simp add: consumers_ok_def w)
  with h pub L(4) have "live_ok H (live ?w) ?w" unfolding live_ok_def mem live by blast
  moreover have "table_ok ?w"
    by (rule table_ok_frame(1) [of w]) (use ok w mem old in \<open>auto simp: media_ok_def\<close>)
  ultimately show "media_ok H ?w" by (simp add: media_ok_def)
  have "length (w_cons w) \<notin> members w p" if "p \<in> live w" for p
    using member_bound [OF M(1) that] by blast
  then show "waiting (fst (add_cons_obj c w)) ?w"
    by (simp add: waiting_def live mem) (simp add: add_cons_obj_def closed_of_def queue_of_def c
      new_ws_consumer_def make_chan_def)
qed

lemma mc_add_consumer_none:
  "i < length (w_cons w) \<Longrightarrow> get_publisher (wc_pubID (w_cons w ! i)) w = None \<Longrightarrow>
     mc_add_consumer i w = Some (Some ErrNoPublisher, w)"
  by (simp add: mc_add_consumer_def)

lemma mc_add_consumer_exists:
  assumes ok: "media_ok H w" and i: "i < length (w_cons w)"
    and p: "get_publisher (wc_pubID (w_cons w ! i)) w = Some p"
    and known: "map_of (cons_map w p) (wc_id (w_cons w ! i)) \<noteq> None"
  shows "mc_add_consumer i w = Some (Some ErrConsumerExists, w)"
  using i p pub_add_consumer_exists [OF i live_bound [OF ok table_entry(1) [OF ok p]] known]
  by (simp add: mc_add_consumer_def)

lemma mc_add_consumer_ok:
  assumes ok: "media_ok H w" and i: "waiting i w"
    and p: "get_publisher (wc_pubID (w_cons w ! i)) w = Some p"
    and new: "map_of (cons_map w p) (wc_id (w_cons w ! i)) = None"
    and limit: "\<And>a. pins (w_pubs w ! p) a \<Longrightarrow> sb_count (h_bufs w ! a) + 3 < ref_limit"
  shows "\<exists>w'. mc_add_consumer i w = Some (None, w') \<and> media_ok H w' \<and> i \<in> members w' p
    \<and> queue_of w' i = initial_messages w (w_pubs w ! p) \<and> \<not> closed_of w' i \<and> live w' = live w"
proof -
  note M = media_okD [OF ok]
  note pl = table_entry [OF ok p]
  have j: "joinable (live w) p i w" using i new by (simp add: joinable_def waiting_def)
  have room: "length (queue_of w i) + 3 \<le> ch_cap (wc_messages (w_cons w ! i))"
    using i by (simp add: waiting_def)
  note pl' = live_bound [OF ok pl(1)]
  from pub_add_consumer_ok [OF M(1) pl(1) j limit room] obtain w' where
    w': "pub_add_consumer p i w = Some (None, w')" "live_ok H (live w) w'"
    "cons_map w' p = cons_map w p @ [(wc_id (w_cons w ! i), \<lparr>cd_consumer = i, cd_sentVideoKeyFrame = False\<rparr>)]"
    "queue_of w' i = queue_of w i @ initial_messages w (w_pubs w ! p)"
    "\<forall>j. j \<noteq> i \<longrightarrow> w_cons w' ! j = w_cons w ! j" "\<not> closed_of w' i"
    "\<forall>q. q \<noteq> p \<longrightarrow> w_pubs w' ! q = w_pubs w ! q" "pub_id (w_pubs w' ! p) = pub_id (w_pubs w ! p)"
    "w_chan w' = w_chan w" "wc_pubID (w_cons w' ! i) = wc_pubID (w_cons w ! i)"
    by blast
  have mem: "members w' q = (if q = p then insert i (members w p) else members w q)" for q
    using w'(3,7) by (simp add: members_def)
  have pid: "pub_id (w_pubs w' ! q) = pub_id (w_pubs w ! q)" for q using w'(7,8) by (cases "q = p") simp_all
  have cid: "wc_pubID (w_cons w' ! j) = wc_pubID (w_cons w ! j)" for j using w'(5,10) by (cases "j = i") simp_all
  note fr = table_ok_frame [of w w', OF _ w'(9)]
  have "table_ok w'" "live w' = live w"
    by (rule fr; use ok pid cid mem pl(2) in \<open>auto simp: media_ok_def split: if_splits\<close>)+
  then show ?thesis
    using w' p i mem by (simp add: mc_add_consumer_def media_ok_def waiting_def)
qed

text \<open>The frame of every other operation.\<close>

lemma media_ok_frame:
  assumes ok: "media_ok H w" and live: "live_ok H' (live w) w'" and chan: "w_chan w' = w_chan w"
    and ids: "\<And>p. p \<in> live w \<Longrightarrow> pub_id (w_pubs w' ! p) = pub_id (w_pubs w ! p)"
    and mem: "\<And>p. p \<in> live w \<Longrightarrow> members w' p \<subseteq> members w p"
    and pid: "\<And>i. i < length (w_cons w) \<Longrightarrow> wc_pubID (w_cons w' ! i) = wc_pubID (w_cons w ! i)"
  shows "media_ok H' w'" and "live w' = live w"
proof -
  have "i \<in> members w p \<and> wc_pubID (w_cons w' ! i) = wc_pubID (w_cons w ! i)"
    if "p \<in> live w" "i \<in> members w' p" for p i
    using mem [OF that(1)] that pid member_bound [OF media_okD(1) [OF ok] that(1)] by blast
  with table_ok_frame [of w w', OF _ chan ids] ok live
  show "media_ok H' w'" "live w' = live w" by (simp_all add: media_ok_def)
qed

lemma mc_remove_consumer_ok:
  assumes ok: "media_ok H w" and i: "i < length (w_cons w)"
  shows "\<exists>w'. mc_remove_consumer i w = Some w' \<and> media_ok H w' \<and> live w' = live w
    \<and> (\<forall>p \<in> live w. i \<notin> members w' p)
    \<and> (get_publisher (wc_pubID (w_cons w ! i)) w \<noteq> None \<longrightarrow> closed_of w' i)
    \<and> length (w_cons w') = length (w_cons w) \<and> h_bufs w' = h_bufs w"
proof (cases "get_publisher (wc_pubID (w_cons w ! i)) w")
  case None
  then have "i \<notin> members w p" if "p \<in> live w" for p
    using member_of_named [OF ok that] by auto
  with None i ok show ?thesis by (simp add: mc_remove_consumer_def)
next
  case (Some p)
  note M = media_okD [OF ok]
  note p = table_entry(1) [OF ok Some] and pl = live_bound [OF ok table_entry(1) [OF ok Some]]
  have mine: "i \<notin> members w q" if "q \<in> live w" "q \<noteq> p" for q
    using member_of_named [OF ok that(1), of i] Some that(2) by auto
  let ?w = "after_stop p i w"
  note st = stop_consumer_ok [OF M(1) p i mine]
  have mem: "members ?w q \<subseteq> members w q" for q by (rule after_stop_members [OF pl])
  have "i \<notin> members ?w p"
  proof
    assume "i \<in> members ?w p"
    then obtain x d where xd: "(x, d) \<in> set (cons_map ?w p)" "cd_consumer d = i" by (auto simp: members_def)
    then have "x \<noteq> wc_id (w_cons w ! i)" "(x, d) \<in> set (cons_map w p)"
      using pl by (auto simp: after_stop_def cons_map_drop)
    then show False
      using pub_okD(4) [OF live_okD(3) [OF M(1) p], of x d] xd(2) by (simp add: entry_ok_def)
  qed
  then have out: "i \<notin> members ?w q" if "q \<in> live w" for q
    using mine [OF that] mem [of q] by (cases "q = p") auto
  have keep: "w_chan ?w = w_chan w" "h_bufs ?w = h_bufs w" "length (w_cons ?w) = length (w_cons w)"
    by (simp_all add: after_stop_def)
  have pid: "pub_id (w_pubs ?w ! q) = pub_id (w_pubs w ! q)" for q
    using pl by (cases "q = p") (simp_all add: after_stop_def)
  have cid: "wc_pubID (w_cons ?w ! j) = wc_pubID (w_cons w ! j)" for j
    using i by (cases "j = i") (simp_all add: after_stop_def)
  have fr: "media_ok H ?w" "live ?w = live w"
    by (rule media_ok_frame [OF ok st(2)]; use keep(1) pid mem cid in simp)+
  have "closed_of ?w i"
    using i stopped_ok [OF consumers_okD [OF live_okD(2) [OF M(1)] i]] by (simp add: closed_of_def after_stop_def)
  moreover have "mc_remove_consumer i w = Some ?w"
    using Some i st(1) by (simp add: mc_remove_consumer_def pub_remove_consumer_def)
  ultimately show ?thesis using fr keep out by auto
qed

lemma send_outcome_frame:
  assumes "send_outcome p m w w'" and "p < length (w_pubs w)"
  shows "w_chan w' = w_chan w" "pub_id (w_pubs w' ! q) = pub_id (w_pubs w ! q)"
    "members w' q \<subseteq> members w q" "wc_pubID (w_cons w' ! i) = wc_pubID (w_cons w ! i)"
    "length (w_cons w') = length (w_cons w)"
proof -
  note out = assms(1)[unfolded send_outcome_def]
  show "w_chan w' = w_chan w" "length (w_cons w') = length (w_cons w)" using out by blast+
  have "pub_id (w_pubs w' ! p) = pub_id (w_pubs w ! p)"
    using out assms(2) by (auto simp: after_store_def)
  then show "pub_id (w_pubs w' ! q) = pub_id (w_pubs w ! q)" using out by (cases "q = p") auto
  show "members w' q \<subseteq> members w q"
  proof (cases "q = p")
    case True
    have "cons_map w' p = fanned m w (cons_map w p)" using out by blast
    then show ?thesis unfolding True members_def by (force simp: fanned_def)
  next
    case False
    then have "w_pubs w' ! q = w_pubs w ! q" using out by blast
    then show ?thesis by (simp add: members_def)
  qed
  have "w_cons w' ! i = sent_cons p m w i" using out by blast
  then show "wc_pubID (w_cons w' ! i) = wc_pubID (w_cons w ! i)"
    by (simp add: sent_cons_def cons_out_def push_message_def split: option.splits)
qed

lemma send_message_media:
  assumes ok: "media_ok H w" and p: "p \<in> live w" and a: "m_data m < length (h_bufs w)"
    and pos: "0 < sb_count (h_bufs w ! m_data m)"
    and room: "sb_count (h_bufs w ! m_data m) + length (cons_map w p) < ref_limit"
    and perm: "permutes_keys perm"
  shows "\<exists>w'. send_message perm p m w = Some w' \<and> media_ok H w' \<and> live w' = live w \<and> send_outcome p m w w'"
proof -
  from send_message_ok [OF media_okD(1) [OF ok] p a pos room perm] obtain w' where
    w': "send_message perm p m w = Some w'" "live_ok H (live w) w'" "send_outcome p m w w'" by blast
  note fr = send_outcome_frame [OF w'(3) live_bound [OF ok p]]
  have "media_ok H w'" "live w' = live w"
    by (rule media_ok_frame [OF ok w'(2)]; use fr in simp)+
  with w' show ?thesis by blast
qed

lemma send_meta_data_media:
  assumes ok: "media_ok H w" and p: "p \<in> live w" and room: "Suc (length (cons_map w p)) < ref_limit"
    and perm: "permutes_keys perm"
  shows "\<exists>w'. send_meta_data perm p md w = Some (None, w') \<and> media_ok H w' \<and> live w' = live w
    \<and> send_outcome p (meta_message (length (h_bufs w))) (after_meta p md w) w'"
proof -
  note M = media_okD(1) [OF ok] and pl = live_bound [OF ok p]
  from send_meta_data_ok [OF M p room perm, of md] obtain w' where
    w': "send_meta_data perm p md w = Some (None, w')" "live_ok H (live w) w'"
    "send_outcome p (meta_message (length (h_bufs w))) (after_meta p md w) w'" by blast
  have len: "p < length (w_pubs (after_meta p md w))" using pl by (simp add: after_meta_def)
  note fr = send_outcome_frame [OF w'(3) len]
  have mem: "members (after_meta p md w) q = members w q" for q
    by (simp add: members_def after_meta_ok(2) [OF M p])
  have base: "w_chan (after_meta p md w) = w_chan w" "w_cons (after_meta p md w) = w_cons w"
    "pub_id (w_pubs (after_meta p md w) ! q) = pub_id (w_pubs w ! q)" for q
    using pl by (cases "q = p"; simp add: after_meta_def)+
  have "media_ok H w'" "live w' = live w"
    by (rule media_ok_frame [OF ok w'(2)]; use fr base mem in simp)+
  with w' show ?thesis by blast
qed

end
