(* ===== verification/MediaSystem.thy ===== *)
theory MediaSystem
  imports MediaChannel Systems
begin

text \<open>
  The media pipeline as one machine: RTMP sessions that publish, take buffers, fill them, send and
  release them, and WebSocket consumers that join, read and leave, in any order. An operation is one
  call of the code; \<open>AddPublisher\<close> is only its second critical section, the store, since others run between
  the two. \<open>allowed\<close> states what the sessions guarantee when they make the call: they send and release
  only buffers they hold, through a publisher that is in the table, a publisher is stored once and under an
  identifier that is free, a consumer joins once, and fewer than \<open>2^31\<close> references exist per buffer.
\<close>

section \<open>Buffers\<close>

lemma same_objects_media:
  assumes ok: "media_ok H w" and h: "heap_ok H' w'" and so: "same_objects w w'"
  shows "media_ok H' w'" and "live w' = live w"
proof -
  note so' = same_objectsD [OF so]
  have "live_ok H' (live w) w'"
    by (rule live_ok_cong [OF media_okD(1) [OF ok] h]) (simp_all add: so')
  then show "media_ok H' w'" "live w' = live w"
    by (rule media_ok_frame [OF ok]; simp add: so' members_def)+
qed

definition fill_buffer :: "buf_ref \<Rightarrow> byte list \<Rightarrow> media_world \<Rightarrow> media_world option" where
  "fill_buffer a bytes w = do {
     b \<leftarrow> deref (h_bufs w) a;
     (case sb_write bytes b of (_, _, b') \<Rightarrow> Some (w\<lparr>h_bufs := (h_bufs w)[a := b']\<rparr>))
   }"

lemma sb_write_frame:
  assumes "sb_ok b" and "sb_write bytes b = (n, e, b')"
  shows "sb_ok b'" "sb_refs b' = sb_refs b" "length (sb_buf b') = length (sb_buf b)" "sb_pool b' = sb_pool b"
  using assms by (auto simp: sb_write_def Let_def sb_ok_def split: if_splits)

lemma fill_buffer_ok:
  assumes ok: "media_ok H w" and a: "a \<in># H"
  shows "\<exists>w'. fill_buffer a bytes w = Some w' \<and> media_ok H w' \<and> same_objects w w'"
proof -
  note h = live_okD(1) [OF media_okD(1) [OF ok]]
  have al: "a < length (h_bufs w)" by (rule heap_ok_held [OF h a])
  obtain n e b' where b': "sb_write bytes (h_bufs w ! a) = (n, e, b')" by (cases "sb_write bytes (h_bufs w ! a)")
  note D = heap_okD [OF h al]
  have "0 < count H a" using a by simp
  then have pos: "0 < sb_count (h_bufs w ! a)" using D(3) by linarith
  let ?w = "w\<lparr>h_bufs := (h_bufs w)[a := b']\<rparr>"
  note fr = sb_write_frame [OF D(1) b']
  have "heap_ok H ?w" by (rule heap_ok_write [OF h al fr pos])
  then have "media_ok H ?w" by (rule same_objects_media [OF ok]) (simp add: same_objects_def)
  then show ?thesis using al b' by (simp add: fill_buffer_def same_objects_def)
qed

definition pool_of :: "pool_kind \<Rightarrow> publisher \<Rightarrow> pool_ref" where
  "pool_of k pub = (case k of VideoPool \<Rightarrow> pub_videoPool pub | AudioPool \<Rightarrow> pub_audioPool pub)"

definition acquire_buffer ::
    "pool_choice \<Rightarrow> pool_kind \<Rightarrow> publisher_ref \<Rightarrow> media_world \<Rightarrow> (buf_ref \<times> media_world) option" where
  "acquire_buffer pick k p w =
     (case k of VideoPool \<Rightarrow> acquire_video_buffer pick p w | AudioPool \<Rightarrow> acquire_audio_buffer pick p w)"

lemma acquire_buffer_ok:
  assumes ok: "media_ok H w" and p: "p < length (w_pubs w)"
  shows "\<exists>a w'. acquire_buffer pick k p w = Some (a, w') \<and> media_ok (add_mset a H) w' \<and> live w' = live w
    \<and> owned_empty (pool_of k (w_pubs w ! p)) (h_bufs w' ! a) \<and> a \<notin># H \<and> queued w' a = 0 \<and> \<not> pinned w' a
    \<and> same_objects w w' \<and> a < length (h_bufs w')
    \<and> (\<forall>x < length (h_bufs w). x \<noteq> a \<longrightarrow> h_bufs w' ! x = h_bufs w ! x)"
proof -
  note h = live_okD(1) [OF media_okD(1) [OF ok]]
  let ?pr = "pool_of k (w_pubs w ! p)"
  obtain a w' where g: "acquire_from_pool pick ?pr w = Some (a, w')" "heap_ok (add_mset a H) w'"
    "owned_empty ?pr (h_bufs w' ! a)" "a < length (h_bufs w')" "count H a = 0" "queued w' a = 0"
    "\<not> pinned w' a" "same_objects w w'"
    "\<forall>x < length (h_bufs w). x \<noteq> a \<longrightarrow> h_bufs w' ! x = h_bufs w ! x"
    using acquire_from_pool_ok [OF h, where pick = pick and pr = ?pr] by metis
  have "acquire_buffer pick k p w = Some (a, w')"
    using g(1) p by (cases k) (simp_all add: acquire_buffer_def acquire_video_buffer_def acquire_audio_buffer_def pool_of_def)
  with g same_objects_media [OF ok g(2,8)] show ?thesis by (auto simp: count_eq_zero_iff)
qed

lemma release_media:
  assumes ok: "media_ok (add_mset a H) w"
  shows "h_release a w = Some (released a w)" and "media_ok H (released a w)" and "live (released a w) = live w"
proof -
  note h = live_okD(1) [OF media_okD(1) [OF ok]]
  note rel = heap_ok_release [OF h]
  show "h_release a w = Some (released a w)" by (rule rel)
  show "media_ok H (released a w)" "live (released a w) = live w"
    by (rule same_objects_media [OF ok rel(2)]; simp)+
qed

section \<open>The reading goroutine in the system\<close>

lemma read_step_media:
  assumes ok: "media_ok H w" and i: "i < length (w_cons w)"
  shows "read_messages_step lib i pc w = Some Blocked
    \<or> (\<exists>pc' w'. read_messages_step lib i pc w = Some (Stepped pc' w') \<and> media_ok H w' \<and> live w' = live w)"
proof -
  note M = media_okD(1) [OF ok]
  note L = live_okD [OF M]
  from read_messages_step_ok [OF L(1,2) i, of lib pc] show ?thesis
  proof (elim disjE exE conjE)
    fix pc' w'
    assume s: "read_messages_step lib i pc w = Some (Stepped pc' w')" "heap_ok H w'" "consumers_ok w'"
      "length (w_cons w') = length (w_cons w)" "closed_of w' i = closed_of w i"
      "\<forall>j. j \<noteq> i \<longrightarrow> w_cons w' ! j = w_cons w ! j" "w_pubs w' = w_pubs w" "w_chan w' = w_chan w"
      "ids_of (w_cons w' ! i) = ids_of (w_cons w ! i)"
    have ids: "wc_id (w_cons w' ! j) = wc_id (w_cons w ! j)" "wc_pubID (w_cons w' ! j) = wc_pubID (w_cons w ! j)"
      "closed_of w' j = closed_of w j" for j
      using s(5,6,9) by (cases "j = i"; simp add: ids_of_def closed_of_def)+
    have mem: "members w' p = members w p" for p by (simp add: members_def s(7))
    have "pub_ok w' p" if "p \<in> live w" for p
      by (rule pub_ok_frame [OF L(3) [OF that]]) (simp_all add: s ids)
    then have lo: "live_ok H (live w) w'" using s(2,3) L(4) unfolding live_ok_def mem by blast
    have "media_ok H w'" "live w' = live w"
      by (rule media_ok_frame [OF ok lo s(8)]; simp add: s(7) mem ids)+
    with s(1) show ?thesis by blast
  qed blast+
qed

section \<open>The machine\<close>

record media_sys =
  ms_world :: media_world
  ms_held :: "buf_ref multiset"
  ms_pc :: "consumer_ref \<Rightarrow> reader_pc"

datatype media_op =
  Create string
| Store publisher_ref
| Unpublish "string list \<Rightarrow> string list" publisher_ref
| Take pool_choice pool_kind publisher_ref
| Fill buf_ref "byte list"
| Drop buf_ref
| Send "string list \<Rightarrow> string list" publisher_ref message
| Describe "string list \<Rightarrow> string list" publisher_ref meta_data
| Connect string string conn
| Join consumer_ref
| Leave consumer_ref
| Read consumer_ref

definition init_sys :: media_sys where
  "init_sys = \<lparr>ms_world = empty_world, ms_held = {#}, ms_pc = (\<lambda>_. Writing)\<rparr>"

definition exec :: "ws_lib \<Rightarrow> media_op \<Rightarrow> media_sys \<Rightarrow> media_sys option" where
  "exec lib op s =
     (let w = ms_world s in
      case op of
        Create x \<Rightarrow> (case new_publisher x w of (p, w) \<Rightarrow> Some (s\<lparr>ms_world := w\<rparr>))
      | Store p \<Rightarrow> do {
            w \<leftarrow> store_publisher p w;
            Some (s\<lparr>ms_world := w\<rparr>)
          }
      | Unpublish perm p \<Rightarrow> do {
            w \<leftarrow> remove_publisher perm p w;
            Some (s\<lparr>ms_world := w\<rparr>)
          }
      | Take pick k p \<Rightarrow> do {
            (a, w) \<leftarrow> acquire_buffer pick k p w;
            Some (s\<lparr>ms_world := w, ms_held := add_mset a (ms_held s)\<rparr>)
          }
      | Fill a bytes \<Rightarrow> do {
            w \<leftarrow> fill_buffer a bytes w;
            Some (s\<lparr>ms_world := w\<rparr>)
          }
      | Drop a \<Rightarrow> do {
            w \<leftarrow> h_release a w;
            Some (s\<lparr>ms_world := w, ms_held := ms_held s - {#a#}\<rparr>)
          }
      | Send perm p m \<Rightarrow> do {
            w \<leftarrow> send_message perm p m w;
            Some (s\<lparr>ms_world := w\<rparr>)
          }
      | Describe perm p md \<Rightarrow> do {
            (e, w) \<leftarrow> send_meta_data perm p md w;
            Some (s\<lparr>ms_world := w\<rparr>)
          }
      | Connect cid pid k \<Rightarrow> (case add_cons_obj (new_ws_consumer lib cid pid k) w of (i, w) \<Rightarrow>
            Some (s\<lparr>ms_world := w, ms_pc := (ms_pc s)(i := Writing)\<rparr>))
      | Join i \<Rightarrow> do {
            (e, w) \<leftarrow> mc_add_consumer i w;
            Some (s\<lparr>ms_world := w\<rparr>)
          }
      | Leave i \<Rightarrow> do {
            w \<leftarrow> mc_remove_consumer i w;
            Some (s\<lparr>ms_world := w\<rparr>)
          }
      | Read i \<Rightarrow> do {
            r \<leftarrow> read_messages_step lib i (ms_pc s i) w;
            (case r of
               Blocked \<Rightarrow> Some s
             | Stepped pc w \<Rightarrow> Some (s\<lparr>ms_world := w, ms_pc := (ms_pc s)(i := pc)\<rparr>))
          })"

text \<open>What the callers guarantee.\<close>

definition room_for :: "media_world \<Rightarrow> publisher_ref \<Rightarrow> bool" where
  "room_for w p \<longleftrightarrow> (\<forall>a. pins (w_pubs w ! p) a \<longrightarrow> sb_count (h_bufs w ! a) + 3 < ref_limit)"

fun allowed :: "media_op \<Rightarrow> media_sys \<Rightarrow> bool" where
  "allowed (Create x) s = True"
| "allowed (Store p) s = (unpublished p (ms_world s)
     \<and> get_publisher (pub_id (w_pubs (ms_world s) ! p)) (ms_world s) = None)"
| "allowed (Unpublish perm p) s = (permutes_keys perm \<and> p \<in> live (ms_world s))"
| "allowed (Take pick k p) s = (p < length (w_pubs (ms_world s)))"
| "allowed (Fill a bytes) s = (a \<in># ms_held s)"
| "allowed (Drop a) s = (a \<in># ms_held s)"
| "allowed (Send perm p m) s = (permutes_keys perm \<and> p \<in> live (ms_world s) \<and> m_data m \<in># ms_held s
     \<and> sb_count (h_bufs (ms_world s) ! m_data m) + length (cons_map (ms_world s) p) < ref_limit)"
| "allowed (Describe perm p md) s = (permutes_keys perm \<and> p \<in> live (ms_world s)
     \<and> Suc (length (cons_map (ms_world s) p)) < ref_limit)"
| "allowed (Connect cid pid k) s = True"
| "allowed (Join i) s = (waiting i (ms_world s) \<and> (\<forall>p \<in> live (ms_world s). room_for (ms_world s) p))"
| "allowed (Leave i) s = (i < length (w_cons (ms_world s)))"
| "allowed (Read i) s = (i < length (w_cons (ms_world s)))"

definition sys_ok :: "media_sys \<Rightarrow> bool" where
  "sys_ok s \<longleftrightarrow> media_ok (ms_held s) (ms_world s)"

text \<open>The store of \<open>AddPublisher\<close>, with the identifier free.\<close>

lemma store_publisher_new:
  assumes "media_ok H w" and "unpublished p w" and "get_publisher (pub_id (w_pubs w ! p)) w = None"
  shows "store_publisher p w = Some (w\<lparr>w_chan := w_chan w @ [(pub_id (w_pubs w ! p), p)]\<rparr>)"
    and "media_ok H (w\<lparr>w_chan := w_chan w @ [(pub_id (w_pubs w ! p), p)]\<rparr>)"
    and "live (w\<lparr>w_chan := w_chan w @ [(pub_id (w_pubs w ! p), p)]\<rparr>) = insert p (live w)"
  using add_publisher_new [OF assms] assms(2,3) by (simp_all add: add_publisher_def unpublished_def bind_Some_iff)

lemma join_ok:
  assumes ok: "media_ok H w" and i: "waiting i w" and room: "\<forall>p \<in> live w. room_for w p"
  shows "\<exists>e w'. mc_add_consumer i w = Some (e, w') \<and> media_ok H w'"
proof (cases "get_publisher (wc_pubID (w_cons w ! i)) w")
  case None
  then show ?thesis using mc_add_consumer_none [OF _ None] i ok by (auto simp: waiting_def)
next
  case (Some p)
  have limit: "sb_count (h_bufs w ! a) + 3 < ref_limit" if "pins (w_pubs w ! p) a" for a
    using room table_entry(1) [OF ok Some] that by (auto simp: room_for_def)
  show ?thesis
  proof (cases "map_of (cons_map w p) (wc_id (w_cons w ! i))")
    case None
    from mc_add_consumer_ok [OF ok i Some None limit] show ?thesis by blast
  next
    case (Some d)
    then show ?thesis
      using mc_add_consumer_exists [OF ok _ \<open>get_publisher _ _ = Some p\<close>] i ok by (auto simp: waiting_def)
  qed
qed

lemma exec_ok:
  assumes ok: "sys_ok s" and al: "allowed op s"
  shows "\<exists>s'. exec lib op s = Some s' \<and> sys_ok s'"
proof -
  let ?w = "ms_world s"
  note m = ok[unfolded sys_ok_def]
  note h = live_okD(1) [OF media_okD(1) [OF m]]
  show ?thesis
  proof (cases op)
    case (Create x)
    then show ?thesis using new_publisher_ok(1) [OF m, of x] by (auto simp: exec_def sys_ok_def split: prod.split)
  next
    case (Store p)
    with al store_publisher_new [OF m, of p] show ?thesis by (simp add: exec_def sys_ok_def)
  next
    case (Unpublish perm p)
    with al remove_publisher_ok [OF m, of p perm] show ?thesis by (auto simp: exec_def sys_ok_def)
  next
    case (Take pick k p)
    with al acquire_buffer_ok [OF m, of p pick k] show ?thesis by (auto simp: exec_def sys_ok_def)
  next
    case (Fill a bytes)
    with al fill_buffer_ok [OF m, of a bytes] show ?thesis by (auto simp: exec_def sys_ok_def)
  next
    case (Drop a)
    then have "ms_held s = add_mset a (ms_held s - {#a#})" using al by simp
    with release_media [of a "ms_held s - {#a#}" ?w] m show ?thesis by (auto simp: Drop exec_def sys_ok_def)
  next
    case (Send perm p msg)
    then have a: "m_data msg < length (h_bufs ?w)" "0 < count (ms_held s) (m_data msg)"
      using al heap_ok_held [OF h] by simp_all
    have "0 < sb_count (h_bufs ?w ! m_data msg)" using heap_okD(3) [OF h a(1)] a(2) by linarith
    with send_message_media [OF m, of p msg perm] a al Send show ?thesis by (auto simp: exec_def sys_ok_def)
  next
    case (Describe perm p md)
    with al send_meta_data_media [OF m, of p perm md] show ?thesis by (auto simp: exec_def sys_ok_def)
  next
    case (Connect cid pid k)
    from add_cons_obj_ok(1) [OF m refl, of lib cid pid k] show ?thesis
      by (auto simp: Connect exec_def sys_ok_def split: prod.splits)
  next
    case (Join i)
    with al join_ok [OF m, of i] show ?thesis by (auto simp: exec_def sys_ok_def)
  next
    case (Leave i)
    with al mc_remove_consumer_ok [OF m, of i] show ?thesis by (auto simp: exec_def sys_ok_def)
  next
    case (Read i)
    with al read_step_media [OF m, of i lib "ms_pc s i"] ok show ?thesis
      by (auto simp: exec_def sys_ok_def)
  qed
qed

interpretation media: panic_free "\<lambda>s. s = init_sys" allowed "exec lib" sys_ok for lib
proof unfold_locales
  show "sys_ok s" if "s = init_sys" for s using that empty_world_ok by (simp add: sys_ok_def init_sys_def)
qed (rule exec_ok)

end
