(* ===== verification/Flv.thy ===== *)
theory Flv
  imports GoIO
begin

text \<open>
  \<open>container/flv/flv.go\<close>: the audio and video tag headers of an FLV tag body. A header is the
  array it is read into; reading may fail with the error of \<open>io.ReadFull\<close>.
\<close>

definition AudioTagHeaderSize :: nat where "AudioTagHeaderSize = 2"
definition VideoTagHeaderSize :: nat where "VideoTagHeaderSize = 5"

definition VideoCodecH264 :: u8 where "VideoCodecH264 = 7"
definition AudioCodecAAC :: u8 where "AudioCodecAAC = 10"

definition PacketSeqHeader :: u8 where "PacketSeqHeader = 0"
definition PacketData :: u8 where "PacketData = 1"

lemmas flv_consts = AudioTagHeaderSize_def VideoTagHeaderSize_def VideoCodecH264_def
  AudioCodecAAC_def PacketSeqHeader_def PacketData_def

text \<open>
  \<open>Read\<close> fills the array from the reader; on an error the bytes read so far replace its start.
\<close>

definition tag_header_read :: "nat \<Rightarrow> byte list \<Rightarrow> reader \<Rightarrow> io_err option \<times> byte list \<times> reader" where
  "tag_header_read n buf r =
     (case read_full n [] r of (d, e, r') \<Rightarrow> (e, blit 0 d buf, r'))"

definition audio_tag_read :: "byte list \<Rightarrow> reader \<Rightarrow> io_err option \<times> byte list \<times> reader" where
  "audio_tag_read = tag_header_read AudioTagHeaderSize"

definition audio_tag_codec :: "byte list \<Rightarrow> u8" where
  "audio_tag_codec buf = drop_bit 4 (buf ! 0 AND 0b11110000)"

definition audio_tag_packet_type :: "byte list \<Rightarrow> u8" where
  "audio_tag_packet_type buf = buf ! 1"

definition video_tag_read :: "byte list \<Rightarrow> reader \<Rightarrow> io_err option \<times> byte list \<times> reader" where
  "video_tag_read = tag_header_read VideoTagHeaderSize"

definition video_tag_codec :: "byte list \<Rightarrow> u8" where
  "video_tag_codec buf = buf ! 0 AND 0b00001111"

definition video_tag_packet_type :: "byte list \<Rightarrow> u8" where
  "video_tag_packet_type buf = buf ! 1"

text \<open>A fresh header is the zero array.\<close>

definition new_tag_header :: "nat \<Rightarrow> byte list" where
  "new_tag_header n = replicate n 0"

lemma tag_header_read_ok:
  assumes "tag_header_read n (new_tag_header n) r = (None, hdr, r')"
  shows "length hdr = n \<and> content r = hdr @ content r'"
proof -
  obtain d e s where rf: "read_full n [] r = (d, e, s)" by (cases "read_full n [] r")
  with assms have "e = None" "s = r'" "hdr = blit 0 d (new_tag_header n)"
    by (auto simp: tag_header_read_def)
  with read_full_any [OF rf] show ?thesis
    by (auto simp: blit_def new_tag_header_def)
qed

lemma tag_header_read_plain:
  assumes "plain r" and "tag_header_read n (new_tag_header n) r = (e, hdr, r')"
  shows "plain r'" and "n \<le> length (content r) \<Longrightarrow> e = None"
proof -
  obtain d f s where rf: "read_full n [] r = (d, f, s)" by (cases "read_full n [] r")
  with assms(2) have *: "f = e" "s = r'" by (auto simp: tag_header_read_def)
  show "plain r'" using read_full_plain [OF assms(1) rf] * by simp
  show "e = None" if "n \<le> length (content r)"
    using read_full_enough [OF assms(1) that] rf * by auto
qed

end
