(* ===== verification/Rtmp.thy ===== *)
theory Rtmp
  imports MediaSystem Flv
begin

text \<open>
  \<open>transport/rtmp/rtmp.go\<close>: how a session turns RTMP messages into media messages. The RTMP
  library is not part of the repository: its messages are the fields the code reads, their payload a
  reader. The choices of the runtime (the pooled buffer, the order of a map iteration) are an
  argument per acquired buffer. A loop whose iterations depend on the buffers' capacities is a
  \<open>partial_function\<close>: not returning and panicking both are \<open>None\<close>, and the lemmas
  show that neither happens.
\<close>

record runtime =
  rt_pick :: pool_choice
  rt_perm :: "string list \<Rightarrow> string list"

datatype rtmp_err =
  ErrReadSeqHeader io_err
| ErrSeqHeaderNotRead
| ErrDiscardNALU io_err
| ErrReadNALUHeader io_err
| ErrWriteNALUHeader io_err
| ErrReadN io_err
| ErrReadTagHeader io_err
| ErrInvalidVideoCodec
| ErrInvalidAudioCodec
| ErrInvalidFLVPacket
| ErrMetaData io_err

definition naluHdrSize :: nat where "naluHdrSize = 5"
definition naluTypeIDR :: u8 where "naluTypeIDR = 5"
definition naluTypeNonIDR :: u8 where "naluTypeNonIDR = 1"

definition discardBufSize :: u32 where "discardBufSize = 16 * 1024"

record rtmp_session =
  rs_userID :: u64
  rs_pub :: "publisher_ref option"
  rs_naluHdr :: "byte list"

text \<open>The fields of a video or audio message of the library.\<close>

record av_message =
  av_timestamp :: u32
  av_length :: u32
  av_data :: reader

section \<open>Sequence headers\<close>

definition set_buf :: "buf_ref \<Rightarrow> shared_buffer \<Rightarrow> media_world \<Rightarrow> media_world" where
  "set_buf a b w = w\<lparr>h_bufs := (h_bufs w)[a := b]\<rparr>"

definition send_seq_header ::
    "runtime \<Rightarrow> u8 \<Rightarrow> reader \<Rightarrow> u32 \<Rightarrow> rtmp_session \<Rightarrow> media_world \<Rightarrow>
       (rtmp_err option \<times> reader \<times> media_world) option" where
  "send_seq_header rt ty r toRead s w = do {
     p \<leftarrow> rs_pub s;
     (a, w) \<leftarrow> acquire_audio_buffer (rt_pick rt) p w;
     b \<leftarrow> deref (h_bufs w) a;
     (case sb_read_n r (unat toRead) b of (n, err, b, r) \<Rightarrow>
        let w = set_buf a b w in
        case err of
          Some e \<Rightarrow> do {
            w \<leftarrow> h_release a w;
            Some (Some (ErrReadSeqHeader e), r, w)
          }
        | None \<Rightarrow>
            if n \<noteq> unat toRead
            then do {
              w \<leftarrow> h_release a w;
              Some (Some ErrSeqHeaderNotRead, r, w)
            }
            else do {
              w \<leftarrow> send_message (rt_perm rt) p \<lparr>m_type = ty, m_flags = 0, m_timestamp = 0,
                m_length = of_nat (sb_length b), m_data = a\<rparr> w;
              w \<leftarrow> h_release a w;
              Some (None, r, w)
            })
   }"

section \<open>Video\<close>

text \<open>\<open>discardNALU\<close>: reads into the transport's scratch buffer until enough was read.\<close>

lemma go_read_consumes:
  assumes "go_read n r = (c, None, r')" and "0 < n"
  shows "length r' + length (content r') < length r + length (content r)"
  using assms by (cases "(n, r)" rule: go_read.cases) (auto split: if_splits)

lemma discard_chunk_pos:
  assumes "d < (n :: u32)"
  shows "0 < unat (if n - d < discardBufSize then n - d else discardBufSize)"
proof -
  have "n - d \<noteq> 0" using assms by (metis eq_iff_diff_eq_0 less_irrefl)
  then show ?thesis by (simp add: unat_gt_0 discardBufSize_def)
qed

function discard_nalu :: "u32 \<Rightarrow> u32 \<Rightarrow> reader \<Rightarrow> io_err option \<times> reader" where
  "discard_nalu naluLen discarded r =
     (if discarded < naluLen
      then let toRead = (if naluLen - discarded < discardBufSize then naluLen - discarded else discardBufSize)
           in case go_read (unat toRead) r of (c, err, r') \<Rightarrow>
             let discarded' = (if length c > 0 then discarded + of_nat (length c) else discarded)
             in case err of
               Some e \<Rightarrow> (if e = EOF \<and> discarded' < naluLen then (Some ErrUnexpectedEOF, r') else (Some e, r'))
             | None \<Rightarrow> discard_nalu naluLen discarded' r'
      else (None, r))"
  by pat_completeness auto
termination
proof (relation "measure (\<lambda>(n, d, r). length r + length (content r))", goal_cases)
  case 1
  then show ?case by simp
next
  case 2
  from 2(1) discard_chunk_pos [OF 2(1)] 2 show ?case
    by (auto dest!: go_read_consumes [OF sym])
qed

declare discard_nalu.simps [simp del]

text \<open>
  The loop of \<open>sendVideoData\<close>: \<open>k\<close> counts the acquired buffers. The first buffer already holds
  the NALU header; later ones are acquired inside the loop.
\<close>

partial_function (option) video_loop ::
    "(nat \<Rightarrow> runtime) \<Rightarrow> publisher_ref \<Rightarrow> u32 \<Rightarrow> u32 \<Rightarrow> u8 \<Rightarrow> nat \<Rightarrow> buf_ref option \<Rightarrow> bool \<Rightarrow> nat \<Rightarrow>
       reader \<Rightarrow> media_world \<Rightarrow> (rtmp_err option \<times> reader \<times> media_world) option" where
  "video_loop rts p ts naluLen naluType k sharedBuf firstMesg remaining r w =
     (if remaining > 0
      then do {
        (a, w) \<leftarrow> (case sharedBuf of
           None \<Rightarrow> acquire_video_buffer (rt_pick (rts k)) p w
         | Some a \<Rightarrow> Some (a, w));
        b \<leftarrow> deref (h_bufs w) a;
        (case sb_read_n r remaining b of (n, err, b, r) \<Rightarrow>
           let w = set_buf a b w in
           case err of
             Some e \<Rightarrow> do {
               w \<leftarrow> h_release a w;
               Some (Some (ErrReadN e), r, w)
             }
           | None \<Rightarrow> do {
               w \<leftarrow> send_message (rt_perm (rts k)) p
                 \<lparr>m_type = MesgVideo,
                  m_flags = (if naluType = naluTypeIDR then FlagKeyFrame else 0)
                     OR (if \<not> firstMesg then FlagContinuation else 0),
                  m_timestamp = ts, m_length = of_nat naluHdrSize + naluLen, m_data = a\<rparr> w;
               w \<leftarrow> h_release a w;
               video_loop rts p ts naluLen naluType (Suc k) None False (remaining - n) r w
             })
      }
      else Some (None, r, w))"

text \<open>\<open>sendVideoData\<close>: the first component says that the message has no more data.\<close>

definition send_video_data ::
    "(nat \<Rightarrow> runtime) \<Rightarrow> u32 \<Rightarrow> reader \<Rightarrow> rtmp_session \<Rightarrow> media_world \<Rightarrow>
       ((bool \<times> rtmp_err option) \<times> reader \<times> rtmp_session \<times> media_world) option" where
  "send_video_data rts ts r s w =
     (case read_full naluHdrSize [] r of (d, err, r) \<Rightarrow>
        let naluHdr = blit 0 d (rs_naluHdr s);
            s = s\<lparr>rs_naluHdr := naluHdr\<rparr>
        in case err of
          Some e \<Rightarrow>
            if e = EOF then Some ((True, None), r, s, w)
            else Some ((False, Some (ErrReadNALUHeader ErrUnexpectedEOF)), r, s, w)
        | None \<Rightarrow>
            let naluLen = of_be_u32 naluHdr - 1;
                naluType = naluHdr ! 4 AND 0b00011111
            in
            if naluType \<noteq> naluTypeNonIDR \<and> naluType \<noteq> naluTypeIDR
            then (case discard_nalu naluLen 0 r of
                (Some e, r) \<Rightarrow> Some ((False, Some (ErrDiscardNALU e)), r, s, w)
              | (None, r) \<Rightarrow> Some ((False, None), r, s, w))
            else do {
              p \<leftarrow> rs_pub s;
              (a, w) \<leftarrow> acquire_video_buffer (rt_pick (rts 0)) p w;
              b \<leftarrow> deref (h_bufs w) a;
              (case sb_write naluHdr b of (_, werr, b) \<Rightarrow>
                 let w = set_buf a b w in
                 case werr of
                   Some e \<Rightarrow> do {
                     w \<leftarrow> h_release a w;
                     Some ((False, Some (ErrWriteNALUHeader e)), r, s, w)
                   }
                 | None \<Rightarrow> do {
                     (e, r, w) \<leftarrow> video_loop rts p ts naluLen naluType 0 (Some a) True (unat naluLen) r w;
                     Some ((False, e), r, s, w)
                   })
            })"

text \<open>The loop of \<open>onVideoMessage\<close> over the NALUs of a message; \<open>j\<close> counts them.\<close>

partial_function (option) video_nalus ::
    "(nat \<Rightarrow> nat \<Rightarrow> runtime) \<Rightarrow> nat \<Rightarrow> u32 \<Rightarrow> reader \<Rightarrow> rtmp_session \<Rightarrow> media_world \<Rightarrow>
       (rtmp_err option \<times> reader \<times> rtmp_session \<times> media_world) option" where
  "video_nalus rtss j ts r s w = do {
     ((done, err), r, s, w) \<leftarrow> send_video_data (rtss j) ts r s w;
     (case err of
        Some e \<Rightarrow> Some (Some e, r, s, w)
      | None \<Rightarrow> if done then Some (None, r, s, w) else video_nalus rtss (Suc j) ts r s w)
   }"

definition on_video_message ::
    "(nat \<Rightarrow> nat \<Rightarrow> runtime) \<Rightarrow> av_message \<Rightarrow> rtmp_session \<Rightarrow> media_world \<Rightarrow>
       (rtmp_err option \<times> rtmp_session \<times> media_world) option" where
  "on_video_message rtss m s w =
     (case video_tag_read (new_tag_header VideoTagHeaderSize) (av_data m) of (e, hdr, r) \<Rightarrow>
        case e of
          Some e \<Rightarrow> Some (Some (ErrReadTagHeader e), s, w)
        | None \<Rightarrow>
            if video_tag_codec hdr \<noteq> VideoCodecH264 then Some (Some ErrInvalidVideoCodec, s, w)
            else if video_tag_packet_type hdr = PacketSeqHeader
            then do {
              (e, r, w) \<leftarrow> send_seq_header (rtss 0 0) MesgVideoSeqHdr r
                (av_length m - of_nat VideoTagHeaderSize) s w;
              Some (e, s, w)
            }
            else if video_tag_packet_type hdr = PacketData
            then do {
              (e, r, s, w) \<leftarrow> video_nalus rtss 0 (av_timestamp m) r s w;
              Some (e, s, w)
            }
            else Some (Some ErrInvalidFLVPacket, s, w))"

section \<open>Audio\<close>

text \<open>
  The loop of \<open>sendAudioData\<close>. Its buffer variable is nil at the start of every iteration, so
  each iteration acquires a buffer of its own.
\<close>

partial_function (option) audio_loop ::
    "(nat \<Rightarrow> runtime) \<Rightarrow> publisher_ref \<Rightarrow> u32 \<Rightarrow> u32 \<Rightarrow> nat \<Rightarrow> bool \<Rightarrow> u32 \<Rightarrow>
       reader \<Rightarrow> media_world \<Rightarrow> (rtmp_err option \<times> reader \<times> media_world) option" where
  "audio_loop rts p ts len k firstMesg remaining r w =
     (if remaining > 0
      then do {
        (a, w) \<leftarrow> acquire_audio_buffer (rt_pick (rts k)) p w;
        b \<leftarrow> deref (h_bufs w) a;
        (case sb_read_n r (unat remaining) b of (n, err, b, r) \<Rightarrow>
           let w = set_buf a b w in
           case err of
             Some e \<Rightarrow> do {
               w \<leftarrow> h_release a w;
               Some (Some (ErrReadN e), r, w)
             }
           | None \<Rightarrow> do {
               w \<leftarrow> send_message (rt_perm (rts k)) p
                 \<lparr>m_type = MesgAudio, m_flags = (if \<not> firstMesg then FlagContinuation else 0),
                  m_timestamp = ts, m_length = len - of_nat AudioTagHeaderSize, m_data = a\<rparr> w;
               w \<leftarrow> h_release a w;
               audio_loop rts p ts len (Suc k) False (remaining - of_nat n) r w
             })
      }
      else Some (None, r, w))"

definition send_audio_data ::
    "(nat \<Rightarrow> runtime) \<Rightarrow> av_message \<Rightarrow> reader \<Rightarrow> rtmp_session \<Rightarrow> media_world \<Rightarrow>
       (rtmp_err option \<times> reader \<times> media_world) option" where
  "send_audio_data rts m r s w =
     (let remaining = av_length m - of_nat AudioTagHeaderSize
      in if remaining > 0
         then do {
           p \<leftarrow> rs_pub s;
           audio_loop rts p (av_timestamp m) (av_length m) 0 True remaining r w
         }
         else Some (None, r, w))"

definition on_audio_message ::
    "(nat \<Rightarrow> runtime) \<Rightarrow> av_message \<Rightarrow> rtmp_session \<Rightarrow> media_world \<Rightarrow>
       (rtmp_err option \<times> rtmp_session \<times> media_world) option" where
  "on_audio_message rts m s w =
     (case audio_tag_read (new_tag_header AudioTagHeaderSize) (av_data m) of (e, hdr, r) \<Rightarrow>
        case e of
          Some e \<Rightarrow> Some (Some (ErrReadTagHeader e), s, w)
        | None \<Rightarrow>
            if audio_tag_codec hdr \<noteq> AudioCodecAAC then Some (Some ErrInvalidAudioCodec, s, w)
            else if audio_tag_packet_type hdr = PacketSeqHeader
            then do {
              (e, r, w) \<leftarrow> send_seq_header (rts 0) MesgAudioSeqHdr r
                (av_length m - of_nat AudioTagHeaderSize) s w;
              Some (e, s, w)
            }
            else if audio_tag_packet_type hdr = PacketData
            then do {
              (e, r, w) \<leftarrow> send_audio_data rts m r s w;
              Some (e, s, w)
            }
            else Some (Some ErrInvalidFLVPacket, s, w))"

section \<open>Meta data\<close>

record meta_data_message =
  mm_width :: u16
  mm_height :: u16
  mm_frameRate :: u8
  mm_videoDataRate :: u16
  mm_audioChannels :: u8
  mm_audioSampleRate :: u32
  mm_audioDataRate :: u16

definition on_meta_data_message ::
    "runtime \<Rightarrow> meta_data_message \<Rightarrow> rtmp_session \<Rightarrow> media_world \<Rightarrow> (rtmp_err option \<times> media_world) option" where
  "on_meta_data_message rt m s w = do {
     p \<leftarrow> rs_pub s;
     (e, w) \<leftarrow> send_meta_data (rt_perm rt) p
       \<lparr>md_videoFrameRate = mm_frameRate m, md_videoDataRate = mm_videoDataRate m,
        md_videoWidth = mm_width m, md_videoHeight = mm_height m,
        md_audioChannels = mm_audioChannels m, md_audioDataRate = mm_audioDataRate m,
        md_audioSampleRate = mm_audioSampleRate m\<rparr> w;
     Some (map_option ErrMetaData e, w)
   }"

end
