(* ===== verification/RtmpOk.thy ===== *)
theory RtmpOk
  imports Rtmp
begin

text \<open>
  What the RTMP handlers guarantee: every message handler returns, never panics, gives back every
  buffer it holds, and hands a consumer that keeps up the bytes of the payload in order, cut into
  frames that fit the buffers.
\<close>

section \<open>One fragment: fill, send, release\<close>

lemma map_of_fanned:
  assumes "distinct (keys xs)"
  shows "map_of (fanned m w xs) x = (case map_of xs x of None \<Rightarrow> None
    | Some d \<Rightarrow> if overflows m d (w_cons w ! cd_consumer d) then None
        else Some (data_out m d (w_cons w ! cd_consumer d)))"
  using assms
proof (induction xs)
  case Nil
  then show ?case by (simp add: fanned_def)
next
  case (Cons e xs)
  obtain y d where e: "e = (y, d)" by (cases e)
  have IH: "map_of (fanned m w xs) x = (case map_of xs x of None \<Rightarrow> None
    | Some d \<Rightarrow> if overflows m d (w_cons w ! cd_consumer d) then None
        else Some (data_out m d (w_cons w ! cd_consumer d)))"
    using Cons by (simp add: keys_def)
  have new: "map_of xs y = None" using Cons.prems by (simp add: e keys_def map_of_eq_None_iff)
  have step: "fanned m w ((y, d) # xs) = (if overflows m d (w_cons w ! cd_consumer d) then []
      else [(y, data_out m d (w_cons w ! cd_consumer d))]) @ fanned m w xs"
    by (simp add: fanned_def)
  show ?case unfolding e step using IH new by (cases "x = y") auto
qed

lemma entry_facts:
  assumes "entry w p i = Some d"
  shows "map_of (cons_map w p) (wc_id (w_cons w ! i)) = Some d" "cd_consumer d = i"
  using assms by (auto simp: entry_def split: option.splits if_splits)

lemma sent_entry:
  assumes out: "send_outcome p m w w'" and dist: "distinct (keys (cons_map w p))"
    and d: "entry w p i = Some d" and tk: "takes m d (w_cons w ! i)"
  shows "entry w' p i = Some (data_out m d (w_cons w ! i))" and "queue_of w' i = queue_of w i @ [m]"
    and "ch_cap (wc_messages (w_cons w' ! i)) = ch_cap (wc_messages (w_cons w ! i))"
    and "0 < kept_refs p m w"
proof -
  note e = entry_facts [OF d]
  have no: "\<not> overflows m d (w_cons w ! i)" using tk by (simp add: takes_def overflows_def)
  have c: "w_cons w' ! i = push_message m (w_cons w ! i)"
    using out d no tk by (simp add: send_outcome_def sent_cons_def cons_out_def)
  show "queue_of w' i = queue_of w i @ [m]"
    "ch_cap (wc_messages (w_cons w' ! i)) = ch_cap (wc_messages (w_cons w ! i))"
    using c by (simp_all add: queue_of_def)
  have cm: "cons_map w' p = fanned m w (cons_map w p)" using out by (simp add: send_outcome_def)
  show "entry w' p i = Some (data_out m d (w_cons w ! i))"
    using e no c by (simp add: entry_def cm map_of_fanned [OF dist])
  have "(wc_id (w_cons w ! i), d) \<in> set (filter (\<lambda>(x, d). \<not> skips m d) (cons_map w p))"
    using map_of_SomeD [OF e(1)] tk by (simp add: takes_def)
  then show "0 < kept_refs p m w" unfolding kept_refs_def by (metis length_pos_if_in_set)
qed

lemma set_buf_simps [simp]:
  "w_cons (set_buf a b w) = w_cons w" "w_pubs (set_buf a b w) = w_pubs w" "w_chan (set_buf a b w) = w_chan w"
  "length (h_bufs (set_buf a b w)) = length (h_bufs w)"
  by (simp_all add: set_buf_def)

lemma set_buf_media:
  assumes ok: "media_ok H w" and a: "a \<in># H" and b: "sb_ok b"
    and same: "sb_refs b = sb_refs (h_bufs w ! a)" "length (sb_buf b) = length (sb_buf (h_bufs w ! a))"
      "sb_pool b = sb_pool (h_bufs w ! a)"
  shows "media_ok H (set_buf a b w)" and "live (set_buf a b w) = live w" and "h_bufs (set_buf a b w) ! a = b"
proof -
  note h = live_okD(1) [OF media_okD(1) [OF ok]]
  have al: "a < length (h_bufs w)" by (rule heap_ok_held [OF h a])
  have "0 < count H a" using a by simp
  then have "0 < sb_count (h_bufs w ! a)" using heap_okD(3) [OF h al] by linarith
  then have hb: "heap_ok H (set_buf a b w)"
    unfolding set_buf_def by (rule heap_ok_write [OF h al b same])
  show "media_ok H (set_buf a b w)" "live (set_buf a b w) = live w"
    by (rule same_objects_media [OF ok hb]; simp add: same_objects_def)+
  show "h_bufs (set_buf a b w) ! a = b" using al by (simp add: set_buf_def)
qed

text \<open>What sending and releasing a buffer does for one consumer that has room.\<close>

definition delivered :: "publisher_ref \<Rightarrow> consumer_ref \<Rightarrow> message \<Rightarrow> byte list \<Rightarrow> media_world \<Rightarrow> media_world \<Rightarrow> bool" where
  "delivered p i m bytes w w' \<longleftrightarrow> (\<forall>d. entry w p i = Some d \<longrightarrow> takes m d (w_cons w ! i) \<longrightarrow>
     queue_of w' i = queue_of w i @ [m] \<and> entry w' p i = Some (data_out m d (w_cons w ! i))
     \<and> ch_cap (wc_messages (w_cons w' ! i)) = ch_cap (wc_messages (w_cons w ! i)) \<and> bytes_of w' m = bytes)"

text \<open>Sending appends to the queues and writes nothing.\<close>

definition written_of :: "media_world \<Rightarrow> consumer_ref \<Rightarrow> byte list list \<times> byte list" where
  "written_of w i = (wc_bufs (w_cons w ! i), cn_out (wc_conn (w_cons w ! i)))"

definition queue_grows :: "consumer_ref \<Rightarrow> media_world \<Rightarrow> media_world \<Rightarrow> bool" where
  "queue_grows i w w' \<longleftrightarrow> (\<exists>ms. queue_of w' i = queue_of w i @ ms) \<and> written_of w' i = written_of w i"

lemma queue_grows_trans: "queue_grows i u v \<Longrightarrow> queue_grows i v w \<Longrightarrow> queue_grows i u w"
  by (auto simp: queue_grows_def)

lemma queue_grows_same:
  "ch_queue (wc_messages (w_cons w' ! i)) = ch_queue (wc_messages (w_cons w ! i)) \<Longrightarrow> wc_bufs (w_cons w' ! i) = wc_bufs (w_cons w ! i)
     \<Longrightarrow> cn_out (wc_conn (w_cons w' ! i)) = cn_out (wc_conn (w_cons w ! i)) \<Longrightarrow> queue_grows i w w'"
  by (simp add: queue_grows_def queue_of_def written_of_def)

lemma queue_grows_cong: "w_cons v' = w_cons w' \<Longrightarrow> queue_grows i w v' = queue_grows i w w'"
  "w_cons v = w_cons w \<Longrightarrow> queue_grows i v w' = queue_grows i w w'"
  by (simp_all add: queue_grows_def queue_of_def written_of_def)

lemma send_outcome_queue: "send_outcome p m w w' \<Longrightarrow> queue_grows i w w'"
  by (auto simp: send_outcome_def sent_cons_def queue_grows_def written_of_def queue_of_def stopped_def cons_out_def push_message_def
      split: option.split)

lemma fragment_ok:
  assumes ok: "media_ok (add_mset a H) w" and p: "p \<in> live w" and b: "sb_ok b"
    and same: "sb_refs b = sb_refs (h_bufs w ! a)" "length (sb_buf b) = length (sb_buf (h_bufs w ! a))"
      "sb_pool b = sb_pool (h_bufs w ! a)"
    and one: "sb_count (h_bufs w ! a) = 1" and room: "Suc (length (cons_map w p)) < ref_limit"
    and perm: "permutes_keys perm" and m: "m_data m = a"
  shows "\<exists>w'. (do { w \<leftarrow> send_message perm p m (set_buf a b w); h_release a w }) = Some w'
    \<and> media_ok H w' \<and> live w' = live w \<and> w_chan w' = w_chan w \<and> length (cons_map w' p) \<le> length (cons_map w p)
    \<and> (\<forall>x < length (h_bufs w). x \<noteq> a \<longrightarrow> h_bufs w' ! x = h_bufs w ! x)
    \<and> length (h_bufs w) \<le> length (h_bufs w')
    \<and> pub_audioPool (w_pubs w' ! p) = pub_audioPool (w_pubs w ! p)
    \<and> pub_videoPool (w_pubs w' ! p) = pub_videoPool (w_pubs w ! p)
    \<and> (\<forall>i. delivered p i m (sb_bytes b) w w') \<and> (\<forall>i. queue_grows i w w')
    \<and> length (w_cons w') = length (w_cons w)"
proof -
  let ?u = "set_buf a b w"
  note st = set_buf_media [OF ok _ b same, simplified]
  have h: "heap_ok (add_mset a H) ?u" by (rule live_okD(1) [OF media_okD(1) [OF st(1)]])
  have al: "a < length (h_bufs ?u)" using heap_ok_held [OF h, of a] by simp
  have cnt: "sb_count b = 1" using same(1) one by (simp add: sb_count_def)
  have pu: "p \<in> live ?u" using p st(2) by simp
  have pos: "0 < sb_count (h_bufs ?u ! m_data m)" by (simp add: m st(3) cnt)
  have rm: "sb_count (h_bufs ?u ! m_data m) + length (cons_map ?u p) < ref_limit" using room by (simp add: m st(3) cnt)
  from send_message_media [OF st(1) pu _ pos rm perm] al m obtain w1 where
    w1: "send_message perm p m ?u = Some w1" "media_ok (add_mset a H) w1" "live w1 = live ?u"
    "send_outcome p m ?u w1" by auto
  note cn = send_outcome_count [OF w1(4) _ rm, unfolded m, OF al]
  note rel = release_media [OF w1(2)]
  note so = same_objectsD [OF same_objects_released, of a w1]
  have cm: "cons_map (released a w1) p = fanned m ?u (cons_map w p)"
    using w1(4) by (simp add: so(2)) (simp add: send_outcome_def)
  have "length (fanned m ?u (cons_map w p)) \<le> length (cons_map w p)" by (simp add: fanned_def)
  moreover have "h_bufs (released a w1) ! x = h_bufs w ! x" if "x < length (h_bufs w)" "x \<noteq> a" for x
    using that cn(3) [of x] by (simp add: set_buf_def)
  moreover have "delivered p i m (sb_bytes b) w (released a w1)" for i
    unfolding delivered_def
  proof (intro allI impI)
    fix d assume d: "entry w p i = Some d" and tk: "takes m d (w_cons w ! i)"
    have dist: "distinct (keys (cons_map ?u p))"
      using pub_okD(2) [OF live_okD(3) [OF media_okD(1) [OF st(1)] pu]] by simp
    have du: "entry ?u p i = Some d" using d by (simp add: entry_def)
    note se = sent_entry [OF w1(4) dist du]
    have tu: "takes m d (w_cons ?u ! i)" using tk by simp
    have "sb_count (h_bufs w1 ! a) \<noteq> 1" using cn(1) se(4) [OF tu] st(3) cnt by simp
    then have "bytes_of (released a w1) m = sb_bytes b"
      using released_bytes [of w1 a] cn(2) st(3) by (simp add: bytes_of_def m)
    moreover have "entry (released a w1) p i = entry w1 p i" by (simp add: entry_def so)
    ultimately show "queue_of (released a w1) i = queue_of w i @ [m]
      \<and> entry (released a w1) p i = Some (data_out m d (w_cons w ! i))
      \<and> ch_cap (wc_messages (w_cons (released a w1) ! i)) = ch_cap (wc_messages (w_cons w ! i))
      \<and> bytes_of (released a w1) m = sb_bytes b"
      using se [OF tu] by (simp add: queue_of_def so)
  qed
  moreover have "length (h_bufs w) \<le> length (h_bufs (released a w1))"
    using w1(4) after_store_buf(2) [of ?u p m] by (simp add: send_outcome_def)
  moreover have "pub_audioPool (w_pubs (released a w1) ! p) = pub_audioPool (w_pubs w ! p)"
    "pub_videoPool (w_pubs (released a w1) ! p) = pub_videoPool (w_pubs w ! p)"
    using w1(4) live_bound [OF ok p] by (auto simp: so send_outcome_def after_store_def keep_header_def)
  moreover have "w_chan (released a w1) = w_chan w" using w1(4) by (simp add: so send_outcome_def)
  moreover have "queue_grows i w (released a w1)" for i
    using send_outcome_queue [OF w1(4), of i] queue_grows_cong(1) [OF so(1)] queue_grows_cong(2) [of ?u w] by simp
  moreover have "length (w_cons (released a w1)) = length (w_cons w)" using w1(4) by (simp add: so send_outcome_def)
  ultimately show ?thesis
    using w1(1,3) rel st(2) cm by auto
qed

section \<open>Streams of fragments\<close>

text \<open>
  What one consumer sees of a run of fragments: the messages appended to its channel carry the
  given bytes, and what was queued before still reads the same.
\<close>

fun framed :: "u8 \<Rightarrow> u8 \<Rightarrow> u32 \<Rightarrow> u32 \<Rightarrow> bool \<Rightarrow> message list \<Rightarrow> bool" where
  "framed ty fl ts len first [] = True"
| "framed ty fl ts len first (m # ms) =
     (m_type m = ty \<and> m_flags m = fl OR (if first then 0 else FlagContinuation) \<and> m_timestamp m = ts
      \<and> m_length m = len \<and> framed ty fl ts len False ms)"

definition sees :: "consumer_ref \<Rightarrow> media_world \<Rightarrow> media_world \<Rightarrow> message list \<Rightarrow> byte list \<Rightarrow> bool" where
  "sees i w w' ms bytes \<longleftrightarrow> queue_of w' i = queue_of w i @ ms \<and> concat (map (bytes_of w') ms) = bytes
     \<and> (\<forall>m \<in> set (queue_of w i). bytes_of w' m = bytes_of w m)"

lemma sees_Cons:
  assumes "queue_of w1 i = queue_of w i @ [m]" and "bytes_of w1 m = b"
    and "\<forall>x \<in> set (queue_of w i). bytes_of w1 x = bytes_of w x" and "sees i w1 w2 ms bs"
  shows "sees i w w2 (m # ms) (b @ bs)"
  using assms by (simp add: sees_def)

lemma queue_data_queued:
  assumes "m \<in> set (queue_of w i)" and "i < length (w_cons w)"
  shows "0 < queued w (m_data m)"
proof -
  have "0 < queue_refs (m_data m) (w_cons w ! i)"
    using assms(1) count_list_0_iff [of "map m_data (queue_of w i)" "m_data m"]
    unfolding queue_refs_def queue_of_def by (auto simp: neq0_conv [symmetric] simp del: neq0_conv)
  then show ?thesis using queue_refs_le [OF assms(2), of "m_data m"] by linarith
qed

lemma entry_bound: "pub_ok w p \<Longrightarrow> entry w p i = Some d \<Longrightarrow> i < length (w_cons w)"
  using pub_okD(5) [OF _ entry_facts(1)] entry_facts(2) by (fastforce simp: entry_ok_def)

text \<open>How many buffers of a capacity a run of bytes takes.\<close>

definition pieces :: "nat \<Rightarrow> nat \<Rightarrow> nat" where
  "pieces cap n = (n + cap - 1) div cap"

lemma pieces_0 [simp]: "0 < cap \<Longrightarrow> pieces cap 0 = 0"
  by (simp add: pieces_def)

lemma pieces_le: "0 < n \<Longrightarrow> n \<le> cap \<Longrightarrow> pieces cap n = 1"
  by (simp add: pieces_def div_nat_eqI)

lemma pieces_step: "0 < cap \<Longrightarrow> cap \<le> n \<Longrightarrow> pieces cap n = Suc (pieces cap (n - cap))"
  using div_add_self2 [of cap "n - 1"] by (simp add: pieces_def)

lemma pool_cap_pos: "0 < pool_cap k"
  by (cases k) simp_all

lemma unat_minus_of_nat32: "n \<le> unat (x :: u32) \<Longrightarrow> unat (x - of_nat n) = unat x - n"
proof -
  assume n: "n \<le> unat x"
  have e: "unat (of_nat n :: u32) = n" by (rule le_unat_uoi [OF n])
  then have "of_nat n \<le> x" using n by (simp add: word_le_nat_alt)
  then show ?thesis using unat_sub [of "of_nat n" x] e by simp
qed

section \<open>Audio\<close>

text \<open>
  What is queued stays queued, in its place, its bytes stay what they are, and nothing is written to the
  connections of consumers.
\<close>

definition queues_kept :: "media_world \<Rightarrow> media_world \<Rightarrow> bool" where
  "queues_kept w w' \<longleftrightarrow> length (w_cons w') = length (w_cons w)
     \<and> (\<forall>i < length (w_cons w). queue_grows i w w'
          \<and> (\<forall>m \<in> set (queue_of w i). bytes_of w' m = bytes_of w m))"

lemma queues_kept_refl [simp]: "queues_kept w w"
  by (simp add: queues_kept_def queue_grows_same)

lemma queues_kept_trans:
  assumes "queues_kept u v" and "queues_kept v w"
  shows "queues_kept u w"
  unfolding queues_kept_def
proof (intro conjI allI impI)
  show "length (w_cons w) = length (w_cons u)" using assms by (simp add: queues_kept_def)
next
  fix i assume "i < length (w_cons u)"
  moreover from this have "i < length (w_cons v)" using assms(1) by (simp add: queues_kept_def)
  ultimately have q: "queue_grows i u v" "\<forall>m \<in> set (queue_of u i). bytes_of v m = bytes_of u m"
    "queue_grows i v w" "\<forall>m \<in> set (queue_of v i). bytes_of w m = bytes_of v m"
    using assms unfolding queues_kept_def by blast+
  show "queue_grows i u w" by (rule queue_grows_trans [OF q(1,3)])
  show "\<forall>m \<in> set (queue_of u i). bytes_of w m = bytes_of u m" using q by (auto simp: queue_grows_def)
qed

text \<open>It suffices that only a buffer is touched that is in no queue.\<close>

lemma queues_kept_unqueued:
  assumes "heap_ok H w" and "queued w a = 0" and "\<And>x. x < length (h_bufs w) \<Longrightarrow> x \<noteq> a \<Longrightarrow> sb_bytes (h_bufs w' ! x) = sb_bytes (h_bufs w ! x)"
    and "\<And>i. queue_grows i w w'" and "length (w_cons w') = length (w_cons w)"
  shows "queues_kept w w'"
proof -
  have "bytes_of w' m = bytes_of w m" if "i < length (w_cons w)" "m \<in> set (queue_of w i)" for i m
  proof -
    have "0 < queued w (m_data m)" by (rule queue_data_queued [OF that(2,1)])
    with assms(2) heap_ok_queued [OF assms(1)] show ?thesis by (auto simp: bytes_of_def intro!: assms(3))
  qed
  with assms(4,5) show ?thesis by (simp add: queues_kept_def)
qed

lemma sole_unqueued:
  assumes "heap_ok (add_mset a H) w" and "sb_count (h_bufs w ! a) = 1"
  shows "queued w a = 0"
proof -
  have "a < length (h_bufs w)" by (rule heap_ok_held [OF assms(1)]) simp
  from heap_okD(3) [OF assms(1) this] assms(2) show ?thesis by simp
qed

lemma same_objects_queue: "same_objects w w' \<Longrightarrow> queue_grows i w w'"
  by (simp add: queue_grows_same same_objects_def)

text \<open>The only reference to a buffer is given back, whatever was written to it before.\<close>

lemma queues_kept_returned:
  assumes "media_ok (add_mset a H) w" and "sb_count (h_bufs w ! a) = 1"
  shows "queues_kept w (released a (set_buf a b w))"
proof -
  note h = live_okD(1) [OF media_okD(1) [OF assms(1)]]
  have so: "same_objects w (released a (set_buf a b w))"
    by (rule same_objects_trans [of _ "set_buf a b w"]) (simp_all add: same_objects_def [of w])
  show ?thesis
  proof (rule queues_kept_unqueued [OF h sole_unqueued [OF h assms(2)]])
    show "length (w_cons (released a (set_buf a b w))) = length (w_cons w)" using same_objectsD(1) [OF so] by simp
  qed (use same_objects_queue [OF so] in \<open>simp_all add: set_buf_def\<close>)
qed

lemma queues_kept_written:
  assumes "media_ok (add_mset a H) w" and "sb_count (h_bufs w ! a) = 1"
  shows "queues_kept w (set_buf a b w)"
proof -
  note h = live_okD(1) [OF media_okD(1) [OF assms(1)]]
  show ?thesis
    by (rule queues_kept_unqueued [OF h sole_unqueued [OF h assms(2)]]) (simp_all add: set_buf_def queue_grows_same)
qed

text \<open>What a handler leaves behind, whatever the outcome.\<close>

definition handled :: "buf_ref multiset \<Rightarrow> publisher_ref \<Rightarrow> media_world \<Rightarrow> media_world \<Rightarrow> bool" where
  "handled H p w w' \<longleftrightarrow> media_ok H w' \<and> live w' = live w \<and> w_chan w' = w_chan w \<and> length (cons_map w' p) \<le> length (cons_map w p)
     \<and> pub_audioPool (w_pubs w' ! p) = pub_audioPool (w_pubs w ! p)
     \<and> pub_videoPool (w_pubs w' ! p) = pub_videoPool (w_pubs w ! p) \<and> queues_kept w w'"

lemma handled_trans: "handled H p u v \<Longrightarrow> handled K p v w \<Longrightarrow> handled K p u w"
  using queues_kept_trans by (auto simp: handled_def)

text \<open>Acquiring a buffer keeps all objects and everything that is queued.\<close>

lemma acquired_frame:
  assumes ok: "media_ok H w" and p: "p \<in> live w"
  obtains a w' where "acquire_buffer pick k p w = Some (a, w')" "handled (add_mset a H) p w w'"
    "owned_empty (pool_of k (w_pubs w ! p)) (h_bufs w' ! a)" "a < length (h_bufs w')" "same_objects w w'"
    "\<And>i m. i < length (w_cons w) \<Longrightarrow> m \<in> set (queue_of w i) \<Longrightarrow> m_data m \<noteq> a \<and> bytes_of w' m = bytes_of w m
      \<and> m_data m < length (h_bufs w')"
proof -
  from acquire_buffer_ok [OF ok live_bound [OF ok p], of pick k] obtain a w' where
    g: "acquire_buffer pick k p w = Some (a, w')" "media_ok (add_mset a H) w'" "live w' = live w"
    "owned_empty (pool_of k (w_pubs w ! p)) (h_bufs w' ! a)" "queued w' a = 0" "same_objects w w'"
    "a < length (h_bufs w')" "\<forall>x < length (h_bufs w). x \<noteq> a \<longrightarrow> h_bufs w' ! x = h_bufs w ! x"
    by blast
  note so = same_objectsD [OF g(6)]
  have old: "m_data m \<noteq> a \<and> bytes_of w' m = bytes_of w m \<and> m_data m < length (h_bufs w')"
    if "i < length (w_cons w)" "m \<in> set (queue_of w i)" for i m
  proof -
    have q: "0 < queued w (m_data m)" by (rule queue_data_queued [OF that(2,1)])
    then have "m_data m \<noteq> a" using g(5) so(4) [of a] by auto
    moreover have "m_data m < length (h_bufs w)"
      by (rule heap_ok_queued [OF live_okD(1) [OF media_okD(1) [OF ok]] q])
    moreover have "m_data m < length (h_bufs w')"
      by (rule heap_ok_queued [OF live_okD(1) [OF media_okD(1) [OF g(2)]]]) (simp add: so q)
    ultimately show ?thesis using g(8) by (simp add: bytes_of_def)
  qed
  show ?thesis
    by (rule that [OF g(1) _ g(4,7,6) old]) (use old in \<open>simp_all add: handled_def g(2,3) so queues_kept_def queue_grows_same\<close>)
qed

text \<open>
  One round of either loop: read into a buffer the session holds, send it, release it.
\<close>

lemma round_ok:
  assumes ok: "media_ok (add_mset a H) w" and p: "p \<in> live w" and one: "sb_count (h_bufs w ! a) = 1"
    and room: "Suc (length (cons_map w p)) < ref_limit" and perm: "permutes_keys perm" and m: "m_data m = a"
    and rd: "sb_read_n r n (h_bufs w ! a) = (k, e, b, r')"
  obtains (failed) w' got where "e \<noteq> None" "h_release a (set_buf a b w) = Some w'" "handled H p w w'"
      "content r = got @ content r'" "length got < n" "\<not> (plain r \<and> n \<le> length (content r))"
  | (sent) w' got where "e = None" "(do { w \<leftarrow> send_message perm p m (set_buf a b w); h_release a w }) = Some w'"
      "handled H p w w'" "content r = got @ content r'" "length got = k"
      "k = min n (length (sb_buf (h_bufs w ! a)) - sb_len (h_bufs w ! a))"
      "\<And>i. delivered p i m (sb_bytes (h_bufs w ! a) @ got) w w'"
      "\<And>i x. i < length (w_cons w) \<Longrightarrow> x \<in> set (queue_of w i) \<Longrightarrow> m_data x \<noteq> a \<Longrightarrow> bytes_of w' x = bytes_of w x"
      "plain r \<and> n \<le> length (content r) \<longrightarrow> plain r'"
proof -
  note h = live_okD(1) [OF media_okD(1) [OF ok]]
  have al: "a < length (h_bufs w)" using heap_ok_held [OF h, of a] by simp
  obtain got where got: "content r = got @ content r'" "k = length got"
    "k \<le> min n (length (sb_buf (h_bufs w ! a)) - sb_len (h_bufs w ! a))"
    "sb_bytes b = sb_bytes (h_bufs w ! a) @ got" "sb_ok b"
    "e = None \<longleftrightarrow> k = min n (length (sb_buf (h_bufs w ! a)) - sb_len (h_bufs w ! a))"
    "length (sb_buf b) = length (sb_buf (h_bufs w ! a))" "sb_refs b = sb_refs (h_bufs w ! a)"
    "sb_pool b = sb_pool (h_bufs w ! a)"
    using sb_read_n_spec [OF heap_okD(1) [OF h al] rd] by auto
  note fr = got(5,8,7,9)
  have pl: "plain r \<and> n \<le> length (content r) \<longrightarrow> e = None \<and> plain r'"
    using sb_read_n_plain [OF heap_okD(1) [OF h al] _ _ rd] by (auto simp: min_le_iff_disj)
  show ?thesis
  proof (cases e)
    case (Some x)
    have st: "media_ok (add_mset a H) (set_buf a b w)" "live (set_buf a b w) = live w"
      using set_buf_media [OF ok _ fr] by simp_all
    note rel = release_media [OF st(1)]
    note so = same_objectsD [OF same_objects_released, of a "set_buf a b w"]
    have "handled H p w (released a (set_buf a b w))"
      using rel st(2) queues_kept_returned [OF ok one] by (simp add: handled_def so)
    then show ?thesis
      using failed [of "released a (set_buf a b w)" got] rel(1) got(1-3,6) Some pl by auto
  next
    case None
    from fragment_ok [OF ok p fr one room perm m] obtain w' where
      f: "(do { w \<leftarrow> send_message perm p m (set_buf a b w); h_release a w }) = Some w'"
      "media_ok H w'" "live w' = live w \<and> w_chan w' = w_chan w" "length (cons_map w' p) \<le> length (cons_map w p)"
      "\<forall>x < length (h_bufs w). x \<noteq> a \<longrightarrow> h_bufs w' ! x = h_bufs w ! x"
      "pub_audioPool (w_pubs w' ! p) = pub_audioPool (w_pubs w ! p)"
      "pub_videoPool (w_pubs w' ! p) = pub_videoPool (w_pubs w ! p)"
      "\<forall>i. delivered p i m (sb_bytes b) w w'" "\<forall>i. queue_grows i w w'"
      "length (w_cons w') = length (w_cons w)" by auto
    have "bytes_of w' x = bytes_of w x"
      if "i < length (w_cons w)" "x \<in> set (queue_of w i)" "m_data x \<noteq> a" for i x
      using f(5) that(3) heap_ok_queued [OF h queue_data_queued [OF that(2,1)]] by (simp add: bytes_of_def)
    moreover have "queues_kept w w'"
      by (rule queues_kept_unqueued [OF h sole_unqueued [OF h one]]) (use f(5,9,10) in simp_all)
    ultimately show ?thesis using f got None pl
      by (intro sent [of w' got]) (auto simp: handled_def)
  qed
qed

text \<open>
  The result of a loop: it returns; it consumes what it read; without an error it read all it was
  asked to; and a consumer in the publisher's map whose channel has room for all the pieces sees
  exactly these bytes.
\<close>

definition stays :: "(consumer_data \<Rightarrow> bool) \<Rightarrow> publisher_ref \<Rightarrow> consumer_ref \<Rightarrow> media_world \<Rightarrow> media_world \<Rightarrow> bool" where
  "stays final p i w w' \<longleftrightarrow> (\<exists>d. entry w' p i = Some d \<and> final d)
     \<and> ch_cap (wc_messages (w_cons w' ! i)) = ch_cap (wc_messages (w_cons w ! i))"

definition loop_result ::
    "buf_ref multiset \<Rightarrow> publisher_ref \<Rightarrow> reader \<Rightarrow> media_world \<Rightarrow> nat \<Rightarrow>
       (message list \<Rightarrow> bool) \<Rightarrow> (consumer_data \<Rightarrow> bool) \<Rightarrow> (consumer_data \<Rightarrow> bool) \<Rightarrow> byte list \<Rightarrow> nat \<Rightarrow>
       (rtmp_err option \<times> reader \<times> media_world) option \<Rightarrow> bool" where
  "loop_result H p r w n frames ready final prefix k res \<longleftrightarrow>
     (\<exists>e r' w' got. res = Some (e, r', w') \<and> handled H p w w'
        \<and> content r = got @ content r' \<and> length got \<le> n \<and> (e = None \<longleftrightarrow> length got = n)
        \<and> (plain r \<and> n \<le> length (content r) \<longrightarrow> e = None \<and> plain r')
        \<and> (e = None \<longrightarrow> (\<forall>i d. entry w p i = Some d \<and> ready d
             \<and> length (queue_of w i) + k \<le> ch_cap (wc_messages (w_cons w ! i)) \<longrightarrow>
             (\<exists>ms. sees i w w' ms (prefix @ got) \<and> frames ms \<and> length ms = k) \<and> stays final p i w w')))"

lemma loop_resultI:
  assumes "res = Some (e, r', w')" "handled H p w w'" "content r = got @ content r'" "length got \<le> n"
    "e = None \<longleftrightarrow> length got = n" "plain r \<and> n \<le> length (content r) \<longrightarrow> e = None \<and> plain r'"
    "\<And>i d. e = None \<Longrightarrow> entry w p i = Some d \<Longrightarrow> ready d
       \<Longrightarrow> length (queue_of w i) + k \<le> ch_cap (wc_messages (w_cons w ! i))
       \<Longrightarrow> (\<exists>ms. sees i w w' ms (prefix @ got) \<and> frames ms \<and> length ms = k) \<and> stays final p i w w'"
  shows "loop_result H p r w n frames ready final prefix k res"
  unfolding loop_result_def using assms by blast

lemma sees_refl: "sees i w w [] []"
  by (simp add: sees_def)

lemma entry_same_objects: "same_objects w w' \<Longrightarrow> entry w' p i = entry w p i"
  by (simp add: entry_def same_objects_def)

text \<open>A loop's first round, then the rest.\<close>

lemma loop_result_round:
  assumes ok: "media_ok H w" and p: "p \<in> live w" and so: "same_objects w w0"
    and old: "\<And>i x. i < length (w_cons w) \<Longrightarrow> x \<in> set (queue_of w i) \<Longrightarrow> bytes_of w1 x = bytes_of w x"
    and h: "handled H p w w1" and con: "content r = got @ content r1" and len: "length got \<le> n"
    and pl: "plain r \<and> n \<le> length (content r) \<longrightarrow> plain r1"
    and del: "\<And>i. delivered p i m (prefix @ got) w0 w1"
    and tk: "\<And>i d. ready d \<Longrightarrow> length (queue_of w i) < ch_cap (wc_messages (w_cons w ! i)) \<Longrightarrow>
      takes m d (w_cons w ! i) \<and> ready' (data_out m d (w_cons w ! i))"
    and fr: "\<And>ms. frames' ms \<Longrightarrow> frames (m # ms)"
    and rest: "loop_result H p r1 w1 (n - length got) frames' ready' final [] k res"
  shows "loop_result H p r w n frames ready final prefix (Suc k) res"
proof -
  from rest obtain e r' w' got' where
    r: "res = Some (e, r', w')" "handled H p w1 w'" "content r1 = got' @ content r'" "length got' \<le> n - length got"
    "e = None \<longleftrightarrow> length got' = n - length got"
    "plain r1 \<and> n - length got \<le> length (content r1) \<longrightarrow> e = None \<and> plain r'"
    "\<And>i d. e = None \<Longrightarrow> entry w1 p i = Some d \<Longrightarrow> ready' d
       \<Longrightarrow> length (queue_of w1 i) + k \<le> ch_cap (wc_messages (w_cons w1 ! i))
       \<Longrightarrow> (\<exists>ms. sees i w1 w' ms ([] @ got') \<and> frames' ms \<and> length ms = k) \<and> stays final p i w1 w'"
    unfolding loop_result_def by blast
  have po: "pub_ok w p" by (rule live_okD(3) [OF media_okD(1) [OF ok] p])
  note so' = same_objectsD(1) [OF so]
  show ?thesis
  proof (rule loop_resultI [of _ e r' w' _ _ _ _ "got @ got'"])
    fix i d assume a: "e = None" "entry w p i = Some d" "ready d"
      "length (queue_of w i) + Suc k \<le> ch_cap (wc_messages (w_cons w ! i))"
    have il: "i < length (w_cons w)" by (rule entry_bound [OF po a(2)])
    have t: "takes m d (w_cons w ! i)" "ready' (data_out m d (w_cons w ! i))"
      using tk [OF a(3), of i] a(4) by simp_all
    have "entry w0 p i = Some d" using a(2) entry_same_objects [OF so] by simp
    then have dl: "queue_of w1 i = queue_of w i @ [m]" "entry w1 p i = Some (data_out m d (w_cons w ! i))"
      "ch_cap (wc_messages (w_cons w1 ! i)) = ch_cap (wc_messages (w_cons w ! i))" "bytes_of w1 m = prefix @ got"
      using del [of i] t(1) so' by (simp_all add: delivered_def queue_of_def)
    from r(7) [OF a(1) dl(2) t(2)] a(4) dl obtain ms where
      ms: "sees i w1 w' ms got'" "frames' ms" "length ms = k" "stays final p i w1 w'" by auto
    have "sees i w w' (m # ms) ((prefix @ got) @ got')"
      by (rule sees_Cons [OF dl(1,4) _ ms(1)]) (use old [OF il] in blast)
    then have "\<exists>ms. sees i w w' ms (prefix @ (got @ got')) \<and> frames ms \<and> length ms = Suc k"
      using ms fr by (intro exI [of _ "m # ms"]) simp
    moreover have "stays final p i w w'" using ms(4) dl(3) by (simp add: stays_def)
    ultimately show "(\<exists>ms. sees i w w' ms (prefix @ (got @ got')) \<and> frames ms \<and> length ms = Suc k)
      \<and> stays final p i w w'" by blast
  qed (use r(1,3-6) handled_trans [OF h r(2)] con len pl in auto)
qed

text \<open>A round that fails ends the loop.\<close>

lemma loop_result_failed:
  assumes "res = Some (Some x, r', w')" and "handled H p w w'" and "content r = got @ content r'" and "length got < n"
    and "\<not> (plain r \<and> n \<le> length (content r))"
  shows "loop_result H p r w n frames ready final prefix k res"
  using assms by (intro loop_resultI [of _ "Some x" r' w' _ _ _ _ got]) auto

text \<open>
  A round that acquires its buffer itself, for the loops of both media: \<open>mesg\<close> is the message they make
  of a buffer, \<open>continue\<close> the rest of the loop after a fragment.
\<close>

lemma loop_acquired_round:
  assumes ok: "media_ok H w" and p: "p \<in> live w" and room: "Suc (length (cons_map w p)) < ref_limit"
    and perm: "permutes_keys perm" and pos: "0 < n"
    and cap: "cap = pool_cap (snd (pool_of kind (w_pubs w ! p)))" and md: "\<And>a. m_data (mesg a) = a"
    and unf: "\<And>a w0 m e b r1. acquire_buffer pick kind p w = Some (a, w0) \<Longrightarrow> a < length (h_bufs w0) \<Longrightarrow>
      sb_read_n r n (h_bufs w0 ! a) = (m, e, b, r1) \<Longrightarrow> res = (case e of
        Some e \<Rightarrow> do { w \<leftarrow> h_release a (set_buf a b w0); Some (Some (ErrReadN e), r1, w) }
      | None \<Rightarrow> do { w \<leftarrow> send_message perm p (mesg a) (set_buf a b w0); w \<leftarrow> h_release a w; continue m r1 w })"
    and rest: "\<And>m r1 w1. m = min n cap \<Longrightarrow> handled H p w w1 \<Longrightarrow>
      loop_result H p r1 w1 (n - m) frames' ready' final [] (pieces cap (n - m)) (continue m r1 w1)"
    and tk: "\<And>a i d. ready d \<Longrightarrow> length (queue_of w i) < ch_cap (wc_messages (w_cons w ! i)) \<Longrightarrow>
      takes (mesg a) d (w_cons w ! i) \<and> ready' (data_out (mesg a) d (w_cons w ! i))"
    and fr: "\<And>a ms. frames' ms \<Longrightarrow> frames (mesg a # ms)"
  shows "loop_result H p r w n frames ready final [] (pieces cap n) res"
proof -
  obtain a w0 where g: "acquire_buffer pick kind p w = Some (a, w0)"
    "handled (add_mset a H) p w w0" "owned_empty (pool_of kind (w_pubs w ! p)) (h_bufs w0 ! a)"
    "a < length (h_bufs w0)" "same_objects w w0"
    "\<And>i x. i < length (w_cons w) \<Longrightarrow> x \<in> set (queue_of w i) \<Longrightarrow> m_data x \<noteq> a \<and> bytes_of w0 x = bytes_of w x
      \<and> m_data x < length (h_bufs w0)"
    using acquired_frame [OF ok p, of pick kind] by blast
  have ok0: "media_ok (add_mset a H) w0" "p \<in> live w0" "Suc (length (cons_map w0 p)) < ref_limit"
    using g(2) p room by (simp_all add: handled_def)
  have b0: "sb_count (h_bufs w0 ! a) = 1" "sb_bytes (h_bufs w0 ! a) = []"
    "length (sb_buf (h_bufs w0 ! a)) - sb_len (h_bufs w0 ! a) = cap"
    using g(3) by (simp_all add: owned_empty_def sb_bytes_def cap)
  obtain m e b r1 where rd: "sb_read_n r n (h_bufs w0 ! a) = (m, e, b, r1)" by (metis prod_cases4)
  note run = unf [OF g(1,4) rd]
  show ?thesis
  proof (cases rule: round_ok [OF ok0(1,2) b0(1) ok0(3) perm md [of a] rd, case_names failed sent])
    case (failed w1 got)
    then obtain x where e: "e = Some x" by blast
    then have "res = Some (Some (ErrReadN x), r1, w1)" using run failed(2) by simp
    then show ?thesis
      by (rule loop_result_failed) (use failed(3-6) handled_trans [OF g(2)] in auto)
  next
    case (sent w1 got)
    have m: "m = min n cap" "length got = m" using sent(5,6) b0(3) by simp_all
    have go: "res = continue m r1 w1" using run sent(1,2) by (auto simp: bind_Some_iff split: bind_splits)
    have h1: "handled H p w w1" by (rule handled_trans [OF g(2) sent(3)])
    have cap_pos: "0 < cap" using pool_cap_pos cap by simp
    have pc: "pieces cap n = Suc (pieces cap (n - m))"
      using pieces_step [OF cap_pos, of n] pieces_le [OF pos, of cap] cap_pos m(1) by (cases "n \<le> cap") auto
    show ?thesis
      unfolding go pc
    proof (rule loop_result_round [OF ok p g(5) _ h1 sent(4) _ sent(9), where m = "mesg a" and prefix = "[]"
        and frames' = frames' and ready' = ready'])
      show "bytes_of w1 x = bytes_of w x" if "i < length (w_cons w)" "x \<in> set (queue_of w i)" for i x
        using sent(8) [of i x] that g(6) [OF that] same_objectsD(1) [OF g(5)] by (simp add: queue_of_def)
      show "delivered p i (mesg a) ([] @ got) w0 w1" for i using sent(7) [of i] b0(2) by simp
    qed (use m rest [OF m(1) h1] tk fr in simp_all)
  qed
qed

lemma loop_result_done:
  assumes "media_ok H w" and "\<And>d. ready d \<Longrightarrow> final d" and "frames []" and "0 < cap"
  shows "loop_result H p r w 0 frames ready final [] (pieces cap 0) (Some (None, r, w))"
  by (rule loop_resultI [where got = "[]"])
    (use assms sees_refl in \<open>auto simp: handled_def stays_def intro!: exI [of _ "[]"]\<close>)

lemma audio_loop_ok:
  assumes "media_ok H w" and "p \<in> live w" and "Suc (length (cons_map w p)) < ref_limit"
    and "\<And>j. permutes_keys (rt_perm (rts j))"
  shows "loop_result H p r w (unat remaining)
    (framed MesgAudio 0 ts (len - of_nat AudioTagHeaderSize) first) (\<lambda>_. True) (\<lambda>_. True) []
    (pieces (pool_cap (snd (pub_audioPool (w_pubs w ! p)))) (unat remaining))
    (audio_loop rts p ts len k first remaining r w)"
  using assms
proof (induction "unat remaining" arbitrary: remaining k first r w rule: less_induct)
  case less
  let ?n = "unat remaining" and ?len = "len - of_nat AudioTagHeaderSize"
  let ?m = "\<lambda>a. \<lparr>m_type = MesgAudio, m_flags = (if \<not> first then FlagContinuation else 0), m_timestamp = ts, m_length = ?len, m_data = a\<rparr>"
  note cap = pool_cap_pos [of "snd (pub_audioPool (w_pubs w ! p))"]
  show ?case
  proof (cases "remaining = 0")
    case True
    then show ?thesis using loop_result_done [OF less.prems(1) _ _ cap] by (simp add: audio_loop.simps)
  next
    case False
    then have pos: "0 < ?n" "0 < remaining" by (simp_all add: unat_gt_0 word_gt_0)
    show ?thesis
    proof (rule loop_acquired_round [OF less.prems(1-3) less.prems(4) [of k] pos(1), where kind = AudioPool and mesg = ?m
        and pick = "rt_pick (rts k)" and ready' = "\<lambda>_. True" and frames' = "framed MesgAudio 0 ts ?len False"
        and continue = "\<lambda>m. audio_loop rts p ts len (Suc k) False (remaining - of_nat m)"], goal_cases)
      case (3 a w0 m e b r1)
      then show ?case using pos
        by (subst audio_loop.simps) (simp add: acquire_buffer_def Let_def split: option.splits)
    next
      case (4 m r1 w1)
      have rem: "unat (remaining - of_nat m) = ?n - m" using 4(1) by (intro unat_minus_of_nat32) simp
      have lt: "unat (remaining - of_nat m) < ?n" unfolding rem using 4(1) pos(1) cap by simp
      have w1: "media_ok H w1" "p \<in> live w1" "Suc (length (cons_map w1 p)) < ref_limit"
        using 4(2) less.prems(2,3) by (simp_all add: handled_def)
      from less.hyps [OF lt w1 less.prems(4), of r1 False "Suc k"] 4(2) show ?case by (simp add: handled_def rem)
    qed (auto simp: pool_of_def takes_def skips_def queue_of_def mesg_types)
  qed
qed

section \<open>Video\<close>

abbreviation key_flag :: "u8 \<Rightarrow> u8" where
  "key_flag naluType \<equiv> (if naluType = naluTypeIDR then FlagKeyFrame else 0)"

abbreviation nalu_message :: "u32 \<Rightarrow> u32 \<Rightarrow> u8 \<Rightarrow> bool \<Rightarrow> buf_ref \<Rightarrow> message" where
  "nalu_message ts naluLen naluType first a \<equiv> \<lparr>m_type = MesgVideo,
     m_flags = key_flag naluType OR (if \<not> first then FlagContinuation else 0),
     m_timestamp = ts, m_length = of_nat naluHdrSize + naluLen, m_data = a\<rparr>"

lemma nalu_flags:
  "is_key_frame (nalu_message ts nl ty first a) \<longleftrightarrow> ty = naluTypeIDR"
  "is_continuation (nalu_message ts nl ty first a) \<longleftrightarrow> \<not> first"
  by (auto simp: is_key_frame_def is_continuation_def mesg_flags)

text \<open>The rounds after the first one: every buffer is acquired in its round.\<close>

lemma video_loop_rest:
  assumes "media_ok H w" and "p \<in> live w" and "Suc (length (cons_map w p)) < ref_limit"
    and "\<And>j. permutes_keys (rt_perm (rts j))"
  shows "loop_result H p r w remaining
    (framed MesgVideo (key_flag naluType) ts (of_nat naluHdrSize + naluLen) False) cd_sentVideoKeyFrame cd_sentVideoKeyFrame []
    (pieces (pool_cap (snd (pub_videoPool (w_pubs w ! p)))) remaining)
    (video_loop rts p ts naluLen naluType k None False remaining r w)"
  using assms
proof (induction remaining arbitrary: k r w rule: less_induct)
  case (less remaining)
  note cap = pool_cap_pos [of "snd (pub_videoPool (w_pubs w ! p))"]
  show ?case
  proof (cases "remaining = 0")
    case True
    then show ?thesis using loop_result_done [OF less.prems(1) _ _ cap] by (simp add: video_loop.simps)
  next
    case False
    then have pos: "0 < remaining" by simp
    show ?thesis
    proof (rule loop_acquired_round [OF less.prems(1-3) less.prems(4) [of k] pos, where kind = VideoPool
        and mesg = "nalu_message ts naluLen naluType False" and pick = "rt_pick (rts k)" and ready' = cd_sentVideoKeyFrame
        and frames' = "framed MesgVideo (key_flag naluType) ts (of_nat naluHdrSize + naluLen) False"
        and continue = "\<lambda>m. video_loop rts p ts naluLen naluType (Suc k) None False (remaining - m)"], goal_cases)
      case (3 a w0 m e b r1)
      then show ?case using pos
        by (subst video_loop.simps) (simp add: acquire_buffer_def Let_def split: option.splits)
    next
      case (4 m r1 w1)
      have lt: "remaining - m < remaining" using 4(1) pos cap by simp
      have w1: "media_ok H w1" "p \<in> live w1" "Suc (length (cons_map w1 p)) < ref_limit"
        using 4(2) less.prems(2,3) by (simp_all add: handled_def)
      from less.IH [OF lt w1 less.prems(4), of r1 "Suc k"] 4(2) show ?case by (simp add: handled_def)
    qed (auto simp: pool_of_def takes_def skips_def queue_of_def data_out_def)
  qed
qed

text \<open>
  The whole loop, from a buffer that holds the NALU header: a consumer that has had a key frame, or
  is sent one now, sees header and payload.
\<close>

lemma video_loop_first:
  assumes ok: "media_ok (add_mset a H) w" and p: "p \<in> live w" and room: "Suc (length (cons_map w p)) < ref_limit"
    and perm: "\<And>j. permutes_keys (rt_perm (rts j))" and one: "sb_count (h_bufs w ! a) = 1"
    and cap: "length (sb_buf (h_bufs w ! a)) = pool_cap (snd (pub_videoPool (w_pubs w ! p)))"
    and fits: "sb_len (h_bufs w ! a) < pool_cap (snd (pub_videoPool (w_pubs w ! p)))"
    and held: "\<And>i x. i < length (w_cons w) \<Longrightarrow> x \<in> set (queue_of w i) \<Longrightarrow> m_data x \<noteq> a"
    and pos: "0 < remaining"
  shows "loop_result H p r w remaining
    (framed MesgVideo (key_flag naluType) ts (of_nat naluHdrSize + naluLen) True)
    (\<lambda>d. cd_sentVideoKeyFrame d \<or> naluType = naluTypeIDR) cd_sentVideoKeyFrame (sb_bytes (h_bufs w ! a))
    (pieces (pool_cap (snd (pub_videoPool (w_pubs w ! p)))) (sb_len (h_bufs w ! a) + remaining))
    (video_loop rts p ts naluLen naluType k (Some a) True remaining r w)"
proof -
  let ?cap = "pool_cap (snd (pub_videoPool (w_pubs w ! p)))" and ?len = "sb_len (h_bufs w ! a)"
  let ?m = "nalu_message ts naluLen naluType True a"
  let ?frames = "framed MesgVideo (key_flag naluType) ts (of_nat naluHdrSize + naluLen) False"
  note cap_pos = pool_cap_pos [of "snd (pub_videoPool (w_pubs w ! p))"]
  have okH: "media_ok H w"
    using ok heap_ok_leak [OF live_okD(1) [OF media_okD(1) [OF ok]], of H] by (simp add: media_ok_def live_ok_def)
  have al: "a < length (h_bufs w)" using heap_ok_held [OF live_okD(1) [OF media_okD(1) [OF ok]], of a] by simp
  obtain n e b r1 where rd: "sb_read_n r remaining (h_bufs w ! a) = (n, e, b, r1)" by (metis prod_cases4)
  have unf: "video_loop rts p ts naluLen naluType k (Some a) True remaining r w = (case e of
      Some e \<Rightarrow> do { w \<leftarrow> h_release a (set_buf a b w); Some (Some (ErrReadN e), r1, w) }
    | None \<Rightarrow> do { w \<leftarrow> send_message (rt_perm (rts k)) p ?m (set_buf a b w); w \<leftarrow> h_release a w;
        video_loop rts p ts naluLen naluType (Suc k) None False (remaining - n) r1 w })"
    using pos al by (subst video_loop.simps) (simp add: rd Let_def split: option.splits)
  have md: "m_data ?m = a" by simp
  show ?thesis
  proof (cases rule: round_ok [OF ok p one room perm [of k] md rd, case_names failed sent])
    case (failed w1 got)
    then obtain x where e: "e = Some x" by blast
    have "video_loop rts p ts naluLen naluType k (Some a) True remaining r w = Some (Some (ErrReadN x), r1, w1)"
      using unf failed(2) e by simp
    then show ?thesis by (rule loop_result_failed) (use failed(3-6) in auto)
  next
    case (sent w1 got)
    have n: "n = min remaining (?cap - ?len)" "length got = n" using sent(5,6) cap by simp_all
    have rest: "video_loop rts p ts naluLen naluType k (Some a) True remaining r w
        = video_loop rts p ts naluLen naluType (Suc k) None False (remaining - n) r1 w1"
      using unf sent(1,2) by (auto simp: bind_Some_iff split: bind_splits)
    have ok1: "media_ok H w1" "p \<in> live w1" "Suc (length (cons_map w1 p)) < ref_limit"
      using sent(3) p room by (simp_all add: handled_def)
    have rst: "loop_result H p r1 w1 (remaining - n) ?frames cd_sentVideoKeyFrame cd_sentVideoKeyFrame [] (pieces ?cap (remaining - n))
        (video_loop rts p ts naluLen naluType (Suc k) None False (remaining - n) r1 w1)"
      using video_loop_rest [OF ok1 perm, where r = r1 and remaining = "remaining - n" and naluType = naluType
          and ts = ts and naluLen = naluLen and k = "Suc k"] sent(3)
      by (simp add: handled_def)
    have pc: "pieces ?cap (?len + remaining) = Suc (pieces ?cap (remaining - n))"
    proof (cases "?len + remaining \<le> ?cap")
      case True
      then show ?thesis using n(1) pos cap_pos pieces_le [of "?len + remaining" ?cap] by simp
    next
      case False
      then have "?len + remaining - ?cap = remaining - n" using n(1) fits by simp
      then show ?thesis using pieces_step [OF cap_pos, of "?len + remaining"] False by simp
    qed
    show ?thesis
      unfolding rest pc
    proof (rule loop_result_round [OF okH p same_objects_refl _ sent(3,4) _ sent(9), where m = ?m
        and frames' = ?frames and ready' = cd_sentVideoKeyFrame])
      show "bytes_of w1 x = bytes_of w x" if "i < length (w_cons w)" "x \<in> set (queue_of w i)" for i x
        using sent(8) [OF that held [OF that]] .
      show "delivered p i ?m (sb_bytes (h_bufs w ! a) @ got) w w1" for i using sent(7) .
      show "takes ?m d (w_cons w ! i) \<and> cd_sentVideoKeyFrame (data_out ?m d (w_cons w ! i))"
        if "cd_sentVideoKeyFrame d \<or> naluType = naluTypeIDR"
          "length (queue_of w i) < ch_cap (wc_messages (w_cons w ! i))" for i d
        using that nalu_flags [of naluType True ts naluLen a]
        by (auto simp: takes_def skips_def queue_of_def data_out_def)
    qed (use n rst in \<open>simp_all\<close>)
  qed
qed

end
