(* ===== verification/RtmpHandlers.thy ===== *)
theory RtmpHandlers
  imports RtmpOk
begin

text \<open>
  The message handlers of an RTMP session as a whole: they return on every input, keep the state of
  the media pipeline well-formed and hold no buffer afterwards; each NALU reaches a consumer that
  keeps up as one frame.
\<close>

section \<open>The session\<close>

definition publishing :: "publisher_ref \<Rightarrow> rtmp_session \<Rightarrow> bool" where
  "publishing p s \<longleftrightarrow> rs_pub s = Some p \<and> length (rs_naluHdr s) = naluHdrSize"

text \<open>The runtime's choices are fine when every iteration order is a permutation.\<close>

definition fair :: "(nat \<Rightarrow> runtime) \<Rightarrow> bool" where
  "fair rts \<longleftrightarrow> (\<forall>j. permutes_keys (rt_perm (rts j)))"

lemma media_ok_leak: "media_ok (add_mset a H) w \<Longrightarrow> media_ok H w"
  using heap_ok_leak [OF live_okD(1) [OF media_okD(1)], of "add_mset a H" w H]
  by (simp add: media_ok_def live_ok_def)

lemma handled_leak: "handled (add_mset a H) p w w' \<Longrightarrow> handled H p w w'"
  using media_ok_leak by (auto simp: handled_def)

lemma loop_result_handled:
  assumes "loop_result H p r w n frames ready final prefix k res"
  obtains e r' w' got where "res = Some (e, r', w')" "handled H p w w'" "content r = got @ content r'"
    "e = None \<longleftrightarrow> length got = n"
  using assms unfolding loop_result_def by blast

section \<open>Discarding\<close>

lemma discard_nalu_prefix:
  "discard_nalu n d r = (e, r') \<Longrightarrow> \<exists>got. content r = got @ content r'"
proof (induction n d r arbitrary: e r' rule: discard_nalu.induct)
  case (1 n d r)
  show ?case
  proof (cases "d < n")
    case False
    then show ?thesis using "1.prems" by (simp add: discard_nalu.simps)
  next
    case True
    let ?t = "if n - d < discardBufSize then n - d else discardBufSize"
    obtain c f s where cs: "go_read (unat ?t) r = (c, f, s)" by (metis prod_cases3)
    note con = go_read_content [OF cs]
    show ?thesis
    proof (cases f)
      case None
      let ?d = "if length c > 0 then d + of_nat (length c) else d"
      have "discard_nalu n ?d s = (e, r')"
        using "1.prems" True cs None by (subst (asm) discard_nalu.simps) (simp add: Let_def)
      from "1.IH" [OF True refl cs [symmetric] refl refl None this] con show ?thesis by auto
    next
      case (Some x)
      then have "r' = s"
        using "1.prems" True cs by (subst (asm) discard_nalu.simps) (auto simp: Let_def split: if_splits)
      then show ?thesis using con by auto
    qed
  qed
qed

text \<open>On a payload without errors the discarded bytes are exactly the ones announced.\<close>

lemma discard_nalu_plain:
  assumes "plain r" and "unat n - unat d \<le> length (content r)" and "d \<le> n"
  shows "\<exists>r'. discard_nalu n d r = (None, r') \<and> plain r' \<and> content r' = drop (unat n - unat d) (content r)"
  using assms
proof (induction n d r rule: discard_nalu.induct)
  case (1 n d r)
  show ?case
  proof (cases "d < n")
    case False
    then have "d = n" using "1.prems"(3) by simp
    then show ?thesis using "1.prems"(1) by (simp add: discard_nalu.simps)
  next
    case True
    let ?t = "if n - d < discardBufSize then n - d else discardBufSize"
    obtain c f s where cs: "go_read (unat ?t) r = (c, f, s)" by (metis prod_cases3)
    note con = go_read_content [OF cs] and len = go_read_length [OF cs] and pl = go_read_plain [OF "1.prems"(1) cs]
    have lt: "unat d < unat n" using True by (simp add: word_less_nat_alt)
    have sub: "unat (n - d) = unat n - unat d" using True by (intro unat_sub) simp
    have t: "unat ?t \<le> unat n - unat d" unfolding sub [symmetric] by (simp add: word_le_nat_alt [symmetric] not_less)
    have f: "f = None" using pl lt "1.prems"(2) by auto
    let ?d = "if length c > 0 then d + of_nat (length c) else d"
    have d': "unat ?d = unat d + length c"
    proof (cases "length c > 0")
      case True
      have "unat d + length c < 2 ^ 32" using len t lt unsigned_less [of n, where ?'a = nat] by simp
      then have "unat (d + of_nat (length c)) = unat d + length c"
        by (simp add: unat_word_ariths unat_of_nat)
      then show ?thesis using True by simp
    qed simp
    have le: "?d \<le> n" unfolding word_le_nat_alt d' using len t lt by simp
    have eq: "discard_nalu n d r = discard_nalu n ?d s"
      using True cs f by (subst discard_nalu.simps) (simp add: Let_def)
    have "unat n - unat ?d \<le> length (content s)"
      unfolding d' using "1.prems"(2) con by simp
    from "1.IH" [OF True refl cs [symmetric] refl refl f _ this le] pl obtain r' where
      "discard_nalu n ?d s = (None, r')" "plain r'" "content r' = drop (unat n - unat ?d) (content s)" by auto
    moreover have "drop (unat n - unat ?d) (content s) = drop (unat n - unat d) (content r)"
      unfolding d' con using len t by simp
    ultimately show ?thesis unfolding eq by simp
  qed
qed

section \<open>One NALU\<close>

text \<open>Acquiring the first buffer and writing the header into it.\<close>

lemma header_buffer:
  assumes ok: "media_ok H w" and p: "p \<in> live w" and hdr: "length hdr = naluHdrSize"
  obtains a w0 b w1 where "acquire_video_buffer pick p w = Some (a, w0)" "a < length (h_bufs w0)"
    "sb_write hdr (h_bufs w0 ! a) = (naluHdrSize, None, b)" "w1 = set_buf a b w0"
    "handled (add_mset a H) p w w1" "sb_count (h_bufs w1 ! a) = 1" "sb_bytes (h_bufs w1 ! a) = hdr"
    "length (sb_buf (h_bufs w1 ! a)) = pool_cap (snd (pub_videoPool (w_pubs w1 ! p)))"
    "sb_len (h_bufs w1 ! a) = naluHdrSize" "same_objects w w1"
    "\<And>i x. i < length (w_cons w) \<Longrightarrow> x \<in> set (queue_of w i) \<Longrightarrow> m_data x \<noteq> a \<and> bytes_of w1 x = bytes_of w x"
proof -
  obtain a w0 where g: "acquire_buffer pick VideoPool p w = Some (a, w0)"
    "handled (add_mset a H) p w w0" "owned_empty (pub_videoPool (w_pubs w ! p)) (h_bufs w0 ! a)"
    "a < length (h_bufs w0)" "same_objects w w0"
    "\<And>i x. i < length (w_cons w) \<Longrightarrow> x \<in> set (queue_of w i) \<Longrightarrow> m_data x \<noteq> a \<and> bytes_of w0 x = bytes_of w x
      \<and> m_data x < length (h_bufs w0)"
    using acquired_frame [OF ok p, of pick VideoPool] by (auto simp: pool_of_def)
  note so = same_objectsD [OF g(5)]
  let ?b = "h_bufs w0 ! a"
  have m0: "media_ok (add_mset a H) w0" using g(2) by (simp add: handled_def)
  have okb: "sb_ok ?b" by (rule heap_okD(1) [OF live_okD(1) [OF media_okD(1) [OF m0]] g(4)])
  obtain n e b where wr: "sb_write hdr ?b = (n, e, b)" by (metis prod_cases3)
  note W = sb_write_spec [OF okb wr]
  have big: "naluHdrSize \<le> pool_cap k" for k by (cases k) (simp_all add: naluHdrSize_def)
  have empty: "sb_len ?b = 0" "sb_bytes ?b = []" "length (sb_buf ?b) = pool_cap (snd (pub_videoPool (w_pubs w ! p)))"
    "sb_count ?b = 1" using g(3) by (simp_all add: owned_empty_def sb_bytes_def)
  have n: "n = naluHdrSize" "e = None" using W(1,4) empty hdr big by simp_all
  let ?w = "set_buf a b w0"
  have st: "media_ok (add_mset a H) ?w" "live ?w = live w0" "h_bufs ?w ! a = b"
    using set_buf_media [OF m0 _ W(3,7,5,8)] by simp_all
  have "handled (add_mset a H) p w0 ?w" using st queues_kept_written [OF m0 empty(4)] by (simp add: handled_def)
  then have h: "handled (add_mset a H) p w ?w" by (rule handled_trans [OF g(2)])
  have other: "bytes_of ?w x = bytes_of w0 x" if "m_data x \<noteq> a" for x
    using that by (simp add: bytes_of_def set_buf_def)
  show ?thesis
  proof (rule that [of a w0 b ?w])
    show "acquire_video_buffer pick p w = Some (a, w0)" using g(1) by (simp add: acquire_buffer_def)
    show "sb_write hdr ?b = (naluHdrSize, None, b)" using wr n by simp
    show "sb_count (h_bufs ?w ! a) = 1" using st(3) W(7) empty(4) by (simp add: sb_count_def)
    show "sb_bytes (h_bufs ?w ! a) = hdr" using st(3) W(2) empty(2) n hdr by simp
    show "length (sb_buf (h_bufs ?w ! a)) = pool_cap (snd (pub_videoPool (w_pubs ?w ! p)))"
      using st(3) W(5) empty(3) so(2) by simp
    show "sb_len (h_bufs ?w ! a) = naluHdrSize" using st(3) W(6) empty(1) n by simp
    show "same_objects w ?w" using so by (simp add: same_objects_def)
    show "m_data x \<noteq> a \<and> bytes_of ?w x = bytes_of w x" if "i < length (w_cons w)" "x \<in> set (queue_of w i)" for i x
      using g(6) [OF that] other by simp
  qed (rule g(4), rule refl, rule h)
qed

text \<open>The fate of a NALU whose header could be read, by its type.\<close>

definition media_nalu :: "byte list \<Rightarrow> bool" where
  "media_nalu hdr \<longleftrightarrow> hdr ! 4 AND 0b00011111 = naluTypeNonIDR \<or> hdr ! 4 AND 0b00011111 = naluTypeIDR"

definition nalu_len :: "byte list \<Rightarrow> u32" where
  "nalu_len hdr = of_be_u32 hdr - 1"

definition nalu_key :: "byte list \<Rightarrow> bool" where
  "nalu_key hdr \<longleftrightarrow> hdr ! 4 AND 0b00011111 = naluTypeIDR"

lemma nalu_header_kept:
  assumes "publishing p s" and "read_full naluHdrSize [] r = (hdr, None, r1)"
  shows "length hdr = naluHdrSize" and "blit 0 hdr (rs_naluHdr s) = hdr"
    and "publishing p (s\<lparr>rs_naluHdr := hdr\<rparr>)"
proof -
  show len: "length hdr = naluHdrSize" using read_full_any [OF assms(2)] by auto
  show "blit 0 hdr (rs_naluHdr s) = hdr" using assms(1) len by (simp add: blit_def publishing_def)
  show "publishing p (s\<lparr>rs_naluHdr := hdr\<rparr>)" using assms(1) len by (simp add: publishing_def)
qed

lemma send_video_data_other:
  assumes "publishing p s" and rd: "read_full naluHdrSize [] r = (hdr, None, r1)" and "\<not> media_nalu hdr"
  shows "send_video_data rts ts r s w = (case discard_nalu (nalu_len hdr) 0 r1 of
      (Some e, r) \<Rightarrow> Some ((False, Some (ErrDiscardNALU e)), r, s\<lparr>rs_naluHdr := hdr\<rparr>, w)
    | (None, r) \<Rightarrow> Some ((False, None), r, s\<lparr>rs_naluHdr := hdr\<rparr>, w))"
  unfolding send_video_data_def rd prod.case nalu_header_kept(2) [OF assms(1,2)]
  using assms(3) by (simp add: media_nalu_def nalu_len_def Let_def)

lemma send_video_data_media:
  assumes s: "publishing p s" and rd: "read_full naluHdrSize [] r = (hdr, None, r1)" and nalu: "media_nalu hdr"
    and acq: "acquire_video_buffer (rt_pick (rts 0)) p w = Some (a, w0)" "a < length (h_bufs w0)"
    and wr: "sb_write hdr (h_bufs w0 ! a) = (n, None, b)"
    and loop: "video_loop rts p ts (nalu_len hdr) (hdr ! 4 AND 0b00011111) 0 (Some a) True
      (unat (nalu_len hdr)) r1 (set_buf a b w0) = Some (e, r', w')"
  shows "send_video_data rts ts r s w = Some ((False, e), r', s\<lparr>rs_naluHdr := hdr\<rparr>, w')"
proof -
  have p: "rs_pub s = Some p" using s by (simp add: publishing_def)
  have ty: "\<not> (hdr ! 4 AND 31 \<noteq> naluTypeNonIDR \<and> hdr ! 4 AND 31 \<noteq> naluTypeIDR)"
    using nalu by (auto simp: media_nalu_def)
  show ?thesis
    unfolding send_video_data_def rd prod.case nalu_header_kept(2) [OF s rd]
    using p acq wr loop ty by (auto simp: nalu_len_def Let_def)
qed

text \<open>Acquiring a buffer and filling it before the loop changes nothing the loop's result speaks of.\<close>

lemma loop_result_before:
  assumes ok: "media_ok H w" and p: "p \<in> live w" and h: "handled H' p w w1" and so: "same_objects w w1"
    and old: "\<And>i x. i < length (w_cons w) \<Longrightarrow> x \<in> set (queue_of w i) \<Longrightarrow> bytes_of w1 x = bytes_of w x"
    and res: "loop_result H p r w1 n frames ready final prefix k res"
  shows "loop_result H p r w n frames ready final prefix k res"
proof -
  from res obtain e r' w' got where
    r: "res = Some (e, r', w')" "handled H p w1 w'" "content r = got @ content r'" "length got \<le> n"
    "e = None \<longleftrightarrow> length got = n" "plain r \<and> n \<le> length (content r) \<longrightarrow> e = None \<and> plain r'"
    "\<And>i d. e = None \<Longrightarrow> entry w1 p i = Some d \<Longrightarrow> ready d \<Longrightarrow> length (queue_of w1 i) + k \<le> ch_cap (wc_messages (w_cons w1 ! i))
       \<Longrightarrow> (\<exists>ms. sees i w1 w' ms (prefix @ got) \<and> frames ms \<and> length ms = k) \<and> stays final p i w1 w'"
    unfolding loop_result_def by blast
  have q: "queue_of w1 i = queue_of w i" "entry w1 p i = entry w p i" "w_cons w1 = w_cons w" for i
    using same_objectsD [OF so] entry_same_objects [OF so] by (simp_all add: queue_of_def)
  show ?thesis
  proof (rule loop_resultI [OF r(1) handled_trans [OF h r(2)] r(3-6)])
    fix i d assume a: "e = None" "entry w p i = Some d" "ready d" "length (queue_of w i) + k \<le> ch_cap (wc_messages (w_cons w ! i))"
    have "i < length (w_cons w)" by (rule entry_bound [OF live_okD(3) [OF media_okD(1) [OF ok] p] a(2)])
    with r(7) [of i d] a q old [of i] show "(\<exists>ms. sees i w w' ms (prefix @ got) \<and> frames ms \<and> length ms = k) \<and> stays final p i w w'"
      by (auto simp: sees_def stays_def)
  qed
qed

definition video_cap :: "media_world \<Rightarrow> publisher_ref \<Rightarrow> nat" where
  "video_cap w p = pool_cap (snd (pub_videoPool (w_pubs w ! p)))"

lemma video_cap_handled: "handled H p w w' \<Longrightarrow> video_cap w' p = video_cap w p"
  by (simp add: video_cap_def handled_def)

text \<open>A NALU that is sent: the call is the loop on what follows the header.\<close>

lemma send_nalu:
  assumes ok: "media_ok H w" and p: "p \<in> live w" and room: "Suc (length (cons_map w p)) < ref_limit"
    and rts: "fair rts" and s: "publishing p s" and rd: "read_full naluHdrSize [] r = (hdr, None, r1)"
    and hdr: "length hdr = naluHdrSize" "media_nalu hdr" and pos: "0 < unat (nalu_len hdr)"
  obtains e r' w' where "send_video_data rts ts r s w = Some ((False, e), r', s\<lparr>rs_naluHdr := hdr\<rparr>, w')"
    "loop_result H p r1 w (unat (nalu_len hdr))
      (framed MesgVideo (if nalu_key hdr then FlagKeyFrame else 0) ts (of_nat naluHdrSize + nalu_len hdr) True)
      (\<lambda>d. cd_sentVideoKeyFrame d \<or> nalu_key hdr) cd_sentVideoKeyFrame hdr
      (pieces (video_cap w p) (naluHdrSize + unat (nalu_len hdr))) (Some (e, r', w'))"
proof -
  have perm: "permutes_keys (rt_perm (rts j))" for j using rts by (simp add: fair_def)
  obtain a w0 b w1 where hb: "acquire_video_buffer (rt_pick (rts 0)) p w = Some (a, w0)" "a < length (h_bufs w0)"
    "sb_write hdr (h_bufs w0 ! a) = (naluHdrSize, None, b)" "w1 = set_buf a b w0"
    "handled (add_mset a H) p w w1" "sb_count (h_bufs w1 ! a) = 1" "sb_bytes (h_bufs w1 ! a) = hdr"
    "length (sb_buf (h_bufs w1 ! a)) = pool_cap (snd (pub_videoPool (w_pubs w1 ! p)))"
    "sb_len (h_bufs w1 ! a) = naluHdrSize" "same_objects w w1"
    "\<And>i x. i < length (w_cons w) \<Longrightarrow> x \<in> set (queue_of w i) \<Longrightarrow> m_data x \<noteq> a \<and> bytes_of w1 x = bytes_of w x"
    by (rule header_buffer [OF ok p hdr(1), of "rt_pick (rts 0)"]) blast
  have w1: "media_ok (add_mset a H) w1" "p \<in> live w1" "Suc (length (cons_map w1 p)) < ref_limit"
    using hb(5) p room by (simp_all add: handled_def)
  note so = same_objectsD [OF hb(10)]
  have held: "m_data x \<noteq> a" if "i < length (w_cons w1)" "x \<in> set (queue_of w1 i)" for i x
    using hb(11) [of i x] that so(1) by (simp add: queue_of_def)
  have fits: "sb_len (h_bufs w1 ! a) < pool_cap (snd (pub_videoPool (w_pubs w1 ! p)))"
    unfolding hb(9) by (cases "snd (pub_videoPool (w_pubs w1 ! p))") (simp_all add: naluHdrSize_def)
  note lr = loop_result_before [OF ok p hb(5,10) _
    video_loop_first [where rts = rts and r = r1 and ts = ts and naluLen = "nalu_len hdr" and k = 0 and naluType = "hdr ! 4 AND 0b00011111",
      OF w1 perm hb(6,8) fits held pos]]
  have "loop_result H p r1 w (unat (nalu_len hdr))
      (framed MesgVideo (if nalu_key hdr then FlagKeyFrame else 0) ts (of_nat naluHdrSize + nalu_len hdr) True)
      (\<lambda>d. cd_sentVideoKeyFrame d \<or> nalu_key hdr) cd_sentVideoKeyFrame hdr
      (pieces (video_cap w p) (naluHdrSize + unat (nalu_len hdr)))
      (video_loop rts p ts (nalu_len hdr) (hdr ! 4 AND 0b00011111) 0 (Some a) True (unat (nalu_len hdr)) r1 w1)"
    using lr hb(11) hb(7,9) so(2) by (simp add: nalu_key_def video_cap_def)
  moreover from this obtain e r' w' where
    lp: "video_loop rts p ts (nalu_len hdr) (hdr ! 4 AND 0b00011111) 0 (Some a) True (unat (nalu_len hdr)) r1 w1 = Some (e, r', w')"
    by (rule loop_result_handled)
  ultimately show ?thesis
    using that send_video_data_media [where rts = rts, OF s rd hdr(2) hb(1-3)] hb(4) by simp
qed

text \<open>On every input one call returns, panics nowhere and keeps the session and the state.\<close>

lemma send_video_data_ok:
  assumes ok: "media_ok H w" and p: "p \<in> live w" and room: "Suc (length (cons_map w p)) < ref_limit"
    and rts: "fair rts" and s: "publishing p s"
  obtains d e r' s' w' got where "send_video_data rts ts r s w = Some ((d, e), r', s', w')"
    "handled H p w w'" "publishing p s'" "content r = got @ content r'"
    "\<not> d \<Longrightarrow> e = None \<Longrightarrow> naluHdrSize \<le> length got"
proof -
  have perm: "permutes_keys (rt_perm (rts j))" for j using rts by (simp add: fair_def)
  have refl: "handled H p w w" using ok by (simp add: handled_def)
  obtain d e r1 where rd: "read_full naluHdrSize [] r = (d, e, r1)" by (metis prod_cases3)
  from read_full_any [OF rd] have con: "content r = d @ content r1" by auto
  show ?thesis
  proof (cases e)
    case (Some x)
    have len: "length d \<le> naluHdrSize" using read_full_any [OF rd] by auto
    then have "length (blit 0 d (rs_naluHdr s)) = naluHdrSize" using s by (simp add: publishing_def)
    then have "publishing p (s\<lparr>rs_naluHdr := blit 0 d (rs_naluHdr s)\<rparr>)" using s by (simp add: publishing_def)
    with that [of "x = EOF" "if x = EOF then None else Some (ErrReadNALUHeader ErrUnexpectedEOF)" r1 _ w d]
    show ?thesis using rd Some refl con by (auto simp: send_video_data_def)
  next
    case None
    note hd = nalu_header_kept [OF s rd [unfolded None]]
    show ?thesis
    proof (cases "media_nalu d")
      case False
      obtain e2 r2 where dn: "discard_nalu (nalu_len d) 0 r1 = (e2, r2)" by (metis surj_pair)
      from discard_nalu_prefix [OF dn] obtain g where g: "content r1 = g @ content r2" by blast
      show ?thesis
        by (rule that [of False "map_option ErrDiscardNALU e2" r2 "s\<lparr>rs_naluHdr := d\<rparr>" w "d @ g"])
          (use send_video_data_other [OF s rd [unfolded None] False] dn refl hd con g in
            \<open>simp_all split: option.splits\<close>)
    next
      case True
      show ?thesis
      proof (cases "unat (nalu_len d) = 0")
        case True
        obtain a w0 b w1 where hb: "acquire_video_buffer (rt_pick (rts 0)) p w = Some (a, w0)" "a < length (h_bufs w0)"
          "sb_write d (h_bufs w0 ! a) = (naluHdrSize, None, b)" "w1 = set_buf a b w0" "handled (add_mset a H) p w w1"
          by (rule header_buffer [OF ok p hd(1), of "rt_pick (rts 0)"]) blast
        have "handled H p w w1" using hb(5) handled_leak by blast
        then show ?thesis
          using that [of False None r1 "s\<lparr>rs_naluHdr := d\<rparr>" w1 d] send_video_data_media [where rts = rts, OF s rd [unfolded None] \<open>media_nalu d\<close> hb(1-3)]
            True hb(4) hd con by (simp add: video_loop.simps)
      next
        case False
        then have pos: "0 < unat (nalu_len d)" by simp
        obtain e2 r2 w2 where sent: "send_video_data rts ts r s w = Some ((False, e2), r2, s\<lparr>rs_naluHdr := d\<rparr>, w2)"
          and lr: "loop_result H p r1 w (unat (nalu_len d))
            (framed MesgVideo (if nalu_key d then FlagKeyFrame else 0) ts (of_nat naluHdrSize + nalu_len d) True)
            (\<lambda>x. cd_sentVideoKeyFrame x \<or> nalu_key d) cd_sentVideoKeyFrame d
            (pieces (video_cap w p) (naluHdrSize + unat (nalu_len d))) (Some (e2, r2, w2))"
          by (rule send_nalu [OF ok p room rts s rd [unfolded None] hd(1) \<open>media_nalu d\<close> pos])
        from lr obtain got where "handled H p w w2" "content r1 = got @ content r2"
          by (rule loop_result_handled) auto
        then show ?thesis
          using that [of False e2 r2 "s\<lparr>rs_naluHdr := d\<rparr>" w2 "d @ got"] sent hd con by simp
      qed
    qed
  qed
qed

text \<open>
  A NALU whose payload arrives reaches every consumer that keeps up as header and payload, in frames
  that all announce the whole length.
\<close>

lemma send_video_data_frames:
  assumes ok: "media_ok H w" and p: "p \<in> live w" and room: "Suc (length (cons_map w p)) < ref_limit"
    and rts: "fair rts" and s: "publishing p s"
    and r: "plain r" "content r = hdr @ data @ rest" and hdr: "length hdr = naluHdrSize" "media_nalu hdr"
    and data: "length data = unat (nalu_len hdr)" "data \<noteq> []"
  shows "\<exists>r' w'. send_video_data rts ts r s w = Some ((False, None), r', s\<lparr>rs_naluHdr := hdr\<rparr>, w')
    \<and> handled H p w w' \<and> plain r' \<and> content r' = rest
    \<and> (\<forall>i d. entry w p i = Some d \<and> (cd_sentVideoKeyFrame d \<or> nalu_key hdr)
         \<and> length (queue_of w i) + pieces (video_cap w p) (naluHdrSize + length data) \<le> ch_cap (wc_messages (w_cons w ! i))
         \<longrightarrow> (\<exists>ms. sees i w w' ms (hdr @ data) \<and> length ms = pieces (video_cap w p) (naluHdrSize + length data)
           \<and> framed MesgVideo (if nalu_key hdr then FlagKeyFrame else 0) ts (of_nat naluHdrSize + nalu_len hdr) True ms)
           \<and> stays cd_sentVideoKeyFrame p i w w')"
proof -
  have "naluHdrSize \<le> length (content r)" using r(2) hdr(1) by simp
  from read_full_enough [OF r(1) this] obtain r1 where
    rd: "read_full naluHdrSize [] r = (hdr, None, r1)" "plain r1" "content r1 = data @ rest"
    using r(2) hdr(1) by auto
  have pos: "0 < unat (nalu_len hdr)" using data by (metis length_greater_0_conv)
  obtain e r' w' where sent: "send_video_data rts ts r s w = Some ((False, e), r', s\<lparr>rs_naluHdr := hdr\<rparr>, w')"
    and lr: "loop_result H p r1 w (unat (nalu_len hdr))
      (framed MesgVideo (if nalu_key hdr then FlagKeyFrame else 0) ts (of_nat naluHdrSize + nalu_len hdr) True)
      (\<lambda>d. cd_sentVideoKeyFrame d \<or> nalu_key hdr) cd_sentVideoKeyFrame hdr
      (pieces (video_cap w p) (naluHdrSize + unat (nalu_len hdr))) (Some (e, r', w'))"
    by (rule send_nalu [OF ok p room rts s rd(1) hdr pos])
  have enough: "plain r1 \<and> unat (nalu_len hdr) \<le> length (content r1)" using rd(2,3) data(1) by simp
  from lr enough obtain got where
    lp: "handled H p w w'" "content r1 = got @ content r'" "length got = unat (nalu_len hdr)" "e = None" "plain r'"
    "\<And>i d. entry w p i = Some d \<Longrightarrow> cd_sentVideoKeyFrame d \<or> nalu_key hdr
      \<Longrightarrow> length (queue_of w i) + pieces (video_cap w p) (naluHdrSize + unat (nalu_len hdr)) \<le> ch_cap (wc_messages (w_cons w ! i))
      \<Longrightarrow> (\<exists>ms. sees i w w' ms (hdr @ got)
        \<and> framed MesgVideo (if nalu_key hdr then FlagKeyFrame else 0) ts (of_nat naluHdrSize + nalu_len hdr) True ms
        \<and> length ms = pieces (video_cap w p) (naluHdrSize + unat (nalu_len hdr))) \<and> stays cd_sentVideoKeyFrame p i w w'"
    unfolding loop_result_def by (elim exE conjE) blast
  have got: "got = data" "content r' = rest" using lp(2,3) rd(3) data(1) by simp_all
  show ?thesis
    by (rule exI [of _ r'], rule exI [of _ w']) (use sent lp(1,4-6) got data(1) in fastforce)
qed

section \<open>Sequence headers\<close>

lemma send_seq_header_ok:
  assumes ok: "media_ok H w" and p: "p \<in> live w" and room: "Suc (length (cons_map w p)) < ref_limit"
    and perm: "permutes_keys (rt_perm rt)" and s: "rs_pub s = Some p"
  obtains e r' w' where "send_seq_header rt ty r toRead s w = Some (e, r', w')" "handled H p w w'"
proof -
  obtain a w0 where g: "acquire_buffer (rt_pick rt) AudioPool p w = Some (a, w0)"
    "handled (add_mset a H) p w w0" "owned_empty (pub_audioPool (w_pubs w ! p)) (h_bufs w0 ! a)"
    "a < length (h_bufs w0)" "same_objects w w0"
    "\<And>i x. i < length (w_cons w) \<Longrightarrow> x \<in> set (queue_of w i) \<Longrightarrow> m_data x \<noteq> a \<and> bytes_of w0 x = bytes_of w x
      \<and> m_data x < length (h_bufs w0)"
    using acquired_frame [OF ok p, of "rt_pick rt" AudioPool] by (auto simp: pool_of_def)
  have acq: "acquire_audio_buffer (rt_pick rt) p w = Some (a, w0)" using g(1) by (simp add: acquire_buffer_def)
  have ok0: "media_ok (add_mset a H) w0" "p \<in> live w0" "Suc (length (cons_map w0 p)) < ref_limit"
    using g(2) p room by (simp_all add: handled_def)
  have one: "sb_count (h_bufs w0 ! a) = 1" using g(3) by (simp add: owned_empty_def)
  obtain n e b r1 where rd: "sb_read_n r (unat toRead) (h_bufs w0 ! a) = (n, e, b, r1)" by (metis prod_cases4)
  let ?m = "\<lparr>m_type = ty, m_flags = 0, m_timestamp = 0, m_length = of_nat (sb_length b), m_data = a\<rparr>"
  have md: "m_data ?m = a" by simp
  have al: "a < length (h_bufs (set_buf a b w0))" using g(4) by simp
  show ?thesis
  proof (cases rule: round_ok [OF ok0(1,2) one ok0(3) perm md rd, case_names failed sent])
    case (failed w1 got)
    then obtain x where "e = Some x" by blast
    then show ?thesis
      by (intro that [of "Some (ErrReadSeqHeader x)" r1 w1])
        (use s acq g(4) rd failed(2) handled_trans [OF g(2) failed(3)] in \<open>simp_all add: send_seq_header_def Let_def\<close>)
  next
    case (sent w1 got)
    show ?thesis
    proof (cases "n = unat toRead")
      case True
      obtain v where v: "send_message (rt_perm rt) p ?m (set_buf a b w0) = Some v" "h_release a v = Some w1"
        using sent(2) by (auto simp: bind_Some_iff)
      then show ?thesis
        by (intro that [of None r1 w1])
          (use True s acq g(4) rd sent(1) handled_trans [OF g(2) sent(3)] in \<open>simp_all add: send_seq_header_def Let_def\<close>)
    next
      case False
      have okb: "sb_ok b" "sb_refs b = sb_refs (h_bufs w0 ! a)" "length (sb_buf b) = length (sb_buf (h_bufs w0 ! a))"
        "sb_pool b = sb_pool (h_bufs w0 ! a)"
        using sb_read_n_spec [OF heap_okD(1) [OF live_okD(1) [OF media_okD(1) [OF ok0(1)]] g(4)] rd] by auto
      have st: "media_ok (add_mset a H) (set_buf a b w0)" "live (set_buf a b w0) = live w0"
        using set_buf_media [OF ok0(1) _ okb] by simp_all
      note rel = release_media [OF st(1)]
      note so = same_objectsD [OF same_objects_released, of a "set_buf a b w0"]
      have "handled H p w0 (released a (set_buf a b w0))"
        using rel st(2) queues_kept_returned [OF ok0(1) one] by (simp add: handled_def so)
      then show ?thesis
        by (intro that [of "Some ErrSeqHeaderNotRead" r1 "released a (set_buf a b w0)"])
          (use s acq g(4) rd rel(1) sent(1) False handled_trans [OF g(2)] in \<open>simp_all add: send_seq_header_def Let_def\<close>)
    qed
  qed
qed

section \<open>Whole messages\<close>

text \<open>Each NALU takes at least its header from the payload, so the loop over them ends.\<close>

lemma video_nalus_ok:
  assumes "media_ok H w" and "p \<in> live w" and "Suc (length (cons_map w p)) < ref_limit"
    and "\<And>j. fair (rtss j)" and "publishing p s"
  shows "\<exists>e r' s' w'. video_nalus rtss j ts r s w = Some (e, r', s', w') \<and> handled H p w w' \<and> publishing p s'"
  using assms
proof (induction "length (content r)" arbitrary: j r s w rule: less_induct)
  case less
  obtain d e r1 s1 w1 got where st: "send_video_data (rtss j) ts r s w = Some ((d, e), r1, s1, w1)"
    "handled H p w w1" "publishing p s1" "content r = got @ content r1"
    "\<not> d \<Longrightarrow> e = None \<Longrightarrow> naluHdrSize \<le> length got"
    using send_video_data_ok [OF less.prems(1-3) less.prems(4) [of j] less.prems(5), of ts r] by metis
  show ?case
  proof (cases "e = None \<and> \<not> d")
    case True
    have w1: "media_ok H w1" "p \<in> live w1" "Suc (length (cons_map w1 p)) < ref_limit"
      using st(2) less.prems(2,3) by (simp_all add: handled_def)
    have lt: "length (content r1) < length (content r)"
      using st(4,5) True by (auto simp: naluHdrSize_def)
    from less.hyps [OF lt w1 less.prems(4) st(3), where j = "Suc j"] obtain e' r' s' w' where
      "video_nalus rtss (Suc j) ts r1 s1 w1 = Some (e', r', s', w')" "handled H p w1 w'" "publishing p s'"
      by blast
    then show ?thesis
      using st(1) True handled_trans [OF st(2)] by (subst video_nalus.simps) auto
  next
    case False
    then show ?thesis using st(1-3) by (subst video_nalus.simps) (auto split: option.splits)
  qed
qed

lemma on_video_message_ok:
  assumes ok: "media_ok H w" and p: "p \<in> live w" and room: "Suc (length (cons_map w p)) < ref_limit"
    and rts: "\<And>j. fair (rtss j)" and s: "publishing p s"
  shows "\<exists>e s' w'. on_video_message rtss m s w = Some (e, s', w') \<and> handled H p w w' \<and> publishing p s'"
proof -
  have refl: "handled H p w w" using ok by (simp add: handled_def)
  have pub: "rs_pub s = Some p" using s by (simp add: publishing_def)
  have perm: "permutes_keys (rt_perm (rtss 0 0))" using rts [of 0] by (simp add: fair_def)
  obtain e hdr r where rd: "video_tag_read (new_tag_header VideoTagHeaderSize) (av_data m) = (e, hdr, r)"
    by (metis prod_cases3)
  obtain e1 r1 w1 where sh: "send_seq_header (rtss 0 0) MesgVideoSeqHdr r
      (av_length m - of_nat VideoTagHeaderSize) s w = Some (e1, r1, w1)" "handled H p w w1"
    by (rule send_seq_header_ok [OF ok p room perm pub])
  from video_nalus_ok [where rtss = rtss and j = 0 and ts = "av_timestamp m" and r = r, OF ok p room rts s] obtain e2 r2 s2 w2 where
    vn: "video_nalus rtss 0 (av_timestamp m) r s w = Some (e2, r2, s2, w2)" "handled H p w w2" "publishing p s2"
    by blast
  show ?thesis
    using refl sh vn s by (cases e) (auto simp: on_video_message_def rd)
qed

lemma on_audio_message_ok:
  assumes ok: "media_ok H w" and p: "p \<in> live w" and room: "Suc (length (cons_map w p)) < ref_limit"
    and rts: "fair rts" and s: "publishing p s"
  shows "\<exists>e w'. on_audio_message rts m s w = Some (e, s, w') \<and> handled H p w w'"
proof -
  have refl: "handled H p w w" using ok by (simp add: handled_def)
  have pub: "rs_pub s = Some p" using s by (simp add: publishing_def)
  have perm: "permutes_keys (rt_perm (rts j))" for j using rts by (simp add: fair_def)
  obtain e hdr r where rd: "audio_tag_read (new_tag_header AudioTagHeaderSize) (av_data m) = (e, hdr, r)"
    by (metis prod_cases3)
  obtain e1 r1 w1 where sh: "send_seq_header (rts 0) MesgAudioSeqHdr r
      (av_length m - of_nat AudioTagHeaderSize) s w = Some (e1, r1, w1)" "handled H p w w1"
    by (rule send_seq_header_ok [OF ok p room perm pub])
  let ?rem = "av_length m - of_nat AudioTagHeaderSize"
  obtain e2 r2 w2 where au: "audio_loop rts p (av_timestamp m) (av_length m) 0 True ?rem r w = Some (e2, r2, w2)"
    "handled H p w w2"
    by (rule loop_result_handled [OF audio_loop_ok [where rts = rts, OF ok p room perm]])
  have "\<exists>e r' w'. send_audio_data rts m r s w = Some (e, r', w') \<and> handled H p w w'"
    using au refl pub by (auto simp: send_audio_data_def Let_def)
  then show ?thesis
    using refl sh by (cases e) (auto simp: on_audio_message_def rd)
qed

lemma on_meta_data_message_ok:
  assumes ok: "media_ok H w" and p: "p \<in> live w" and room: "Suc (length (cons_map w p)) < ref_limit"
    and perm: "permutes_keys (rt_perm rt)" and s: "rs_pub s = Some p"
  shows "\<exists>w'. on_meta_data_message rt m s w = Some (None, w') \<and> handled H p w w'"
proof -
  let ?md = "\<lparr>md_videoFrameRate = mm_frameRate m, md_videoDataRate = mm_videoDataRate m,
        md_videoWidth = mm_width m, md_videoHeight = mm_height m,
        md_audioChannels = mm_audioChannels m, md_audioDataRate = mm_audioDataRate m,
        md_audioSampleRate = mm_audioSampleRate m\<rparr>"
  from send_meta_data_media [OF ok p room perm, of ?md] obtain w' where
    w': "send_meta_data (rt_perm rt) p ?md w = Some (None, w')" "media_ok H w'" "live w' = live w"
    "send_outcome p (meta_message (length (h_bufs w))) (after_meta p ?md w) w'" by blast
  have "cons_map (after_meta p ?md w) p = cons_map w p" by (rule after_meta_ok(2) [OF media_okD(1) [OF ok] p])
  then have len: "length (cons_map w' p) \<le> length (cons_map w p)"
    using w'(4) by (simp add: send_outcome_def fanned_def del: length_filter_le) (metis length_filter_le)
  have "w_chan w' = w_chan w" "pub_audioPool (w_pubs w' ! p) = pub_audioPool (w_pubs w ! p)"
    "pub_videoPool (w_pubs w' ! p) = pub_videoPool (w_pubs w ! p)"
    using w'(4) live_bound [OF ok p]
    by (auto simp: send_outcome_def after_store_def is_seq_header_def meta_message_def mesg_types after_meta_def)
  moreover have "queues_kept w w'"
  proof (rule queues_kept_unqueued)
    show h: "heap_ok H w" by (rule live_okD(1) [OF media_okD(1) [OF ok]])
    show "queued w (length (h_bufs w)) = 0" using heap_ok_fresh [OF h, of "length (h_bufs w)"] by simp
    show "length (w_cons w') = length (w_cons w)" using w'(4) by (simp add: send_outcome_def after_meta_def)
    show "queue_grows i w w'" for i
      using send_outcome_queue [OF w'(4), of i] queue_grows_cong(2) [of "after_meta p ?md w" w] by (simp add: after_meta_def)
    show "sb_bytes (h_bufs w' ! x) = sb_bytes (h_bufs w ! x)" if "x < length (h_bufs w)" for x
      using that w'(4) by (simp add: send_outcome_def after_store_def is_seq_header_def meta_message_def mesg_types after_meta_def nth_append)
  qed
  ultimately have "handled H p w w'" using len w'(2,3) by (simp add: handled_def)
  with w'(1) show ?thesis using s by (simp add: on_meta_data_message_def)
qed

section \<open>What a consumer sees of a video message\<close>

lemma sees_trans:
  assumes "sees i u v ms a" and "sees i v w ns b"
  shows "sees i u w (ms @ ns) (a @ b)"
proof -
  have q: "queue_of v i = queue_of u i @ ms" and keep: "\<forall>m \<in> set (queue_of v i). bytes_of w m = bytes_of v m"
    using assms by (simp_all add: sees_def)
  then have "concat (map (bytes_of w) ms) = concat (map (bytes_of v) ms)"
    by (intro arg_cong [of _ _ concat] map_cong) simp_all
  with assms keep q show ?thesis unfolding sees_def by simp
qed

text \<open>A payload as a list of NALUs, header and body; the ones of other types are skipped.\<close>

type_synonym nalu = "byte list \<times> byte list"

definition whole_nalu :: "nalu \<Rightarrow> bool" where
  "whole_nalu = (\<lambda>(hdr, data). length hdr = naluHdrSize \<and> length data = unat (nalu_len hdr)
     \<and> (media_nalu hdr \<longrightarrow> data \<noteq> []))"

definition nalu_bytes :: "nalu list \<Rightarrow> byte list" where
  "nalu_bytes ns = concat (map (\<lambda>(hdr, data). hdr @ data) ns)"

definition media_nalus :: "nalu list \<Rightarrow> nalu list" where
  "media_nalus ns = filter (\<lambda>(hdr, data). media_nalu hdr) ns"

definition nalu_pieces :: "nat \<Rightarrow> nalu list \<Rightarrow> nat" where
  "nalu_pieces cap ns = sum_list (map (\<lambda>(hdr, data). pieces cap (naluHdrSize + length data)) (media_nalus ns))"

lemma nalu_simps [simp]:
  "nalu_bytes [] = []" "nalu_bytes ((hdr, data) # ns) = hdr @ data @ nalu_bytes ns"
  "media_nalus [] = []" "media_nalus ((hdr, data) # ns) = (if media_nalu hdr then [(hdr, data)] else []) @ media_nalus ns"
  "nalu_pieces cap [] = 0"
  "nalu_pieces cap ((hdr, data) # ns) =
     (if media_nalu hdr then pieces cap (naluHdrSize + length data) else 0) + nalu_pieces cap ns"
  by (simp_all add: nalu_bytes_def media_nalus_def nalu_pieces_def)

lemma send_video_data_end:
  assumes "plain r" and "content r = []"
  shows "\<exists>r'. send_video_data rts ts r s w =
    Some ((True, None), r', s\<lparr>rs_naluHdr := blit 0 [] (rs_naluHdr s)\<rparr>, w)"
proof -
  obtain d e r1 where rd: "read_full naluHdrSize [] r = (d, e, r1)" by (metis prod_cases3)
  have d: "d = []" "e \<noteq> None" using read_full_any [OF rd] assms(2) by (auto simp: naluHdrSize_def)
  then have "e = Some EOF" using read_full_plain [OF assms(1) rd] by auto
  with d rd show ?thesis by (simp add: send_video_data_def)
qed

lemma send_video_data_skip:
  assumes s: "publishing p s" and r: "plain r" "content r = hdr @ data @ rest"
    and hdr: "length hdr = naluHdrSize" "\<not> media_nalu hdr" and data: "length data = unat (nalu_len hdr)"
  shows "\<exists>r'. send_video_data rts ts r s w = Some ((False, None), r', s\<lparr>rs_naluHdr := hdr\<rparr>, w)
    \<and> plain r' \<and> content r' = rest"
proof -
  have "naluHdrSize \<le> length (content r)" using r(2) hdr(1) by simp
  from read_full_enough [OF r(1) this] obtain r1 where
    rd: "read_full naluHdrSize [] r = (hdr, None, r1)" "plain r1" "content r1 = data @ rest"
    using r(2) hdr(1) by auto
  have "unat (nalu_len hdr) - unat (0 :: u32) \<le> length (content r1)" using rd(3) data by simp
  from discard_nalu_plain [OF rd(2) this] obtain r2 where
    "discard_nalu (nalu_len hdr) 0 r1 = (None, r2)" "plain r2" "content r2 = rest"
    using rd(3) data by auto
  with send_video_data_other [OF s rd(1) hdr(2)] show ?thesis by simp
qed

lemma video_nalus_frames:
  assumes "media_ok H w" and "p \<in> live w" and "Suc (length (cons_map w p)) < ref_limit"
    and "\<And>j. fair (rtss j)" and "publishing p s"
    and "plain r" and "content r = nalu_bytes ns" and "\<forall>n \<in> set ns. whole_nalu n"
  shows "\<exists>r' s' w'. video_nalus rtss j ts r s w = Some (None, r', s', w') \<and> handled H p w w' \<and> publishing p s'
    \<and> (\<forall>i d. entry w p i = Some d \<and> cd_sentVideoKeyFrame d
         \<and> length (queue_of w i) + nalu_pieces (video_cap w p) ns \<le> ch_cap (wc_messages (w_cons w ! i))
         \<longrightarrow> (\<exists>ms. sees i w w' ms (nalu_bytes (media_nalus ns))))"
  using assms
proof (induction ns arbitrary: j r s w)
  case Nil
  then obtain r' where e: "send_video_data (rtss j) ts r s w =
      Some ((True, None), r', s\<lparr>rs_naluHdr := blit 0 [] (rs_naluHdr s)\<rparr>, w)"
    using send_video_data_end [of r] by fastforce
  have "handled H p w w" using Nil.prems(1) by (simp add: handled_def)
  moreover have "publishing p (s\<lparr>rs_naluHdr := blit 0 [] (rs_naluHdr s)\<rparr>)"
    using Nil.prems(5) by (simp add: publishing_def)
  ultimately show ?case
    using e sees_refl by (subst video_nalus.simps) (auto intro!: exI [of _ "[]"])
next
  case (Cons n ns)
  obtain hdr data where n: "n = (hdr, data)" by (cases n)
  have whole: "length hdr = naluHdrSize" "length data = unat (nalu_len hdr)" "media_nalu hdr \<Longrightarrow> data \<noteq> []"
    using Cons.prems(8) by (simp_all add: n whole_nalu_def)
  have con: "content r = hdr @ data @ nalu_bytes ns" using Cons.prems(7) by (simp add: n)
  let ?s = "s\<lparr>rs_naluHdr := hdr\<rparr>"
  have s': "publishing p ?s" using Cons.prems(5) whole(1) by (simp add: publishing_def)
  show ?case
  proof (cases "media_nalu hdr")
    case False
    from send_video_data_skip [OF Cons.prems(5,6) con whole(1) False whole(2)] obtain r1 where
      st: "send_video_data (rtss j) ts r s w = Some ((False, None), r1, ?s, w)" "plain r1" "content r1 = nalu_bytes ns"
      by blast
    have "\<forall>n \<in> set ns. whole_nalu n" using Cons.prems(8) by simp
    from Cons.IH [OF Cons.prems(1-4) s' st(2,3) this, of "Suc j"] show ?thesis
      using st(1) False by (subst video_nalus.simps) (simp add: n)
  next
    case True
    from send_video_data_frames [OF Cons.prems(1-3) Cons.prems(4) [of j] Cons.prems(5,6) con whole(1) True whole(2)
        whole(3) [OF True]] obtain r1 w1 where
      st: "send_video_data (rtss j) ts r s w = Some ((False, None), r1, ?s, w1)" "handled H p w w1" "plain r1"
      "content r1 = nalu_bytes ns" and
      del: "\<And>i d. entry w p i = Some d \<Longrightarrow> cd_sentVideoKeyFrame d \<Longrightarrow>
        length (queue_of w i) + pieces (video_cap w p) (naluHdrSize + length data) \<le> ch_cap (wc_messages (w_cons w ! i))
        \<Longrightarrow> (\<exists>ms. sees i w w1 ms (hdr @ data) \<and> length ms = pieces (video_cap w p) (naluHdrSize + length data))
          \<and> stays cd_sentVideoKeyFrame p i w w1" by blast
    have w1: "media_ok H w1" "p \<in> live w1" "Suc (length (cons_map w1 p)) < ref_limit"
      using st(2) Cons.prems(2,3) by (simp_all add: handled_def)
    have "\<forall>n \<in> set ns. whole_nalu n" using Cons.prems(8) by simp
    from Cons.IH [OF w1 Cons.prems(4) s' st(3,4) this, of "Suc j"] obtain r' s2 w' where
      ih: "video_nalus rtss (Suc j) ts r1 ?s w1 = Some (None, r', s2, w')" "handled H p w1 w'" "publishing p s2"
      and del': "\<And>i d. entry w1 p i = Some d \<Longrightarrow> cd_sentVideoKeyFrame d \<Longrightarrow>
        length (queue_of w1 i) + nalu_pieces (video_cap w1 p) ns \<le> ch_cap (wc_messages (w_cons w1 ! i))
        \<Longrightarrow> \<exists>ms. sees i w1 w' ms (nalu_bytes (media_nalus ns))" by blast
    have "\<exists>ms. sees i w w' ms (nalu_bytes (media_nalus (n # ns)))"
      if i: "entry w p i = Some d" "cd_sentVideoKeyFrame d"
        "length (queue_of w i) + nalu_pieces (video_cap w p) (n # ns) \<le> ch_cap (wc_messages (w_cons w ! i))" for i d
    proof -
      from del [OF i(1,2)] i(3) True obtain ms where
        ms: "sees i w w1 ms (hdr @ data)" "length ms = pieces (video_cap w p) (naluHdrSize + length data)"
          "stays cd_sentVideoKeyFrame p i w w1" by (auto simp: n)
      then obtain d' where d': "entry w1 p i = Some d'" "cd_sentVideoKeyFrame d'" by (auto simp: stays_def)
      have "length (queue_of w1 i) + nalu_pieces (video_cap w1 p) ns \<le> ch_cap (wc_messages (w_cons w1 ! i))"
        using ms i(3) True video_cap_handled [OF st(2)] by (simp add: sees_def stays_def n)
      from del' [OF d' this] obtain ms' where "sees i w1 w' ms' (nalu_bytes (media_nalus ns))" by blast
      from sees_trans [OF ms(1) this] True show ?thesis by (auto simp: n)
    qed
    moreover have "video_nalus rtss j ts r s w = Some (None, r', s2, w')"
      using st(1) ih(1) by (subst video_nalus.simps) simp
    ultimately show ?thesis using handled_trans [OF st(2) ih(2)] ih(3) by blast
  qed
qed

lemma on_video_message_frames:
  assumes ok: "media_ok H w" and p: "p \<in> live w" and room: "Suc (length (cons_map w p)) < ref_limit"
    and rts: "\<And>j. fair (rtss j)" and s: "publishing p s"
    and m: "plain (av_data m)" "content (av_data m) = tag @ nalu_bytes ns" "length tag = VideoTagHeaderSize"
    and tag: "video_tag_codec tag = VideoCodecH264" "video_tag_packet_type tag = PacketData"
    and ns: "\<forall>n \<in> set ns. whole_nalu n"
  shows "\<exists>s' w'. on_video_message rtss m s w = Some (None, s', w') \<and> handled H p w w' \<and> publishing p s'
    \<and> (\<forall>i d. entry w p i = Some d \<and> cd_sentVideoKeyFrame d
         \<and> length (queue_of w i) + nalu_pieces (video_cap w p) ns \<le> ch_cap (wc_messages (w_cons w ! i))
         \<longrightarrow> (\<exists>ms. sees i w w' ms (nalu_bytes (media_nalus ns))))"
proof -
  have "VideoTagHeaderSize \<le> length (content (av_data m))" using m(2,3) by simp
  from read_full_enough [OF m(1) this] obtain r where
    rf: "read_full VideoTagHeaderSize [] (av_data m) = (tag, None, r)" "plain r" "content r = nalu_bytes ns"
    using m(2,3) by auto
  have rd: "video_tag_read (new_tag_header VideoTagHeaderSize) (av_data m) = (None, tag, r)"
    using rf(1) m(3) by (simp add: video_tag_read_def tag_header_read_def blit_def new_tag_header_def)
  from video_nalus_frames [where rtss = rtss and j = 0 and ts = "av_timestamp m", OF ok p room rts s rf(2,3) ns]
  show ?thesis
    by (auto simp: on_video_message_def rd tag PacketSeqHeader_def PacketData_def)
qed

section \<open>What a consumer sees of an audio message\<close>

lemma on_audio_message_frames:
  assumes ok: "media_ok H w" and p: "p \<in> live w" and room: "Suc (length (cons_map w p)) < ref_limit"
    and rts: "fair rts" and s: "publishing p s"
    and m: "plain (av_data m)" "content (av_data m) = tag @ data" "length tag = AudioTagHeaderSize"
    and len: "length data = unat (av_length m - of_nat AudioTagHeaderSize)"
    and tag: "audio_tag_codec tag = AudioCodecAAC" "audio_tag_packet_type tag = PacketData"
  shows "\<exists>w'. on_audio_message rts m s w = Some (None, s, w') \<and> handled H p w w'
    \<and> (\<forall>i d. entry w p i = Some d
         \<and> length (queue_of w i) + pieces (pool_cap (snd (pub_audioPool (w_pubs w ! p)))) (length data)
             \<le> ch_cap (wc_messages (w_cons w ! i))
         \<longrightarrow> (\<exists>ms. sees i w w' ms data
           \<and> framed MesgAudio 0 (av_timestamp m) (av_length m - of_nat AudioTagHeaderSize) True ms))"
proof -
  let ?rem = "av_length m - of_nat AudioTagHeaderSize" and ?cap = "pool_cap (snd (pub_audioPool (w_pubs w ! p)))"
  have perm: "permutes_keys (rt_perm (rts j))" for j using rts by (simp add: fair_def)
  have "AudioTagHeaderSize \<le> length (content (av_data m))" using m(2,3) by simp
  from read_full_enough [OF m(1) this] obtain r where
    rf: "read_full AudioTagHeaderSize [] (av_data m) = (tag, None, r)" "plain r" "content r = data"
    using m(2,3) by auto
  have rd: "audio_tag_read (new_tag_header AudioTagHeaderSize) (av_data m) = (None, tag, r)"
    using rf(1) m(3) by (simp add: audio_tag_read_def tag_header_read_def blit_def new_tag_header_def)
  note al = audio_loop_ok [where rts = rts and k = 0 and first = True and r = r and remaining = ?rem
      and ts = "av_timestamp m" and len = "av_length m", OF ok p room perm]
  have enough: "plain r \<and> unat ?rem \<le> length (content r)" using rf(2,3) len by simp
  from al obtain e r' w' got where
    lp: "audio_loop rts p (av_timestamp m) (av_length m) 0 True ?rem r w = Some (e, r', w')" "handled H p w w'"
    "content r = got @ content r'" "e = None \<longleftrightarrow> length got = unat ?rem" "e = None"
    "\<And>i d. entry w p i = Some d
      \<Longrightarrow> length (queue_of w i) + pieces ?cap (unat ?rem) \<le> ch_cap (wc_messages (w_cons w ! i))
      \<Longrightarrow> \<exists>ms. sees i w w' ms ([] @ got) \<and> framed MesgAudio 0 (av_timestamp m) ?rem True ms"
    using enough unfolding loop_result_def by blast
  have got: "got = data" using lp(3-5) rf(3) len by simp
  have "\<exists>r'. send_audio_data rts m r s w = Some (None, r', w')"
  proof (cases "?rem = 0")
    case True
    then have "w' = w" using lp(1) by (simp add: audio_loop.simps)
    then show ?thesis using True by (simp add: send_audio_data_def)
  next
    case False
    then show ?thesis
      using lp(1,5) s by (simp add: send_audio_data_def Let_def word_gt_0 publishing_def)
  qed
  then have "on_audio_message rts m s w = Some (None, s, w')"
    by (auto simp: on_audio_message_def rd tag PacketSeqHeader_def PacketData_def)
  then show ?thesis using lp(2) lp(6) got len by auto
qed

section \<open>Sequence headers are kept whole or refused\<close>

definition kept_header :: "u8 \<Rightarrow> publisher \<Rightarrow> buf_ref option" where
  "kept_header ty pub = (if ty = MesgVideoSeqHdr then pub_videoSeqHdr pub else pub_audioSeqHdr pub)"

lemma send_seq_header_kept:
  assumes ok: "media_ok H w" and p: "p \<in> live w" and room: "Suc (length (cons_map w p)) < ref_limit"
    and perm: "permutes_keys (rt_perm rt)" and s: "rs_pub s = Some p"
    and ty: "ty = MesgVideoSeqHdr \<or> ty = MesgAudioSeqHdr"
    and r: "plain r" "unat toRead \<le> length (content r)"
    and fits: "unat toRead \<le> pool_cap (snd (pub_audioPool (w_pubs w ! p)))"
  shows "\<exists>r' w' x. send_seq_header rt ty r toRead s w = Some (None, r', w') \<and> handled H p w w'
    \<and> kept_header ty (w_pubs w' ! p) = Some x \<and> sb_bytes (h_bufs w' ! x) = take (unat toRead) (content r)
    \<and> content r' = drop (unat toRead) (content r)"
proof -
  obtain a w0 where g: "acquire_buffer (rt_pick rt) AudioPool p w = Some (a, w0)"
    "handled (add_mset a H) p w w0" "owned_empty (pub_audioPool (w_pubs w ! p)) (h_bufs w0 ! a)"
    "a < length (h_bufs w0)" "same_objects w w0"
    "\<And>i x. i < length (w_cons w) \<Longrightarrow> x \<in> set (queue_of w i) \<Longrightarrow> m_data x \<noteq> a \<and> bytes_of w0 x = bytes_of w x
      \<and> m_data x < length (h_bufs w0)"
    using acquired_frame [OF ok p, of "rt_pick rt" AudioPool] by (auto simp: pool_of_def)
  have acq: "acquire_audio_buffer (rt_pick rt) p w = Some (a, w0)" using g(1) by (simp add: acquire_buffer_def)
  have ok0: "media_ok (add_mset a H) w0" "p \<in> live w0" "Suc (length (cons_map w0 p)) < ref_limit"
    using g(2) p room by (simp_all add: handled_def)
  let ?b = "h_bufs w0 ! a"
  have okb: "sb_ok ?b" by (rule heap_okD(1) [OF live_okD(1) [OF media_okD(1) [OF ok0(1)]] g(4)])
  have e0: "sb_count ?b = 1" "sb_bytes ?b = []" "sb_len ?b = 0"
    "length (sb_buf ?b) = pool_cap (snd (pub_audioPool (w_pubs w ! p)))"
    using g(3) by (simp_all add: owned_empty_def sb_bytes_def)
  obtain n e b r1 where rd: "sb_read_n r (unat toRead) ?b = (n, e, b, r1)" by (metis prod_cases4)
  obtain got where got: "content r = got @ content r1" "n = length got" "sb_bytes b = got" "sb_ok b"
    "e = None \<longleftrightarrow> n = unat toRead" "length (sb_buf b) = length (sb_buf ?b)" "sb_refs b = sb_refs ?b"
    "sb_pool b = sb_pool ?b"
    using sb_read_n_spec [OF okb rd] e0 fits by (auto simp: min_def split: if_splits)
  have "min (unat toRead) (length (sb_buf ?b) - sb_len ?b) \<le> length (content r)" using r(2) by simp
  from sb_read_n_plain [OF okb r(1) this rd] got(5) have e: "e = None" "n = unat toRead" by auto
  let ?u = "set_buf a b w0" and ?m = "\<lparr>m_type = ty, m_flags = 0, m_timestamp = 0, m_length = of_nat (sb_length b), m_data = a\<rparr>"
  note st = set_buf_media [OF ok0(1) _ got(4,7,6,8), simplified]
  have al: "a < length (h_bufs ?u)" using g(4) by simp
  have cnt: "sb_count (h_bufs ?u ! m_data ?m) = 1" using st(3) got(7) e0(1) by (simp add: sb_count_def)
  have pos: "0 < sb_count (h_bufs ?u ! m_data ?m)" "sb_count (h_bufs ?u ! m_data ?m) + length (cons_map ?u p) < ref_limit"
    using cnt ok0(3) by simp_all
  have pu: "p \<in> live ?u" "m_data ?m < length (h_bufs ?u)" using ok0(2) st(2) al by simp_all
  from send_message_media [OF st(1) pu(1,2) pos perm] obtain w1 where
    w1: "send_message (rt_perm rt) p ?m ?u = Some w1" "media_ok (add_mset a H) w1" "live w1 = live ?u"
    "send_outcome p ?m ?u w1" by blast
  note rel = release_media [OF w1(2)]
  note so = same_objectsD [OF same_objects_released, of a w1]
  let ?x = "length (h_bufs ?u)"
  have seq: "is_seq_header ?m" using ty by (auto simp: is_seq_header_def)
  have x: "a \<noteq> ?x" using al by simp
  have pub: "kept_header ty (w_pubs w1 ! p) = Some ?x"
    using w1(4) ty seq live_bound [OF ok0(1,2)]
    by (auto simp: send_outcome_def after_store_def kept_header_def keep_header_def mesg_types)
  have "h_bufs w1 ! ?x = held_copy b"
    using w1(4) seq x st(3) by (simp add: send_outcome_def after_store_def nth_append)
  then have bytes: "sb_bytes (h_bufs (released a w1) ! ?x) = got"
    using x held_copy_bytes [OF got(4)] got(3) by simp
  have len: "length (cons_map w1 p) \<le> length (cons_map w0 p)"
    using w1(4) by (simp add: send_outcome_def fanned_def)
  have pools: "pub_audioPool (w_pubs w1 ! p) = pub_audioPool (w_pubs w0 ! p)"
    "pub_videoPool (w_pubs w1 ! p) = pub_videoPool (w_pubs w0 ! p)"
    using w1(4) live_bound [OF ok0(1,2)] by (auto simp: send_outcome_def after_store_def keep_header_def)
  have "w_chan w1 = w_chan w0" using w1(4) by (simp add: send_outcome_def)
  moreover have "queues_kept w0 (released a w1)"
  proof (rule queues_kept_unqueued)
    show h: "heap_ok (add_mset a H) w0" by (rule live_okD(1) [OF media_okD(1) [OF ok0(1)]])
    show "queued w0 a = 0" by (rule sole_unqueued [OF h e0(1)])
    show "length (w_cons (released a w1)) = length (w_cons w0)" using w1(4) by (simp add: send_outcome_def so)
    show "queue_grows i w0 (released a w1)" for i
      using send_outcome_queue [OF w1(4), of i] queue_grows_cong(1) [OF so(1)] queue_grows_cong(2) [of ?u w0] by simp
    show "sb_bytes (h_bufs (released a w1) ! x) = sb_bytes (h_bufs w0 ! x)" if "x < length (h_bufs w0)" "x \<noteq> a" for x
      using that w1(4) seq by (simp add: send_outcome_def after_store_def nth_append set_buf_def)
  qed
  ultimately have "handled H p w0 (released a w1)"
    using rel w1(3) st(2) len pools by (simp add: handled_def so)
  then have h: "handled H p w (released a w1)" by (rule handled_trans [OF g(2)])
  have "send_seq_header rt ty r toRead s w = Some (None, r1, released a w1)"
    using s acq g(4) rd e w1(1) rel(1) by (simp add: send_seq_header_def Let_def)
  moreover have "take (unat toRead) (content r) = got" "content r1 = drop (unat toRead) (content r)"
    using got(1,2) e(2) by simp_all
  ultimately show ?thesis using h pub bytes so(2) by auto
qed

text \<open>A header longer than an audio buffer is refused, and nothing is sent or kept.\<close>

lemma send_seq_header_refused:
  assumes ok: "media_ok H w" and p: "p \<in> live w"
    and s: "rs_pub s = Some p"
    and long: "pool_cap (snd (pub_audioPool (w_pubs w ! p))) < unat toRead"
  shows "\<exists>e r' w'. send_seq_header rt ty r toRead s w = Some (Some e, r', w') \<and> media_ok H w' \<and> same_objects w w'"
proof -
  obtain a w0 where g: "acquire_buffer (rt_pick rt) AudioPool p w = Some (a, w0)"
    "handled (add_mset a H) p w w0" "owned_empty (pub_audioPool (w_pubs w ! p)) (h_bufs w0 ! a)"
    "a < length (h_bufs w0)" "same_objects w w0"
    "\<And>i x. i < length (w_cons w) \<Longrightarrow> x \<in> set (queue_of w i) \<Longrightarrow> m_data x \<noteq> a \<and> bytes_of w0 x = bytes_of w x
      \<and> m_data x < length (h_bufs w0)"
    using acquired_frame [OF ok p, of "rt_pick rt" AudioPool] by (auto simp: pool_of_def)
  have acq: "acquire_audio_buffer (rt_pick rt) p w = Some (a, w0)" using g(1) by (simp add: acquire_buffer_def)
  have ok0: "media_ok (add_mset a H) w0" using g(2) by (simp add: handled_def)
  let ?b = "h_bufs w0 ! a"
  have okb: "sb_ok ?b" by (rule heap_okD(1) [OF live_okD(1) [OF media_okD(1) [OF ok0]] g(4)])
  obtain n e b r1 where rd: "sb_read_n r (unat toRead) ?b = (n, e, b, r1)" by (metis prod_cases4)
  have R: "sb_ok b" "sb_refs b = sb_refs ?b" "length (sb_buf b) = length (sb_buf ?b)" "sb_pool b = sb_pool ?b"
    "n \<le> length (sb_buf ?b)"
    using sb_read_n_spec [OF okb rd] by auto
  have n: "n \<noteq> unat toRead" using R(5) g(3) long by (simp add: owned_empty_def)
  have st: "media_ok (add_mset a H) (set_buf a b w0)" using set_buf_media(1) [OF ok0 _ R(1-4)] by simp
  note rel = release_media [OF st]
  have so: "same_objects w (released a (set_buf a b w0))"
    using same_objectsD [OF g(5)] same_objectsD [OF same_objects_released, of a "set_buf a b w0"]
    by (simp add: same_objects_def)
  show ?thesis
    using s acq g(4) rd n rel so by (cases e) (simp_all add: send_seq_header_def Let_def)
qed

section \<open>An empty NALU\<close>

text \<open>
  A NALU of a sent type whose length field is one has no payload: the loop does not run, and the
  buffer that was acquired for it is neither sent nor released.
\<close>

lemma empty_nalu_leaks:
  assumes ok: "media_ok H w" and p: "p \<in> live w" and s: "publishing p s"
    and rd: "read_full naluHdrSize [] r = (hdr, None, r1)" and nalu: "media_nalu hdr" and len: "nalu_len hdr = 0"
  shows "\<exists>a w'. send_video_data rts ts r s w = Some ((False, None), r1, s\<lparr>rs_naluHdr := hdr\<rparr>, w')
    \<and> media_ok H w' \<and> a < length (h_bufs w') \<and> sb_count (h_bufs w' ! a) = 1
    \<and> (\<forall>pr. a \<notin> set (h_pools w' pr)) \<and> (\<forall>i < length (w_cons w'). \<forall>m \<in> set (queue_of w' i). m_data m \<noteq> a)"
proof -
  note hd = nalu_header_kept [OF s rd]
  obtain a w0 b w1 where hb: "acquire_video_buffer (rt_pick (rts 0)) p w = Some (a, w0)" "a < length (h_bufs w0)"
    "sb_write hdr (h_bufs w0 ! a) = (naluHdrSize, None, b)" "w1 = set_buf a b w0"
    "handled (add_mset a H) p w w1" "sb_count (h_bufs w1 ! a) = 1" "same_objects w w1"
    "\<And>i x. i < length (w_cons w) \<Longrightarrow> x \<in> set (queue_of w i) \<Longrightarrow> m_data x \<noteq> a \<and> bytes_of w1 x = bytes_of w x"
    by (rule header_buffer [OF ok p hd(1), of "rt_pick (rts 0)"]) blast
  have w1: "media_ok (add_mset a H) w1" using hb(5) by (simp add: handled_def)
  note h = live_okD(1) [OF media_okD(1) [OF w1]] and so = same_objectsD [OF hb(7)]
  have "video_loop rts p ts (nalu_len hdr) (hdr ! 4 AND 0b00011111) 0 (Some a) True (unat (nalu_len hdr)) r1
      (set_buf a b w0) = Some (None, r1, w1)"
    by (simp add: video_loop.simps len hb(4))
  then have "send_video_data rts ts r s w = Some ((False, None), r1, s\<lparr>rs_naluHdr := hdr\<rparr>, w1)"
    by (rule send_video_data_media [where rts = rts, OF s rd nalu hb(1-3)])
  moreover have "a \<notin> set (h_pools w1 pr)" for pr by (rule held_not_pooled [OF h]) (simp add: hb(6))
  moreover have "m_data m \<noteq> a" if "i < length (w_cons w1)" "m \<in> set (queue_of w1 i)" for i m
    using hb(8) [of i m] that so(1) by (simp add: queue_of_def)
  moreover have "a < length (h_bufs w1)" using hb(2,4) by simp
  ultimately show ?thesis using media_ok_leak [OF w1] hb(6) by blast
qed

end
