(* ===== verification/RtmpSession.thy ===== *)
theory RtmpSession
  imports RtmpHandlers StreamService
begin

text \<open>
  \<open>onConnect\<close> and \<open>onConn\<close> of \<open>transport/rtmp/rtmp.go\<close>: the life of a publishing connection, from
  the stream key to the removal of the publisher. The RTMP library is a parameter: whether its
  \<open>AcceptStream\<close> succeeds and the application name it hands to \<open>onConnect\<close> (it calls \<open>onConnect\<close>
  once and fails when that returns an error), and the messages it reads. The stream-key service is
  the function \<open>get_by_key\<close>.
\<close>

section \<open>Connecting\<close>

definition new_session :: rtmp_session where
  "new_session = \<lparr>rs_userID = 0, rs_pub = None, rs_naluHdr = replicate naluHdrSize 0\<rparr>"

definition on_connect ::
    "(string \<Rightarrow> 'e + u64) \<Rightarrow> string \<Rightarrow> rtmp_session \<Rightarrow> media_world \<Rightarrow> 'e option \<times> rtmp_session \<times> media_world" where
  "on_connect get_by_key appName s w =
     (let key = trim_prefix appName ''live/''
      in case get_by_key key of
           Inl e \<Rightarrow> (Some e, s, w)
         | Inr userID \<Rightarrow>
             (case new_publisher (format_uint userID) w of
                (p, w) \<Rightarrow> (None, s\<lparr>rs_pub := Some p, rs_userID := userID\<rparr>, w)))"

section \<open>The connection\<close>

text \<open>What \<open>ReadStreamMessage\<close> returns: an error or one of the messages the loop distinguishes.\<close>

datatype rtmp_input =
  UnsupportedMessage
| ReadError
| VideoMessage av_message
| AudioMessage av_message
| MetaDataMessage meta_data_message
| CloseStream
| OtherMessage

text \<open>
  One round of the loop of \<open>onConn\<close>; the flag says whether it goes on. \<open>rtss\<close> gives the choices of
  the runtime while the message is handled.
\<close>

definition handle_input ::
    "(nat \<Rightarrow> nat \<Rightarrow> runtime) \<Rightarrow> rtmp_input \<Rightarrow> rtmp_session \<Rightarrow> media_world \<Rightarrow>
       (bool \<times> rtmp_session \<times> media_world) option" where
  "handle_input rtss i s w =
     (case i of
        UnsupportedMessage \<Rightarrow> Some (True, s, w)
      | ReadError \<Rightarrow> Some (False, s, w)
      | VideoMessage m \<Rightarrow> do {
          (e, s, w) \<leftarrow> on_video_message rtss m s w;
          Some (e = None, s, w)
        }
      | AudioMessage m \<Rightarrow> do {
          (e, s, w) \<leftarrow> on_audio_message (rtss 0) m s w;
          Some (e = None, s, w)
        }
      | MetaDataMessage m \<Rightarrow> do {
          (e, w) \<leftarrow> on_meta_data_message (rtss 0 0) m s w;
          Some (e = None, s, w)
        }
      | CloseStream \<Rightarrow> Some (False, s, w)
      | OtherMessage \<Rightarrow> Some (True, s, w))"

text \<open>The loop on the messages read so far; \<open>n\<close> counts them. At their end the connection waits.\<close>

fun conn_inputs ::
    "(nat \<Rightarrow> nat \<Rightarrow> nat \<Rightarrow> runtime) \<Rightarrow> nat \<Rightarrow> rtmp_input list \<Rightarrow> rtmp_session \<Rightarrow> media_world \<Rightarrow>
       (bool \<times> rtmp_session \<times> media_world) option" where
  "conn_inputs rt n [] s w = Some (True, s, w)"
| "conn_inputs rt n (i # ins) s w = do {
     (goes_on, s, w) \<leftarrow> handle_input (rt n) i s w;
     if goes_on then conn_inputs rt (Suc n) ins s w else Some (False, s, w)
   }"

text \<open>How far a connection has come: turned away, or streaming, or over with its publisher removed.\<close>

datatype conn_state = NotAccepted | Refused media_err | Streaming rtmp_session | Over

definition on_conn ::
    "(string \<Rightarrow> 'e + u64) \<Rightarrow> ('p \<Rightarrow> event \<Rightarrow> 'b \<Rightarrow> 'b option) \<Rightarrow> 'p \<Rightarrow> (string list \<Rightarrow> string list) \<Rightarrow>
       (nat \<Rightarrow> nat \<Rightarrow> nat \<Rightarrow> runtime) \<Rightarrow> string option \<Rightarrow> bool \<Rightarrow> rtmp_input list \<Rightarrow> media_world \<Rightarrow> 'b \<Rightarrow>
       (conn_state \<times> media_world \<times> 'b) option" where
  "on_conn get_by_key publish pp perm rt connect accepted ins w b =
     (case connect of
        None \<Rightarrow> Some (NotAccepted, w, b)
      | Some appName \<Rightarrow>
          (case on_connect get_by_key appName new_session w of (e, s, w) \<Rightarrow>
             if e \<noteq> None \<or> \<not> accepted then Some (NotAccepted, w, b)
             else do {
               p \<leftarrow> rs_pub s;
               (e, w) \<leftarrow> add_publisher p w;
               (case e of
                  Some e \<Rightarrow> Some (Refused e, w, b)
                | None \<Rightarrow> do {
                    b \<leftarrow> start_stream publish pp (rs_userID s) b;
                    (goes_on, s, w) \<leftarrow> conn_inputs rt 0 ins s w;
                    if goes_on then Some (Streaming s, w, b)
                    else do {
                      w \<leftarrow> remove_publisher perm p w;
                      Some (Over, w, b)
                    }
                  })
             }))"

section \<open>The loop\<close>

lemma handle_input_ok:
  assumes ok: "media_ok H w" and p: "p \<in> live w" and room: "Suc (length (cons_map w p)) < ref_limit"
    and rts: "\<And>j. fair (rtss j)" and s: "publishing p s"
  shows "\<exists>c s' w'. handle_input rtss i s w = Some (c, s', w') \<and> handled H p w w' \<and> publishing p s'"
proof -
  have refl: "handled H p w w" using ok by (simp add: handled_def)
  have perm: "permutes_keys (rt_perm (rtss 0 0))" using rts [of 0] by (simp add: fair_def)
  have pub: "rs_pub s = Some p" using s by (simp add: publishing_def)
  show ?thesis
  proof (cases i)
    case (VideoMessage m)
    with on_video_message_ok [where rtss = rtss, OF ok p room rts s, of m] show ?thesis
      by (auto simp: handle_input_def)
  next
    case (AudioMessage m)
    with on_audio_message_ok [OF ok p room rts s, of 0 m] s show ?thesis by (auto simp: handle_input_def)
  next
    case (MetaDataMessage m)
    with on_meta_data_message_ok [OF ok p room perm pub, of m] s show ?thesis by (auto simp: handle_input_def)
  qed (use refl s in \<open>auto simp: handle_input_def\<close>)
qed

lemma conn_inputs_ok:
  assumes "media_ok H w" and "p \<in> live w" and "Suc (length (cons_map w p)) < ref_limit"
    and rt: "\<And>n j. fair (rt n j)" and "publishing p s"
  shows "\<exists>c s' w'. conn_inputs rt n ins s w = Some (c, s', w') \<and> handled H p w w' \<and> publishing p s'"
  using assms(1-3,5)
proof (induction ins arbitrary: n s w)
  case Nil
  then show ?case by (auto simp: handled_def)
next
  case (Cons i ins)
  obtain c s1 w1 where one: "handle_input (rt n) i s w = Some (c, s1, w1)" "handled H p w w1" "publishing p s1"
    using handle_input_ok [where rtss = "rt n" and i = i, OF Cons.prems(1-3) rt Cons.prems(4)] by blast
  have next1: "media_ok H w1" "p \<in> live w1" "Suc (length (cons_map w1 p)) < ref_limit"
    using one(2) Cons.prems(2,3) by (simp_all add: handled_def)
  obtain c2 s2 w2 where "conn_inputs rt (Suc n) ins s1 w1 = Some (c2, s2, w2)" "handled H p w1 w2" "publishing p s2"
    using Cons.IH [OF next1 one(3), of "Suc n"] by blast
  with one handled_trans [OF one(2)] show ?case by auto
qed

section \<open>The life of a connection\<close>

context event_sink
begin

lemma on_conn_ok:
  assumes ok: "media_ok H w" and "ok b" and "legal pp" and perm: "permutes_keys perm" and rt: "\<And>n j. fair (rt n j)"
    and key: "get_by_key key = Inr u"
  shows "\<exists>st w' b'. on_conn get_by_key publish pp perm rt (Some (''live/'' @ key)) True ins w b = Some (st, w', b')
    \<and> media_ok H w' \<and> ok b'
    \<and> (case st of
         NotAccepted \<Rightarrow> False
       | Refused e \<Rightarrow> e = ErrPublisherExists \<and> get_publisher (format_uint u) w \<noteq> None \<and> w_chan w' = w_chan w
       | Streaming s \<Rightarrow> get_publisher (format_uint u) w = None
           \<and> get_publisher (format_uint u) w' = Some (length (w_pubs w)) \<and> publishing (length (w_pubs w)) s
       | Over \<Rightarrow> get_publisher (format_uint u) w = None \<and> get_publisher (format_uint u) w' = None \<and> live w' = live w)"
proof -
  let ?x = "format_uint u"
  obtain p w1 where np: "new_publisher ?x w = (p, w1)" by (cases "new_publisher ?x w")
  note n = new_publisher_ok [OF ok, of ?x, unfolded np fst_conv snd_conv]
  have p: "p = length (w_pubs w)" using np by (simp add: new_publisher_def Let_def)
  let ?s = "new_session\<lparr>rs_pub := Some p, rs_userID := u\<rparr>"
  have con: "on_connect get_by_key (''live/'' @ key) new_session w = (None, ?s, w1)"
    using trim_prefix_append [of "''live/''" key] by (simp add: on_connect_def key np Let_def)
  have pub: "publishing p ?s" by (simp add: publishing_def new_session_def)
  have same: "get_publisher ?x w1 = get_publisher ?x w" "live w1 = live w" using n(4) by (simp_all add: get_publisher_def live_def)
  show ?thesis
  proof (cases "get_publisher ?x w")
    case (Some q)
    have "add_publisher p w1 = Some (Some ErrPublisherExists, w1)"
      using add_publisher_exists [of p w1] n(2,3) same Some by (simp add: unpublished_def)
    then show ?thesis using con n assms(2) Some by (simp add: on_conn_def)
  next
    case None
    let ?w2 = "w1\<lparr>w_chan := w_chan w1 @ [(?x, p)]\<rparr>"
    note ad = add_publisher_new [OF n(1,2), unfolded n(3), OF None [folded same(1)]]
    have empty: "cons_map ?w2 p = []" using n(2) by (simp add: unpublished_def consumers_of_def)
    have room: "Suc (length (cons_map ?w2 p)) < ref_limit" by (simp only: empty) (simp add: ref_limit_def)
    have live: "p \<in> live ?w2" using ad(3) by simp
    obtain b' where b': "start_stream publish pp u b = Some b'" "ok b'"
      using publish_ok [OF assms(2,3)] by (auto simp: start_stream_def)
    obtain c s' w3 where loop: "conn_inputs rt 0 ins ?s ?w2 = Some (c, s', w3)" "handled H p ?w2 w3" "publishing p s'"
      using conn_inputs_ok [where n = 0 and ins = ins and rt = rt, OF ad(2) live room rt pub] by blast
    have chan: "w_chan w3 = w_chan w @ [(?x, p)]" "media_ok H w3" "live w3 = insert p (live w)"
      using loop(2) n(4) ad(3) same(2) by (simp_all add: handled_def)
    have find: "get_publisher ?x w3 = Some p"
      using None chan(1) by (simp add: get_publisher_def map_add_Some_iff)
    have id3: "pub_id (w_pubs w3 ! p) = ?x" using media_okD(3) [OF chan(2), of ?x p] chan(1) by simp
    show ?thesis
    proof (cases c)
      case True
      then show ?thesis using con ad(1) b' loop(1,3) find chan(2) p None by (simp add: on_conn_def)
    next
      case False
      have "p \<in> live w3" using chan(3) by simp
      from remove_publisher_ok [OF chan(2) this perm] obtain w4 where
        w4: "remove_publisher perm p w3 = Some w4" "media_ok H w4" "live w4 = live w3 - {p}"
        "get_publisher ?x w4 = None" unfolding id3 by blast
      have "p \<notin> live w" using n(2) same(2) by (simp add: unpublished_def)
      then have "live w4 = live w" using w4(3) chan(3) by simp
      then show ?thesis using con ad(1) b' loop(1) False w4 None by (simp add: on_conn_def)
    qed
  qed
qed

end

lemma on_conn_refused_key:
  "get_by_key key = Inl e \<Longrightarrow>
     on_conn get_by_key publish pp perm rt (Some (''live/'' @ key)) accepted ins w b = Some (NotAccepted, w, b)"
  using trim_prefix_append [of "''live/''" key] by (simp add: on_conn_def on_connect_def Let_def)

end
