(* ===== verification/WorldFrame.thy ===== *)
theory WorldFrame
  imports MediaSystem
begin

text \<open>
  What an operation of the media pipeline can change. \<open>effect Q p I w w'\<close> bounds it: the table and the
  identifiers of the publishers stay, only the publisher \<open>p\<close> and the consumers \<open>I\<close> may differ, and every
  message that is newly queued satisfies \<open>Q\<close>. Each operation has one lemma, collected under \<open>effects\<close>;
  the operations of a whole RTMP message are composed from them.
\<close>

section \<open>Effects\<close>

definition effect ::
    "(message \<Rightarrow> bool) \<Rightarrow> publisher_ref \<Rightarrow> consumer_ref set \<Rightarrow> media_world \<Rightarrow> media_world \<Rightarrow> bool" where
  "effect Q p I w w' \<longleftrightarrow> w_chan w' = w_chan w
     \<and> length (w_pubs w') = length (w_pubs w) \<and> length (w_cons w') = length (w_cons w)
     \<and> (\<forall>q. pub_id (w_pubs w' ! q) = pub_id (w_pubs w ! q)) \<and> (\<forall>q. q \<noteq> p \<longrightarrow> w_pubs w' ! q = w_pubs w ! q)
     \<and> members w' p \<subseteq> members w p \<union> I
     \<and> (\<forall>i. ids_of (w_cons w' ! i) = ids_of (w_cons w ! i)) \<and> (\<forall>i. i \<notin> I \<longrightarrow> w_cons w' ! i = w_cons w ! i)
     \<and> (\<forall>i < length (w_cons w). \<forall>m \<in> set (queue_of w' i). m \<in> set (queue_of w i) \<or> Q m)"

lemma effectD:
  assumes "effect Q p I w w'"
  shows "w_chan w' = w_chan w" "length (w_pubs w') = length (w_pubs w)" "length (w_cons w') = length (w_cons w)"
    "pub_id (w_pubs w' ! q) = pub_id (w_pubs w ! q)" "q \<noteq> p \<Longrightarrow> w_pubs w' ! q = w_pubs w ! q"
    "members w' p \<subseteq> members w p \<union> I"
    "ids_of (w_cons w' ! i) = ids_of (w_cons w ! i)" "i \<notin> I \<Longrightarrow> w_cons w' ! i = w_cons w ! i"
    "i < length (w_cons w) \<Longrightarrow> m \<in> set (queue_of w' i) \<Longrightarrow> m \<in> set (queue_of w i) \<or> Q m"
  using assms unfolding effect_def by blast+

lemma effect_refl [simp]: "effect Q p I w w"
  by (simp add: effect_def)

lemma nth_update: "xs[i := x] ! j = (if i = j \<and> i < length xs then x else xs ! j)"
  by (cases "i < length xs") (auto simp: nth_list_update list_update_beyond)

lemma effect_trans:
  assumes uv: "effect Q p I u v" and vw: "effect Q p I v w"
  shows "effect Q p I u w"
proof -
  note A = effectD [OF uv] and B = effectD [OF vw]
  have "members w p \<subseteq> members u p \<union> I" using A(6) B(6) by blast
  moreover have "m \<in> set (queue_of u i) \<or> Q m" if "i < length (w_cons u)" "m \<in> set (queue_of w i)" for i m
    using A(3,9) B(9) that by metis
  ultimately show ?thesis unfolding effect_def by (simp add: A(1-5,7,8) B(1-5,7,8))
qed

lemma effect_same: "w_cons w' = w_cons w \<Longrightarrow> w_pubs w' = w_pubs w \<Longrightarrow> w_chan w' = w_chan w \<Longrightarrow> effect Q p I w w'"
  by (simp add: effect_def members_def queue_of_def)

lemma effect_members: "effect Q p I w w' \<Longrightarrow> members w p \<subseteq> I \<Longrightarrow> members w' p \<subseteq> I"
  using effectD(6) by blast

lemma effect_queue: "effect Q p I w w' \<Longrightarrow> (\<And>m. Q m \<Longrightarrow> R m) \<Longrightarrow> effect R p I w w'"
  by (simp add: effect_def) blast

lemma effect_live: "effect Q p I w w' \<Longrightarrow> live w' = live w"
  by (simp add: effect_def live_def)

text \<open>A consumer is replaced by one with the same identifiers; a publisher by one with the same identifier.\<close>

lemma effect_cons:
  assumes "i \<in> I" and "ids_of c = ids_of (w_cons w ! i)"
    and "\<And>m. m \<in> set (ch_queue (wc_messages c)) \<Longrightarrow> m \<in> set (queue_of w i) \<or> Q m"
  shows "effect Q p I w (w\<lparr>w_cons := (w_cons w)[i := c]\<rparr>)"
proof -
  have "ids_of ((w_cons w)[i := c] ! j) = ids_of (w_cons w ! j)" for j
    using assms(2) by (simp add: nth_update)
  moreover have "m \<in> set (queue_of w j) \<or> Q m"
    if "j < length (w_cons w)" "m \<in> set (queue_of (w\<lparr>w_cons := (w_cons w)[i := c]\<rparr>) j)" for j m
    using that assms(3) by (cases "j = i") (simp_all add: queue_of_def)
  ultimately show ?thesis using assms(1) by (auto simp: effect_def members_def nth_update)
qed

lemma set_pub_effect:
  assumes "set_pub p f w = Some w'" and id: "\<And>x. pub_id (f x) = pub_id x"
    and mem: "\<And>x. cd_consumer ` snd ` set (consumers_of (f x)) \<subseteq> cd_consumer ` snd ` set (consumers_of x) \<union> I"
  shows "effect Q p I w w'"
proof -
  have w': "p < length (w_pubs w)" "w' = w\<lparr>w_pubs := (w_pubs w)[p := f (w_pubs w ! p)]\<rparr>"
    using assms(1) by (auto simp: set_pub_def bind_Some_iff)
  have "members w' p \<subseteq> members w p \<union> I" using mem [of "w_pubs w ! p"] w' by (simp add: members_def image_image)
  then show ?thesis by (simp add: effect_def w' id queue_of_def nth_update)
qed

section \<open>Buffers\<close>

lemma h_acquire_effect [effects]: "h_acquire a n w = Some w' \<Longrightarrow> effect Q p I w w'"
  by (rule effect_same) (auto simp: h_acquire_def bind_Some_iff)

lemma h_release_effect [effects]: "h_release a w = Some w' \<Longrightarrow> effect Q p I w w'"
  by (rule effect_same) (auto simp: h_release_def bind_Some_iff Let_def split: if_splits)

lemma acquire_from_pool_effect [effects]: "acquire_from_pool pick pr w = Some (a, w') \<Longrightarrow> effect Q p I w w'"
  by (rule effect_same) (auto simp: acquire_from_pool_def pool_get_def pool_new_def alloc_buf_def h_acquire_def Let_def
      bind_Some_iff split: option.splits if_splits)

lemma acquire_buffer_effect [effects]: "acquire_buffer pick k p' w = Some (a, w') \<Longrightarrow> effect Q p I w w'"
  by (auto simp: acquire_buffer_def acquire_video_buffer_def acquire_audio_buffer_def bind_Some_iff
      split: pool_kind.splits intro: effects)

lemma fill_buffer_effect [effects]: "fill_buffer a bs w = Some w' \<Longrightarrow> effect Q p I w w'"
  by (rule effect_same) (auto simp: fill_buffer_def bind_Some_iff split: prod.splits)

lemma hold_buffer_effect [effects]: "hold_buffer a c w = Some (r, w') \<Longrightarrow> effect Q p I w w'"
  by (rule effect_same) (auto simp: hold_buffer_def bind_Some_iff alloc_buf_def h_acquire_def split: if_splits)

section \<open>One consumer\<close>

lemma try_send_queue:
  "try_send m ch = Some (ok, ch') \<Longrightarrow> x \<in> set (ch_queue ch') \<Longrightarrow> x \<in> set (ch_queue ch) \<or> x = m"
  by (auto simp: try_send_def split: if_splits)

lemma send_to_effect [effects]:
  "send_to i m w = Some (ok, w') \<Longrightarrow> i \<in> I \<Longrightarrow> Q m \<Longrightarrow> effect Q p I w w'"
  by (auto simp: send_to_def bind_Some_iff queue_of_def ids_of_def intro!: effect_cons dest: try_send_queue)

lemma stop_consumer_obj_frame:
  "stop_consumer_obj c = Some c' \<Longrightarrow> ids_of c' = ids_of c \<and> ch_queue (wc_messages c') = ch_queue (wc_messages c)"
  by (auto simp: stop_consumer_obj_def close_chan_def ids_of_def bind_Some_iff split: if_splits)

lemma consumer_stop_effect [effects]: "consumer_stop i w = Some w' \<Longrightarrow> i \<in> I \<Longrightarrow> effect Q p I w w'"
  by (auto simp: consumer_stop_def bind_Some_iff queue_of_def intro!: effect_cons dest: stop_consumer_obj_frame)

lemma close_conn_effect [effects]: "close_conn i w = Some w' \<Longrightarrow> i \<in> I \<Longrightarrow> effect Q p I w w'"
  by (auto simp: close_conn_def bind_Some_iff queue_of_def ids_of_def intro!: effect_cons)

lemma take_message_effect [effects]: "take_message i w = Some (x, w') \<Longrightarrow> i \<in> I \<Longrightarrow> effect Q p I w w'"
  by (auto simp: take_message_def bind_Some_iff queue_of_def ids_of_def recv_chan_def intro!: effect_cons
      split: prod.splits list.splits if_splits)

lemma flush_bufs_frame: "flush_bufs c = (e, c') \<Longrightarrow> ids_of c' = ids_of c \<and> wc_messages c' = wc_messages c"
  by (auto simp: flush_bufs_def ids_of_def split: option.splits prod.splits)

lemma write_body_frame:
  "write_body lib m data c = Some (e, c') \<Longrightarrow> ids_of c' = ids_of c \<and> wc_messages c' = wc_messages c"
  by (auto simp: write_body_def bind_Some_iff ids_of_def dest!: flush_bufs_frame split: if_splits option.splits prod.splits)

lemma write_message_effect [effects]:
  assumes "write_message lib m i w = Some (e, w')" and "i \<in> I"
  shows "effect Q p I w w'"
proof -
  from assms(1) obtain c where c: "write_body lib m (sb_bytes (h_bufs w ! m_data m)) (w_cons w ! i) = Some (e, c)"
    and w': "h_release (m_data m) (w\<lparr>w_cons := (w_cons w)[i := c]\<rparr>) = Some w'"
    by (auto simp: write_message_def bind_Some_iff)
  have "effect Q p I w (w\<lparr>w_cons := (w_cons w)[i := c]\<rparr>)"
    by (rule effect_cons) (use assms(2) write_body_frame [OF c] in \<open>simp_all add: queue_of_def\<close>)
  then show ?thesis by (rule effect_trans) (rule h_release_effect [OF w'])
qed

lemma read_messages_step_effect [effects]:
  assumes "read_messages_step lib i pc w = Some (Stepped pc' w')" and i: "i \<in> I"
  shows "effect Q p I w w'"
proof -
  obtain x w1 where t: "take_message i w = Some (x, w1)"
    using assms(1) by (cases pc) (auto simp: bind_Some_iff)
  then have "effect Q p I w w1" using i by (rule effects)
  moreover have "effect Q p I w1 w'"
    using assms(1) t i by (cases pc; cases x) (auto simp: bind_Some_iff intro: effects)
  ultimately show ?thesis by (rule effect_trans)
qed

section \<open>Publishers and their consumers\<close>

lemma delete_consumers: "set (AList.delete k xs) \<subseteq> set xs"
  by (auto simp: AList.delete_eq)

lemma update_consumers: "set (AList.update k d xs) \<subseteq> insert (k, d) (set xs)"
proof (induction xs)
  case (Cons x xs)
  then show ?case by (cases x) auto
qed simp

lemma update_members:
  assumes "cd_consumer d \<in> I"
  shows "cd_consumer ` snd ` set (AList.update k d xs) \<subseteq> cd_consumer ` snd ` set xs \<union> I"
proof
  fix i assume "i \<in> cd_consumer ` snd ` set (AList.update k d xs)"
  then obtain y where y: "y \<in> set (AList.update k d xs)" "i = cd_consumer (snd y)" by blast
  then have "y = (k, d) \<or> y \<in> set xs" using update_consumers [of k d xs] by blast
  then show "i \<in> cd_consumer ` snd ` set xs \<union> I" using y(2) assms by auto
qed

lemma stop_consumer_effect [effects]:
  assumes "stop_consumer p i w = Some w'" and i: "i \<in> I"
  shows "effect Q p I w w'"
proof -
  from assms(1) obtain w1 where w1: "set_pub p (drop_consumer (wc_id (w_cons w ! i))) w = Some w1" "consumer_stop i w1 = Some w'"
    by (auto simp: stop_consumer_def bind_Some_iff)
  have "cd_consumer ` snd ` set (consumers_of (drop_consumer k x)) \<subseteq> cd_consumer ` snd ` set (consumers_of x) \<union> I" for k x
    using delete_consumers [of k "consumers_of x"] by (auto simp: drop_consumer_def consumers_of_def Let_def split: if_splits option.splits)
  then have "effect Q p I w w1" by (intro set_pub_effect [OF w1(1)]) (simp_all add: drop_consumer_def Let_def)
  then show ?thesis using consumer_stop_effect [OF w1(2) i] by (rule effect_trans)
qed

lemma stop_consumers_effect [effects]:
  "stop_consumers p cs w = Some w' \<Longrightarrow> set cs \<subseteq> I \<Longrightarrow> effect Q p I w w'"
proof (induction cs arbitrary: w)
  case (Cons i cs)
  then obtain w1 where "stop_consumer p i w = Some w1" "stop_consumers p cs w1 = Some w'"
    by (auto simp: bind_Some_iff)
  with Cons.IH [of w1] Cons.prems(2) stop_consumer_effect [of p i w w1 I Q] effect_trans [of Q p I w w1 w']
  show ?case by simp
qed simp

lemma stop_each_effect [effects]:
  "stop_each cs cids w = Some w' \<Longrightarrow> cd_consumer ` snd ` set cs \<subseteq> I \<Longrightarrow> effect Q p I w w'"
proof (induction cids arbitrary: w)
  case (Cons cid cids)
  show ?case
  proof (cases "map_of cs cid")
    case None
    then show ?thesis using Cons by simp
  next
    case (Some d)
    then obtain w1 where w1: "consumer_stop (cd_consumer d) w = Some w1" "stop_each cs cids w1 = Some w'"
      using Cons.prems(1) by (auto simp: bind_Some_iff)
    have "cd_consumer d \<in> I" using map_of_SomeD [OF Some] Cons.prems(2) by force
    with w1 Cons.IH [of w1] Cons.prems(2) consumer_stop_effect [OF w1(1), of I Q p] effect_trans [of Q p I w w1 w']
    show ?thesis by simp
  qed
qed simp

lemma pub_stop_effect [effects]: "pub_stop perm p w = Some w' \<Longrightarrow> members w p \<subseteq> I \<Longrightarrow> effect Q p I w w'"
  by (auto simp: pub_stop_def bind_Some_iff members_def intro: stop_each_effect)

lemma send_message_stop_effect [effects]:
  assumes "send_message_stop p i m w = Some (ok, w')" and i: "i \<in> I" and m: "Q m"
  shows "effect Q p I w w'"
proof -
  from assms(1) obtain w1 ok' w2 where w1: "h_acquire (m_data m) 1 w = Some w1" "send_to i m w1 = Some (ok', w2)"
    and rest: "w' = w2 \<or> (\<exists>w3. h_release (m_data m) w2 = Some w3 \<and> stop_consumer p i w3 = Some w')"
    by (auto simp: send_message_stop_def bind_Some_iff split: if_splits)
  have "effect Q p I w w2"
    using effect_trans [OF h_acquire_effect [OF w1(1)]] send_to_effect [where Q = Q and I = I, OF w1(2) i] m by blast
  with rest show ?thesis
  proof (elim disjE exE conjE)
    fix w3
    assume "h_release (m_data m) w2 = Some w3" "stop_consumer p i w3 = Some w'"
    then have "effect Q p I w2 w3" "effect Q p I w3 w'" using i by (auto intro: h_release_effect stop_consumer_effect)
    with \<open>effect Q p I w w2\<close> show ?thesis by (metis effect_trans)
  qed simp
qed

lemma send_held_effect [effects]:
  assumes "send_held p i ty h w = Some (ok, w')" and "i \<in> I"
    and "\<And>n a. Q \<lparr>m_type = ty, m_flags = 0, m_timestamp = 0, m_length = n, m_data = a\<rparr>"
  shows "effect Q p I w w'"
  using assms by (auto simp: send_held_def bind_Some_iff intro: effects split: option.splits)

text \<open>Composition with a rest that may or may not run.\<close>

lemma effect_then: "effect Q p I u v \<Longrightarrow> (effect Q p I u v \<Longrightarrow> effect Q p I v w) \<Longrightarrow> effect Q p I u w"
  by (rule effect_trans) simp_all

lemma send_initial_data_effect [effects]:
  assumes run: "send_initial_data p i w = Some (e, w')" and i: "i \<in> I"
    and Q: "\<And>ty n a. ty \<in> {MesgMetaData, MesgVideoSeqHdr, MesgAudioSeqHdr} \<Longrightarrow>
      Q \<lparr>m_type = ty, m_flags = 0, m_timestamp = 0, m_length = n, m_data = a\<rparr>"
  shows "effect Q p I w w'"
proof -
  let ?pub = "w_pubs w ! p"
  have held: "effect Q p I u v"
    if "send_held p i ty h u = Some (ok, v)" "ty \<in> {MesgMetaData, MesgVideoSeqHdr, MesgAudioSeqHdr}" for ty h u ok v
    by (rule send_held_effect [where Q = Q, OF that(1) i Q [OF that(2)]])
  from run obtain ok1 w1 where w1: "send_held p i MesgMetaData (pub_meta ?pub) w = Some (ok1, w1)"
    and run1: "\<not> ok1 \<Longrightarrow> w' = w1"
    by (cases "send_held p i MesgMetaData (pub_meta ?pub) w") (auto simp: send_initial_data_def bind_Some_iff split: if_splits)
  have e1: "effect Q p I w w1" by (rule held [OF w1]) simp
  show ?thesis
  proof (cases ok1)
    case True
    with run w1 obtain ok2 w2 where w2: "send_held p i MesgVideoSeqHdr (pub_videoSeqHdr ?pub) w1 = Some (ok2, w2)"
      by (auto simp: send_initial_data_def bind_Some_iff)
    have e2: "effect Q p I w w2" by (rule effect_trans [OF e1 held [OF w2]]) simp
    show ?thesis
    proof (cases ok2)
      case ok2: True
      with True run w1 w2 obtain ok3 where "send_held p i MesgAudioSeqHdr (pub_audioSeqHdr ?pub) w2 = Some (ok3, w')"
        by (auto simp: send_initial_data_def bind_Some_iff split: if_splits)
      then have "effect Q p I w2 w'" by (rule held) simp
      with e2 show ?thesis by (rule effect_trans)
    next
      case False
      with True run w1 w2 have "w' = w2" by (auto simp: send_initial_data_def bind_Some_iff)
      with e2 show ?thesis by simp
    qed
  next
    case False
    with e1 run1 show ?thesis by simp
  qed
qed

lemma pub_add_consumer_effect [effects]:
  assumes run: "pub_add_consumer p i w = Some (e, w')" and i: "i \<in> I"
    and Q: "\<And>ty n a. ty \<in> {MesgMetaData, MesgVideoSeqHdr, MesgAudioSeqHdr} \<Longrightarrow>
      Q \<lparr>m_type = ty, m_flags = 0, m_timestamp = 0, m_length = n, m_data = a\<rparr>"
  shows "effect Q p I w w'"
proof -
  have ins: "effect Q p I u v" if "set_pub p (insert_consumer cid i) u = Some v" for cid u v
  proof (rule set_pub_effect [OF that])
    show "cd_consumer ` snd ` set (consumers_of (insert_consumer cid i x)) \<subseteq> cd_consumer ` snd ` set (consumers_of x) \<union> I" for x
      unfolding insert_consumer_def consumers_of_def [symmetric] Let_def by (simp add: update_members i)
  qed (simp add: insert_consumer_def Let_def)
  from run have "w' = w \<or> (\<exists>e' w1. send_initial_data p i w = Some (e', w1)
      \<and> (w' = w1 \<or> (\<exists>cid. set_pub p (insert_consumer cid i) w1 = Some w')))"
    by (auto simp: pub_add_consumer_def bind_Some_iff split: if_splits option.splits)
  then show ?thesis
  proof (elim disjE exE conjE)
    fix e' w1
    assume "send_initial_data p i w = Some (e', w1)" "w' = w1"
    then show ?thesis using send_initial_data_effect [where Q = Q, OF _ i Q] by simp
  next
    fix e' w1 cid
    assume "send_initial_data p i w = Some (e', w1)" "set_pub p (insert_consumer cid i) w1 = Some w'"
    then show ?thesis using effect_trans [OF send_initial_data_effect [where Q = Q, OF _ i Q] ins] by blast
  qed simp
qed

section \<open>Sending to everybody\<close>

lemma store_seq_header_effect [effects]: "store_seq_header p m w = Some w' \<Longrightarrow> effect Q p I w w'"
proof -
  assume run: "store_seq_header p m w = Some w'"
  have "effect Q p I w w'"
    if "hold_buffer (m_data m) True w = Some (a, w1)" "set_pub p f w1 = Some w'"
      "\<And>x. pub_id (f x) = pub_id x \<and> consumers_of (f x) = consumers_of x" for a w1 f
    by (rule effect_trans [OF hold_buffer_effect [OF that(1)] set_pub_effect [OF that(2)]]) (use that(3) in auto)
  then show ?thesis using run by (fastforce simp: store_seq_header_def bind_Some_iff consumers_of_def split: if_splits)
qed

lemma fan_out_effect [effects]:
  assumes "fan_out p m cids removed w = Some (r, w')" and "members w p \<subseteq> I" and "Q m" and "set removed \<subseteq> I"
  shows "effect Q p I w w'" and "set r \<subseteq> I"
proof -
  have "effect Q p I w w' \<and> set r \<subseteq> I"
    using assms
  proof (induction cids arbitrary: removed w)
    case (Cons cid cids)
    note step = effect_trans [of Q p I w _ w']
    have cons: "effect Q p I w w' \<and> set r \<subseteq> I"
      if "effect Q p I w v" "fan_out p m cids rem v = Some (r, w')" "set rem \<subseteq> I" for v rem
      using Cons.IH [OF that(2) effect_members [OF that(1) Cons.prems(2)] Cons.prems(3) that(3)] step [OF that(1)] by simp
    show ?case
    proof (cases "map_of (cons_map w p) cid")
      case None
      then show ?thesis using Cons.prems cons [of w removed] by (auto simp: bind_Some_iff)
    next
      case (Some d)
      then have d: "cd_consumer d \<in> I" using Cons.prems(2) map_of_SomeD [OF Some] by (force simp: members_def)
      show ?thesis
      proof (cases "skips m d")
        case True
        with Some Cons.prems obtain v where v: "h_release (m_data m) w = Some v" "fan_out p m cids removed v = Some (r, w')"
          by (auto simp: bind_Some_iff)
        show ?thesis by (rule cons [OF h_release_effect [OF v(1)] v(2) Cons.prems(4)])
      next
        case False
        with Some Cons.prems obtain ok v where v: "send_to (cd_consumer d) m w = Some (ok, v)"
          by (auto simp: bind_Some_iff)
        have sent: "effect Q p I w v" using send_to_effect [where Q = Q, OF v d Cons.prems(3)] .
        show ?thesis
        proof (cases ok)
          case True
          with v Some False Cons.prems obtain u where u: "set_pub p (mark_sent cid m d) v = Some u"
            "fan_out p m cids removed u = Some (r, w')" by (auto simp: bind_Some_iff)
          have "cd_consumer ` snd ` set (consumers_of (mark_sent cid m d x)) \<subseteq> cd_consumer ` snd ` set (consumers_of x) \<union> I" for x
            using d by (simp add: mark_sent_def update_members)
          then have "effect Q p I v u" by (intro set_pub_effect [OF u(1)]) (simp_all add: mark_sent_def)
          from cons [OF effect_trans [OF sent this] u(2) Cons.prems(4)] show ?thesis .
        next
          case F: False
          with v Some False Cons.prems have "fan_out p m cids (removed @ [cd_consumer d]) v = Some (r, w')"
            by (auto simp: bind_Some_iff)
          from cons [OF sent this] show ?thesis using d Cons.prems(4) by simp
        qed
      qed
    qed
  qed simp
  then show "effect Q p I w w'" "set r \<subseteq> I" by simp_all
qed

lemma send_message_effect [effects]:
  assumes "send_message perm p m w = Some w'" and I: "members w p \<subseteq> I" and m: "Q m"
  shows "effect Q p I w w'"
proof -
  from assms(1) obtain w1 w2 r w3 where w1: "store_seq_header p m w = Some w1"
    and w2: "h_acquire (m_data m) (length (cons_map w1 p)) w1 = Some w2"
    and w3: "fan_out p m (perm (keys (cons_map w1 p))) [] w2 = Some (r, w3)" and w4: "stop_consumers p r w3 = Some w'"
    by (auto simp: send_message_def bind_Some_iff)
  have e2: "effect Q p I w w2"
    by (rule effect_trans [OF store_seq_header_effect [OF w1] h_acquire_effect [OF w2]])
  note f = fan_out_effect [where Q = Q, OF w3 effect_members [OF e2 I] m]
  show ?thesis
    by (rule effect_trans [OF effect_trans [OF e2 f(1)] stop_consumers_effect [OF w4 f(2)]]) simp_all
qed

lemma send_meta_data_effect [effects]:
  assumes run: "send_meta_data perm p md w = Some (e, w')" and I: "members w p \<subseteq> I"
    and Q: "\<And>n a. Q \<lparr>m_type = MesgMetaData, m_flags = 0, m_timestamp = 0, m_length = n, m_data = a\<rparr>"
  shows "effect Q p I w w'"
proof -
  have "w' = w \<or> (\<exists>b a w1 w2 n. hold_buffer (fst (alloc_buf b w)) False (snd (alloc_buf b w)) = Some (a, w1)
      \<and> set_pub p (\<lambda>pub. pub\<lparr>pub_meta := Some a\<rparr>) w1 = Some w2
      \<and> send_message perm p \<lparr>m_type = MesgMetaData, m_flags = 0, m_timestamp = 0, m_length = n, m_data = a\<rparr> w2 = Some w')"
  proof (cases "meta_encode md (replicate metaDataEncodedSize 0)")
    case (Some enc)
    then show ?thesis using run by (cases enc) (auto simp: send_meta_data_def bind_Some_iff alloc_buf_def)
  qed (use run in \<open>simp add: send_meta_data_def\<close>)
  then show ?thesis
  proof (elim disjE exE conjE)
    fix b a w1 w2 n
    assume r: "hold_buffer (fst (alloc_buf b w)) False (snd (alloc_buf b w)) = Some (a, w1)"
      "set_pub p (\<lambda>pub. pub\<lparr>pub_meta := Some a\<rparr>) w1 = Some w2"
      "send_message perm p \<lparr>m_type = MesgMetaData, m_flags = 0, m_timestamp = 0, m_length = n, m_data = a\<rparr> w2 = Some w'"
    have "effect Q p I w (snd (alloc_buf b w))" by (rule effect_same) (simp_all add: alloc_buf_def)
    from effect_trans [OF this hold_buffer_effect [OF r(1)]] have "effect Q p I w w1" .
    moreover have "effect Q p I w1 w2" by (rule set_pub_effect [OF r(2)]) (simp_all add: consumers_of_def)
    ultimately have e: "effect Q p I w w2" by (rule effect_trans)
    show ?thesis by (rule effect_trans [OF e send_message_effect [where Q = Q, OF r(3) effect_members [OF e I] Q]])
  qed simp
qed

section \<open>The table\<close>

lemma mc_add_consumer_effect:
  assumes "mc_add_consumer i w = Some (e, w')" and "i \<in> I"
    and Q: "\<And>ty n a. ty \<in> {MesgMetaData, MesgVideoSeqHdr, MesgAudioSeqHdr} \<Longrightarrow>
      Q \<lparr>m_type = ty, m_flags = 0, m_timestamp = 0, m_length = n, m_data = a\<rparr>"
  shows "w' = w \<or> (\<exists>p. get_publisher (wc_pubID (w_cons w ! i)) w = Some p \<and> effect Q p I w w')"
proof (cases "get_publisher (wc_pubID (w_cons w ! i)) w")
  case None
  then show ?thesis using assms(1) by (simp add: mc_add_consumer_def bind_Some_iff)
next
  case (Some p)
  then have "pub_add_consumer p i w = Some (e, w')" using assms(1) by (simp add: mc_add_consumer_def bind_Some_iff)
  from pub_add_consumer_effect [where Q = Q, OF this assms(2) Q] Some show ?thesis by simp
qed

lemma mc_remove_consumer_effect:
  assumes "mc_remove_consumer i w = Some w'" and "i \<in> I"
  shows "w' = w \<or> (\<exists>p. get_publisher (wc_pubID (w_cons w ! i)) w = Some p \<and> effect Q p I w w')"
  using assms by (auto simp: mc_remove_consumer_def pub_remove_consumer_def bind_Some_iff intro: stop_consumer_effect
      split: option.splits)

text \<open>Removing a publisher changes the table and what its consumers see.\<close>

lemma remove_publisher_effect:
  assumes "remove_publisher perm p w = Some w'" and "members w p \<subseteq> I"
  shows "effect Q p I (w\<lparr>w_chan := AList.delete (pub_id (w_pubs w ! p)) (w_chan w)\<rparr>) w'"
proof -
  let ?w = "w\<lparr>w_chan := AList.delete (pub_id (w_pubs w ! p)) (w_chan w)\<rparr>"
  have "pub_stop perm p ?w = Some w'" using assms(1) by (auto simp: remove_publisher_def bind_Some_iff)
  moreover have "members ?w p = members w p" by (simp add: members_def)
  ultimately show ?thesis using assms(2) by (auto intro: pub_stop_effect)
qed

text \<open>An operation of the machine keeps the consumers; \<open>Connect\<close> adds one.\<close>

lemma effect_length: "effect Q p UNIV w w' \<Longrightarrow> length (w_cons w) = length (w_cons w')"
  by (simp add: effectD(3))

lemma mc_add_consumer_cons: "mc_add_consumer i w = Some (e, w') \<Longrightarrow> length (w_cons w') = length (w_cons w)"
  using mc_add_consumer_effect [where Q = "\<lambda>_. True" and I = UNIV] effectD(3) by fastforce

lemma mc_remove_consumer_cons: "mc_remove_consumer i w = Some w' \<Longrightarrow> length (w_cons w') = length (w_cons w)"
  using mc_remove_consumer_effect [where Q = "\<lambda>_. True" and I = UNIV] effectD(3) by fastforce

lemma close_conn_cons: "close_conn i w = Some w' \<Longrightarrow> length (w_cons w') = length (w_cons w)"
  using effectD(3) [OF close_conn_effect [where I = UNIV]] by simp

lemma exec_cons_mono:
  assumes "exec lib op s = Some s'"
  shows "length (w_cons (ms_world s)) \<le> length (w_cons (ms_world s'))"
proof (cases op)
  case (Create x)
  then show ?thesis using assms by (auto simp: exec_def new_publisher_def Let_def)
next
  case (Store p)
  then show ?thesis using assms by (auto simp: exec_def store_publisher_def bind_Some_iff Let_def)
next
  case (Read i)
  then obtain r where "read_messages_step lib i (ms_pc s i) (ms_world s) = Some r"
    using assms by (auto simp: exec_def bind_Some_iff)
  then show ?thesis using assms Read effect_length [OF read_messages_step_effect]
    by (cases r) (fastforce simp: exec_def)+
next
  case (Unpublish perm p)
  then obtain w' where "remove_publisher perm p (ms_world s) = Some w'" "s' = s\<lparr>ms_world := w'\<rparr>"
    using assms by (auto simp: exec_def bind_Some_iff)
  then show ?thesis using effectD(3) [OF remove_publisher_effect [where I = UNIV]] by simp
next
  case (Take pick k p)
  then show ?thesis using assms effect_length [OF acquire_buffer_effect] by (fastforce simp: exec_def bind_Some_iff)
next
  case (Fill a bs)
  then show ?thesis using assms effect_length [OF fill_buffer_effect] by (fastforce simp: exec_def bind_Some_iff)
next
  case (Drop a)
  then show ?thesis using assms effect_length [OF h_release_effect] by (fastforce simp: exec_def bind_Some_iff)
next
  case (Send perm p m)
  then show ?thesis using assms effect_length [OF send_message_effect [where Q = "\<lambda>_. True"]]
    by (fastforce simp: exec_def bind_Some_iff)
next
  case (Describe perm p md)
  then show ?thesis using assms effect_length [OF send_meta_data_effect [where Q = "\<lambda>_. True"]]
    by (fastforce simp: exec_def bind_Some_iff)
next
  case (Join i)
  then show ?thesis using assms by (auto simp: exec_def bind_Some_iff dest: mc_add_consumer_cons)
next
  case (Leave i)
  then show ?thesis using assms by (auto simp: exec_def bind_Some_iff dest: mc_remove_consumer_cons)
next
  case (Connect cid pid k)
  then show ?thesis using assms by (auto simp: exec_def add_cons_obj_def Let_def)
qed

end
