(* ===== verification/RtmpFrame.thy ===== *)
theory RtmpFrame
  imports RtmpSession WorldFrame
begin

text \<open>
  What the handlers of an RTMP session can change: the session's own publisher and the consumers it has,
  and every message they queue is well-typed.
\<close>

section \<open>Types of messages\<close>

text \<open>
  The messages that exist: only frames carry a timestamp, only frames are cut into fragments, and only
  video has key frames.
\<close>

definition well_typed :: "message \<Rightarrow> bool" where
  "well_typed m \<longleftrightarrow>
     (if m_type m = MesgVideo
      then m_flags m \<in> {0, FlagKeyFrame, FlagContinuation, FlagKeyFrame OR FlagContinuation}
      else if m_type m = MesgAudio then m_flags m \<in> {0, FlagContinuation}
      else m_type m \<in> {MesgMetaData, MesgVideoSeqHdr, MesgAudioSeqHdr} \<and> m_flags m = 0 \<and> m_timestamp m = 0)"

lemma held_typed:
  "ty \<in> {MesgMetaData, MesgVideoSeqHdr, MesgAudioSeqHdr} \<Longrightarrow>
     well_typed \<lparr>m_type = ty, m_flags = 0, m_timestamp = 0, m_length = n, m_data = a\<rparr>"
  by (auto simp: well_typed_def mesg_types)

lemma video_typed:
  "well_typed \<lparr>m_type = MesgVideo, m_flags = (if key then FlagKeyFrame else 0) OR (if c then FlagContinuation else 0),
     m_timestamp = ts, m_length = n, m_data = a\<rparr>"
  by (simp add: well_typed_def)

lemma audio_typed:
  "well_typed \<lparr>m_type = MesgAudio, m_flags = (if c then FlagContinuation else 0), m_timestamp = ts, m_length = n, m_data = a\<rparr>"
  by (simp add: well_typed_def mesg_types)

section \<open>The handlers\<close>

abbreviation handler_effect :: "publisher_ref \<Rightarrow> consumer_ref set \<Rightarrow> media_world \<Rightarrow> media_world \<Rightarrow> bool" where
  "handler_effect \<equiv> effect well_typed"

lemmas acquired_effect = acquire_buffer_effect [of _ VideoPool, unfolded acquire_buffer_def, simplified]
  acquire_buffer_effect [of _ AudioPool, unfolded acquire_buffer_def, simplified]

lemma set_buf_effect: "effect Q p I w (set_buf a b w)"
  by (rule effect_same) (simp_all add: set_buf_def)

lemma sent_effect:
  assumes "effect Q p I u v" and "members u p \<subseteq> I" and "send_message perm p m v = Some w" and "Q m"
    and "h_release a w = Some w'"
  shows "effect Q p I u w'"
proof -
  have "effect Q p I v w"
    by (rule send_message_effect [where Q = Q, OF assms(3) effect_members [OF assms(1,2)] assms(4)])
  from effect_trans [OF effect_trans [OF assms(1) this] h_release_effect [OF assms(5)]] show ?thesis .
qed

lemma send_seq_header_effect:
  assumes run: "send_seq_header rt ty r n s w = Some (e, r', w')" and p: "rs_pub s = Some p"
    and I: "members w p \<subseteq> I" and ty: "ty \<in> {MesgVideoSeqHdr, MesgAudioSeqHdr}"
  shows "handler_effect p I w w'"
proof -
  from run p obtain a w1 where acq: "acquire_audio_buffer (rt_pick rt) p w = Some (a, w1)"
    by (auto simp: send_seq_header_def bind_Some_iff)
  obtain k err b r1 where rd: "sb_read_n r (unat n) (h_bufs w1 ! a) = (k, err, b, r1)" by (metis prod_cases4)
  have e1: "handler_effect p I w (set_buf a b w1)"
    by (rule effect_trans [OF acquired_effect(2) [OF acq] set_buf_effect])
  from run p acq rd have "h_release a (set_buf a b w1) = Some w'
    \<or> (\<exists>w2 len. send_message (rt_perm rt) p \<lparr>m_type = ty, m_flags = 0, m_timestamp = 0, m_length = len, m_data = a\<rparr>
          (set_buf a b w1) = Some w2 \<and> h_release a w2 = Some w')"
    by (auto simp: send_seq_header_def bind_Some_iff Let_def split: option.splits if_splits)
  then show ?thesis
  proof (elim disjE exE conjE)
    fix w2 len
    assume "send_message (rt_perm rt) p \<lparr>m_type = ty, m_flags = 0, m_timestamp = 0, m_length = len, m_data = a\<rparr>
          (set_buf a b w1) = Some w2" "h_release a w2 = Some w'"
    with sent_effect [OF e1 I _ held_typed] ty show ?thesis by blast
  qed (rule effect_trans [OF e1 h_release_effect])
qed

definition loop_effect :: "publisher_ref \<Rightarrow> media_world \<Rightarrow> rtmp_err option \<times> reader \<times> media_world \<Rightarrow> bool" where
  "loop_effect p w res \<longleftrightarrow> (\<forall>I. members w p \<subseteq> I \<longrightarrow> handler_effect p I w (snd (snd res)))"

text \<open>One round of either loop: a buffer at hand or acquired, filled, and sent with the rest to follow, or given back.\<close>

lemma loop_effect_round:
  assumes e: "\<And>I. handler_effect p I w w1"
    and rest: "h_release a (set_buf a b w1) = Some w' \<or>
      (\<exists>w2 w3. send_message perm p m (set_buf a b w1) = Some w2 \<and> h_release a w2 = Some w3 \<and> loop_effect p w3 (x, y, w'))"
    and m: "well_typed m"
  shows "loop_effect p w (x, y, w')"
  unfolding loop_effect_def
proof (intro allI impI)
  fix I assume I: "members w p \<subseteq> I"
  have e1: "handler_effect p I w (set_buf a b w1)" by (rule effect_trans [OF e set_buf_effect])
  from rest show "handler_effect p I w (snd (snd (x, y, w')))"
  proof (elim disjE exE conjE)
    fix w2 w3
    assume s: "send_message perm p m (set_buf a b w1) = Some w2" "h_release a w2 = Some w3" and l: "loop_effect p w3 (x, y, w')"
    from sent_effect [OF e1 I s(1) m s(2)] have e3: "handler_effect p I w w3" .
    moreover have "handler_effect p I w3 w'" using l effect_members [OF e3 I] by (simp add: loop_effect_def)
    ultimately show ?thesis by (simp add: effect_trans)
  next
    assume "h_release a (set_buf a b w1) = Some w'"
    then show ?thesis using effect_trans [OF e1 h_release_effect] by simp
  qed
qed

lemma video_loop_effect: "video_loop rts p ts len ty k sb first n r w = Some res \<Longrightarrow> loop_effect p w res"
proof (erule video_loop.raw_induct [where P = "\<lambda>rts p ts len ty k sb first n r w res. loop_effect p w res", rotated], goal_cases)
  case (1 loop rts p ts len ty k sb first n r w res)
  show ?case
  proof (cases "0 < n")
    case True
    with 1(2) obtain a w1 where acq: "(case sb of None \<Rightarrow> acquire_video_buffer (rt_pick (rts k)) p w | Some a \<Rightarrow> Some (a, w)) = Some (a, w1)"
      by (auto simp: bind_Some_iff)
    obtain j err b r1 where rd: "sb_read_n r n (h_bufs w1 ! a) = (j, err, b, r1)" by (metis prod_cases4)
    obtain x y w' where res: "res = (x, y, w')" by (metis prod_cases3)
    have e: "handler_effect p I w w1" for I using acq by (cases sb) (auto intro: acquired_effect)
    let ?m = "\<lparr>m_type = MesgVideo, m_flags = (if ty = naluTypeIDR then FlagKeyFrame else 0) OR (if \<not> first then FlagContinuation else 0),
      m_timestamp = ts, m_length = of_nat naluHdrSize + len, m_data = a\<rparr>"
    show ?thesis unfolding res
    proof (rule loop_effect_round [where a = a and b = b, OF e _ video_typed])
      show "h_release a (set_buf a b w1) = Some w' \<or> (\<exists>w2 w3. send_message (rt_perm (rts k)) p ?m (set_buf a b w1) = Some w2
          \<and> h_release a w2 = Some w3 \<and> loop_effect p w3 (x, y, w'))"
        using 1(2) True acq rd res
        by (cases err) (auto simp: bind_Some_iff Let_def dest!: 1(1))
    qed
  next
    case False
    with 1(2) show ?thesis by (auto simp: loop_effect_def)
  qed
qed

lemma audio_loop_effect: "audio_loop rts p ts len k first n r w = Some res \<Longrightarrow> loop_effect p w res"
proof (erule audio_loop.raw_induct [where P = "\<lambda>rts p ts len k first n r w res. loop_effect p w res", rotated], goal_cases)
  case (1 loop rts p ts len k first n r w res)
  show ?case
  proof (cases "0 < n")
    case True
    with 1(2) obtain a w1 where acq: "acquire_audio_buffer (rt_pick (rts k)) p w = Some (a, w1)"
      by (auto simp: bind_Some_iff)
    obtain j err b r1 where rd: "sb_read_n r (unat n) (h_bufs w1 ! a) = (j, err, b, r1)" by (metis prod_cases4)
    obtain x y w' where res: "res = (x, y, w')" by (metis prod_cases3)
    let ?m = "\<lparr>m_type = MesgAudio, m_flags = (if \<not> first then FlagContinuation else 0),
      m_timestamp = ts, m_length = len - of_nat AudioTagHeaderSize, m_data = a\<rparr>"
    show ?thesis unfolding res
    proof (rule loop_effect_round [where a = a and b = b, OF acquired_effect(2) [OF acq] _ audio_typed])
      show "h_release a (set_buf a b w1) = Some w' \<or> (\<exists>w2 w3. send_message (rt_perm (rts k)) p ?m (set_buf a b w1) = Some w2
          \<and> h_release a w2 = Some w3 \<and> loop_effect p w3 (x, y, w'))"
        using 1(2) True acq rd res
        by (cases err) (auto simp: bind_Some_iff Let_def dest!: 1(1))
    qed
  next
    case False
    with 1(2) show ?thesis by (auto simp: loop_effect_def)
  qed
qed

section \<open>Video\<close>

lemma send_video_data_effect:
  assumes run: "send_video_data rts ts r s w = Some (d, r', s', w')" and p: "rs_pub s = Some p" and I: "members w p \<subseteq> I"
  shows "handler_effect p I w w'" and "rs_pub s' = rs_pub s" and "rs_userID s' = rs_userID s"
proof -
  obtain c err r1 where rd: "read_full naluHdrSize [] r = (c, err, r1)" by (metis prod_cases3)
  let ?hdr = "blit 0 c (rs_naluHdr s)" and ?ty = "blit 0 c (rs_naluHdr s) ! 4 AND 0b00011111"
  obtain x y where dn: "discard_nalu (of_be_u32 ?hdr - 1) 0 r1 = (x, y)" by fastforce
  have "handler_effect p I w w' \<and> s' = s\<lparr>rs_naluHdr := ?hdr\<rparr>"
  proof (cases "err = None \<and> (?ty = naluTypeNonIDR \<or> ?ty = naluTypeIDR)")
    case False
    with run rd dn show ?thesis
      by (cases err; cases x) (auto simp: send_video_data_def Let_def split: if_splits)
  next
    case True
    with run rd p obtain a w1 where acq: "acquire_video_buffer (rt_pick (rts 0)) p w = Some (a, w1)"
      by (auto simp: send_video_data_def Let_def bind_Some_iff)
    obtain n werr b where wr: "sb_write ?hdr (h_bufs w1 ! a) = (n, werr, b)" by (metis prod_cases3)
    have e1: "handler_effect p I w (set_buf a b w1)"
      by (rule effect_trans [OF acquired_effect(1) [OF acq] set_buf_effect])
    from run rd p acq wr True have "s' = s\<lparr>rs_naluHdr := ?hdr\<rparr> \<and> (h_release a (set_buf a b w1) = Some w'
        \<or> (\<exists>naluLen ty n e r2. video_loop rts p ts naluLen ty 0 (Some a) True n r1 (set_buf a b w1) = Some (e, r2, w')))"
      by (cases werr) (auto simp: send_video_data_def Let_def bind_Some_iff)
    then show ?thesis
    proof (elim disjE exE conjE)
      fix naluLen ty n e r2
      assume l: "video_loop rts p ts naluLen ty 0 (Some a) True n r1 (set_buf a b w1) = Some (e, r2, w')"
      have "handler_effect p I (set_buf a b w1) w'"
        using video_loop_effect [OF l] effect_members [OF e1 I] by (simp add: loop_effect_def)
      then show "s' = s\<lparr>rs_naluHdr := ?hdr\<rparr> \<Longrightarrow> ?thesis" using effect_trans [OF e1] by simp
    next
      assume "h_release a (set_buf a b w1) = Some w'"
      then show "s' = s\<lparr>rs_naluHdr := ?hdr\<rparr> \<Longrightarrow> ?thesis" using effect_trans [OF e1 h_release_effect] by simp
    qed
  qed
  then show "handler_effect p I w w'" "rs_pub s' = rs_pub s" "rs_userID s' = rs_userID s" by simp_all
qed

lemma video_nalus_effect:
  "video_nalus rtss j ts r s w = Some (e, r', s', w') \<Longrightarrow> rs_pub s = Some p \<Longrightarrow> members w p \<subseteq> I \<Longrightarrow>
     handler_effect p I w w' \<and> rs_pub s' = rs_pub s \<and> rs_userID s' = rs_userID s"
proof -
  let ?P = "\<lambda>rtss j ts r s w res. case res of (e, r', s', w') \<Rightarrow> rs_pub s = Some p \<longrightarrow> members w p \<subseteq> I \<longrightarrow>
     handler_effect p I w w' \<and> rs_pub s' = rs_pub s \<and> rs_userID s' = rs_userID s"
  have "?P rtss j ts r s w res" if "video_nalus rtss j ts r s w = Some res" for res
    using that
  proof (rule video_nalus.raw_induct [where P = ?P, rotated], goal_cases)
    case (1 loop rtss j ts r s w res)
    then obtain d err r1 s1 w1 where one: "send_video_data (rtss j) ts r s w = Some ((d, err), r1, s1, w1)"
      by (auto simp: bind_Some_iff)
    obtain e r' s' w' where res: "res = (e, r', s', w')" by (metis prod_cases4)
    show ?case unfolding res prod.case
    proof (intro impI)
      assume p: "rs_pub s = Some p" and I: "members w p \<subseteq> I"
      note v = send_video_data_effect [OF one p I]
      show "handler_effect p I w w' \<and> rs_pub s' = rs_pub s \<and> rs_userID s' = rs_userID s"
      proof (cases "err = None \<and> \<not> d")
        case True
        with 1(2) one res have "loop rtss (Suc j) ts r1 s1 w1 = Some (e, r', s', w')" by simp
        from 1(1) [OF this] v p effect_members [OF v(1) I] effect_trans [OF v(1)] show ?thesis by auto
      next
        case False
        with 1(2) one res v show ?thesis by (cases err) auto
      qed
    qed
  qed
  then show "video_nalus rtss j ts r s w = Some (e, r', s', w') \<Longrightarrow> rs_pub s = Some p \<Longrightarrow> members w p \<subseteq> I \<Longrightarrow>
     handler_effect p I w w' \<and> rs_pub s' = rs_pub s \<and> rs_userID s' = rs_userID s" by fastforce
qed

section \<open>A message of the connection\<close>

lemma on_video_message_effect:
  assumes run: "on_video_message rtss m s w = Some (e, s', w')" and p: "rs_pub s = Some p" and I: "members w p \<subseteq> I"
  shows "handler_effect p I w w' \<and> rs_pub s' = rs_pub s \<and> rs_userID s' = rs_userID s"
proof -
  obtain err hdr r where hd: "video_tag_read (new_tag_header VideoTagHeaderSize) (av_data m) = (err, hdr, r)"
    by (metis prod_cases3)
  have "w' = w \<and> s' = s
    \<or> (\<exists>r'. send_seq_header (rtss 0 0) MesgVideoSeqHdr r (av_length m - of_nat VideoTagHeaderSize) s w = Some (e, r', w') \<and> s' = s)
    \<or> (\<exists>r'. video_nalus rtss 0 (av_timestamp m) r s w = Some (e, r', s', w'))"
    using run unfolding on_video_message_def hd prod.case
    by (cases err) (simp_all add: bind_Some_iff split: if_split_asm prod.split_asm, blast?)
  then show ?thesis
  proof (elim disjE exE conjE)
    fix r'
    assume "send_seq_header (rtss 0 0) MesgVideoSeqHdr r (av_length m - of_nat VideoTagHeaderSize) s w = Some (e, r', w')" "s' = s"
    then show ?thesis using send_seq_header_effect [OF _ p I] by simp
  next
    fix r'
    assume "video_nalus rtss 0 (av_timestamp m) r s w = Some (e, r', s', w')"
    then show ?thesis by (rule video_nalus_effect [OF _ p I])
  qed simp
qed

lemma on_audio_message_effect:
  assumes run: "on_audio_message rts m s w = Some (e, s', w')" and p: "rs_pub s = Some p" and I: "members w p \<subseteq> I"
  shows "handler_effect p I w w' \<and> s' = s"
proof -
  obtain err hdr r where hd: "audio_tag_read (new_tag_header AudioTagHeaderSize) (av_data m) = (err, hdr, r)"
    by (metis prod_cases3)
  have "s' = s \<and> (w' = w
    \<or> (\<exists>r'. send_seq_header (rts 0) MesgAudioSeqHdr r (av_length m - of_nat AudioTagHeaderSize) s w = Some (e, r', w'))
    \<or> (\<exists>r'. send_audio_data rts m r s w = Some (e, r', w')))"
    using run unfolding on_audio_message_def hd prod.case
    by (cases err) (auto simp add: bind_Some_iff split: if_split_asm)
  then show ?thesis
  proof (elim disjE exE conjE)
    fix r'
    assume "send_seq_header (rts 0) MesgAudioSeqHdr r (av_length m - of_nat AudioTagHeaderSize) s w = Some (e, r', w')" "s' = s"
    then show ?thesis using send_seq_header_effect [OF _ p I] by simp
  next
    fix r'
    assume r: "send_audio_data rts m r s w = Some (e, r', w')" "s' = s"
    then have "w' = w \<or> (\<exists>n. audio_loop rts p (av_timestamp m) (av_length m) 0 True n r w = Some (e, r', w'))"
      using p by (auto simp: send_audio_data_def bind_Some_iff Let_def split: if_splits)
    with r(2) I show ?thesis by (auto simp: loop_effect_def dest!: audio_loop_effect)
  qed simp
qed

lemma handle_input_effect:
  assumes run: "handle_input rtss i s w = Some (c, s', w')" and p: "rs_pub s = Some p" and I: "members w p \<subseteq> I"
  shows "handler_effect p I w w'" and "rs_pub s' = rs_pub s" and "rs_userID s' = rs_userID s"
proof -
  have "handler_effect p I w w' \<and> rs_pub s' = rs_pub s \<and> rs_userID s' = rs_userID s"
  proof (cases i)
    case (VideoMessage m)
    with run obtain e where "on_video_message rtss m s w = Some (e, s', w')" by (auto simp: handle_input_def bind_Some_iff)
    then show ?thesis by (rule on_video_message_effect [OF _ p I])
  next
    case (AudioMessage m)
    with run obtain e where "on_audio_message (rtss 0) m s w = Some (e, s', w')" by (auto simp: handle_input_def bind_Some_iff)
    with on_audio_message_effect [OF this p I] show ?thesis by simp
  next
    case (MetaDataMessage m)
    with run p obtain e md where "send_meta_data (rt_perm (rtss 0 0)) p md w = Some (e, w')" "s' = s"
      by (auto simp: handle_input_def on_meta_data_message_def bind_Some_iff)
    then show ?thesis using send_meta_data_effect [where Q = well_typed, OF _ I held_typed] by simp
  qed (use run in \<open>simp_all add: handle_input_def\<close>)
  then show "handler_effect p I w w'" "rs_pub s' = rs_pub s" "rs_userID s' = rs_userID s" by simp_all
qed

end
