(* ===== verification/ViewerSession.thy ===== *)
theory ViewerSession
  imports MediaSystem StreamService
begin

text \<open>
  \<open>transport/ws_media/ws.go\<close> and the method \<open>run\<close> of \<open>consumer.go\<close>: a viewer's HTTP request
  becomes a consumer of the requested publisher, is counted as a viewer, and stays until reading from
  its connection fails. A session is a state machine, because the reading goroutine, the publisher
  and the other sessions run between its calls. The whole server is the media pipeline, the stream
  service, the bus and the open sessions. What the WebSocket upgrade, the UUID library and a read
  from the connection give are arguments.
\<close>

section \<open>The requested publisher\<close>

datatype url_err = ErrNoPublisherInfoInURL | ErrParseUserID

definition get_publisher_id :: "string \<Rightarrow> url_err + string \<times> u64" where
  "get_publisher_id url =
     (let strs = split_at CHR ''/'' url
      in if length strs \<noteq> 4 then Inl ErrNoPublisherInfoInURL
         else let i = strs ! 3
              in case parse_uint i of
                   None \<Rightarrow> Inl ErrParseUserID
                 | Some userID \<Rightarrow> Inr (i, userID))"

section \<open>Sessions\<close>

datatype session_pc = Joining | Counting | Watching | Uncounting | Leaving | Closing | Returned

record viewer_session =
  vs_consumer :: consumer_ref
  vs_user :: u64
  vs_addr :: string
  vs_pc :: session_pc

text \<open>
  \<open>ServeHTTP\<close> up to the call of \<open>run\<close>, which starts the reading goroutine: no session is opened when
  the upgrade, the path or the new UUID is bad.
\<close>

definition serve_http ::
    "ws_lib \<Rightarrow> conn option \<Rightarrow> string \<Rightarrow> string option \<Rightarrow> string \<Rightarrow> media_sys \<Rightarrow>
       (viewer_session option \<times> media_sys) option" where
  "serve_http lib upgraded path uuid remoteAddr s =
     (case upgraded of
        None \<Rightarrow> Some (None, s)
      | Some k \<Rightarrow>
          (case get_publisher_id path of
             Inl e \<Rightarrow> Some (None, s)
           | Inr (pubID, userID) \<Rightarrow>
               (case uuid of
                  None \<Rightarrow> Some (None, s)
                | Some cid \<Rightarrow> do {
                    s' \<leftarrow> exec lib (Connect cid pubID k) s;
                    Some (Some \<lparr>vs_consumer = length (w_cons (ms_world s)), vs_user = userID,
                      vs_addr = remoteAddr, vs_pc = Joining\<rparr>, s')
                  })))"

text \<open>
  \<open>run\<close>, a call at a time. A consumer that is not accepted is not stopped. The deferred calls run in
  reverse order; the last step is the deferred \<open>Close\<close> of \<open>ServeHTTP\<close>. The flag says whether
  reading from the connection failed.
\<close>

fun session_step ::
    "('p \<Rightarrow> event \<Rightarrow> 'b \<Rightarrow> 'b option) \<Rightarrow> 'p \<Rightarrow> bool \<Rightarrow> consumer_ref \<Rightarrow> u64 \<Rightarrow> string \<Rightarrow> session_pc \<Rightarrow>
       media_world \<times> stream_service \<times> 'b \<Rightarrow> (session_pc \<times> media_world \<times> stream_service \<times> 'b) option" where
  "session_step publish p failed i u ip Joining (w, ss, b) = do {
     (e, w) \<leftarrow> mc_add_consumer i w;
     Some (if e = None then Counting else Closing, w, ss, b)
   }"
| "session_step publish p failed i u ip Counting (w, ss, b) = do {
     (ss, b) \<leftarrow> add_viewer publish p u ip ss b;
     Some (Watching, w, ss, b)
   }"
| "session_step publish p failed i u ip Watching (w, ss, b) =
     Some (if failed then Uncounting else Watching, w, ss, b)"
| "session_step publish p failed i u ip Uncounting (w, ss, b) = do {
     (ss, b) \<leftarrow> remove_viewer publish p u ip ss b;
     Some (Leaving, w, ss, b)
   }"
| "session_step publish p failed i u ip Leaving (w, ss, b) = do {
     w \<leftarrow> mc_remove_consumer i w;
     Some (Closing, w, ss, b)
   }"
| "session_step publish p failed i u ip Closing (w, ss, b) = do {
     w \<leftarrow> close_conn i w;
     Some (Returned, w, ss, b)
   }"
| "session_step publish p failed i u ip Returned (w, ss, b) = Some (Returned, w, ss, b)"

section \<open>The server\<close>

record server =
  sv_media :: media_sys
  sv_viewers :: stream_service
  sv_bus :: event_bus
  sv_sessions :: "viewer_session list"

datatype server_op =
  Serve "conn option" string "string option" string
| Advance "string \<Rightarrow> nat list \<Rightarrow> nat list" bool nat
| MediaOp media_op
| BusOp bus_op
| Start "string \<Rightarrow> nat list \<Rightarrow> nat list" u64

definition init_server :: server where
  "init_server = \<lparr>sv_media = init_sys, sv_viewers = new_stream, sv_bus = new_bus, sv_sessions = []\<rparr>"

fun server_exec :: "ws_lib \<Rightarrow> server_op \<Rightarrow> server \<Rightarrow> server option" where
  "server_exec lib (Serve upgraded path uuid addr) s = do {
     (v, m) \<leftarrow> serve_http lib upgraded path uuid addr (sv_media s);
     Some (s\<lparr>sv_media := m, sv_sessions := sv_sessions s @ (case v of None \<Rightarrow> [] | Some v \<Rightarrow> [v])\<rparr>)
   }"
| "server_exec lib (Advance perm failed k) s = do {
     v \<leftarrow> deref (sv_sessions s) k;
     (pc, w, ss, b) \<leftarrow> session_step bus_publish perm failed (vs_consumer v) (vs_user v) (vs_addr v) (vs_pc v)
       (ms_world (sv_media s), sv_viewers s, sv_bus s);
     Some (s\<lparr>sv_media := (sv_media s)\<lparr>ms_world := w\<rparr>, sv_viewers := ss, sv_bus := b,
       sv_sessions := (sv_sessions s)[k := v\<lparr>vs_pc := pc\<rparr>]\<rparr>)
   }"
| "server_exec lib (MediaOp op) s = do {
     m \<leftarrow> exec lib op (sv_media s);
     Some (s\<lparr>sv_media := m\<rparr>)
   }"
| "server_exec lib (BusOp op) s = do {
     b \<leftarrow> bus_exec op (sv_bus s);
     Some (s\<lparr>sv_bus := b\<rparr>)
   }"
| "server_exec lib (Start perm u) s = do {
     b \<leftarrow> start_stream bus_publish perm u (sv_bus s);
     Some (s\<lparr>sv_bus := b\<rparr>)
   }"

text \<open>What the callers guarantee.\<close>

fun server_allowed :: "server_op \<Rightarrow> server \<Rightarrow> bool" where
  "server_allowed (Serve upgraded path uuid addr) s = True"
| "server_allowed (Advance perm failed k) s = ((\<forall>sec. permutes_keys (perm sec)) \<and> k < length (sv_sessions s)
     \<and> (vs_pc (sv_sessions s ! k) = Joining \<longrightarrow> allowed (Join (vs_consumer (sv_sessions s ! k))) (sv_media s)))"
| "server_allowed (MediaOp op) s = allowed op (sv_media s)"
| "server_allowed (BusOp op) s = bus_allowed op (sv_bus s)"
| "server_allowed (Start perm u) s = (\<forall>sec. permutes_keys (perm sec))"

section \<open>The invariant\<close>

text \<open>A session is counted between its call of \<open>AddViewer\<close> and its call of \<open>RemoveViewer\<close>.\<close>

definition counted :: "viewer_session \<Rightarrow> (u64 \<times> string) multiset" where
  "counted v = (if vs_pc v \<in> {Watching, Uncounting} then {#(vs_user v, vs_addr v)#} else {#})"

definition counted_sessions :: "viewer_session list \<Rightarrow> (u64 \<times> string) multiset" where
  "counted_sessions vs = \<Sum>\<^sub># (mset (map counted vs))"

lemma counted_sessions_simps [simp]: "counted_sessions [] = {#}"
  "counted_sessions (v # vs) = counted v + counted_sessions vs"
  "counted_sessions (vs @ us) = counted_sessions vs + counted_sessions us"
  by (simp_all add: counted_sessions_def)

lemma counted_sessions_update:
  "k < length vs \<Longrightarrow> counted_sessions (vs[k := v]) + counted (vs ! k) = counted_sessions vs + counted v"
proof (induction vs arbitrary: k)
  case (Cons u vs)
  then show ?case by (cases k) (auto simp: union_ac)
qed simp

lemma counted_nth:
  assumes "k < length vs"
  obtains N where "counted_sessions vs = N + counted (vs ! k)"
proof
  have "counted_sessions vs = counted_sessions (take k vs @ vs ! k # drop (Suc k) vs)"
    using id_take_nth_drop [OF assms] by simp
  then show "counted_sessions vs = (counted_sessions (take k vs) + counted_sessions (drop (Suc k) vs)) + counted (vs ! k)"
    by (simp add: union_ac)
qed

definition server_ok :: "server \<Rightarrow> bool" where
  "server_ok s \<longleftrightarrow> sys_ok (sv_media s) \<and> bus_ok (sv_bus s)
     \<and> represents (sv_viewers s) (counted_sessions (sv_sessions s))
     \<and> (\<forall>v \<in> set (sv_sessions s). vs_consumer v < length (w_cons (ms_world (sv_media s))))"

end
