(* ===== verification/ViewerServer.thy ===== *)
theory ViewerServer
  imports ViewerSession WorldFrame
begin

text \<open>
  The server of viewers keeps its invariant: the media pipeline and the bus stay well-formed and the
  stream service counts exactly the sessions that are between \<open>AddViewer\<close> and \<open>RemoveViewer\<close>,
  however the steps of the sessions, the publishers and the other users of the bus interleave.
\<close>

lemma server_okD:
  assumes "server_ok s"
  shows "media_ok (ms_held (sv_media s)) (ms_world (sv_media s))" and "bus_ok (sv_bus s)"
    and "represents (sv_viewers s) (counted_sessions (sv_sessions s))"
    and "k < length (sv_sessions s) \<Longrightarrow> vs_consumer (sv_sessions s ! k) < length (w_cons (ms_world (sv_media s)))"
  using assms by (simp_all add: server_ok_def sys_ok_def)

lemma init_server_ok: "server_ok init_server"
  using empty_world_ok new_bus_ok new_stream_represents
  by (simp add: server_ok_def init_server_def sys_ok_def init_sys_def)

text \<open>Any change that keeps the parts well-formed and the number of consumers.\<close>

lemma server_okI:
  assumes "sys_ok m" and "bus_ok b" and "represents ss (counted_sessions vs)"
    and "\<And>k. k < length vs \<Longrightarrow> vs_consumer (vs ! k) < length (w_cons (ms_world m))"
  shows "server_ok \<lparr>sv_media = m, sv_viewers = ss, sv_bus = b, sv_sessions = vs\<rparr>"
  using assms by (auto simp: server_ok_def in_set_conv_nth)

lemma close_conn_media:
  assumes ok: "media_ok H w" and i: "i < length (w_cons w)"
  shows "\<exists>w'. close_conn i w = Some w' \<and> media_ok H w' \<and> closed_of w' = closed_of w \<and> queue_of w' = queue_of w"
proof -
  let ?c = "w_cons w ! i"
  let ?w = "w\<lparr>w_cons := (w_cons w)[i := ?c\<lparr>wc_conn := (wc_conn ?c)\<lparr>cn_closed := True\<rparr>\<rparr>]\<rparr>"
  note M = media_okD(1) [OF ok]
  note L = live_okD [OF M]
  have same: "wc_messages (w_cons ?w ! j) = wc_messages (w_cons w ! j)" "wc_stopped (w_cons ?w ! j) = wc_stopped (w_cons w ! j)"
    "wc_id (w_cons ?w ! j) = wc_id (w_cons w ! j)" "wc_pubID (w_cons ?w ! j) = wc_pubID (w_cons w ! j)" for j
    using i by (cases "j = i"; simp)+
  have cl: "closed_of ?w = closed_of w" "queue_of ?w = queue_of w"
    unfolding closed_of_def queue_of_def fun_eq_iff same(1) by simp_all
  have mem: "members ?w p = members w p" for p by (simp add: members_def)
  have "heap_ok H ?w" by (rule heap_ok_same_queue [OF L(1) i]) simp
  moreover have "consumers_ok ?w"
    using L(2) i by (auto simp: consumers_ok_def cons_ok_def list_all_length nth_list_update)
  moreover have "pub_ok ?w p" if "p \<in> live w" for p
    by (rule pub_ok_frame [OF L(3) [OF that]]) (use cl(1) same(3) in \<open>simp_all\<close>)
  ultimately have "live_ok H (live w) ?w" using L(4) unfolding live_ok_def mem by blast
  then have "media_ok H ?w" by (rule media_ok_frame(1) [OF ok]) (use same(4) mem in simp_all)
  then show ?thesis using i cl by (intro exI [of _ ?w]) (simp add: close_conn_def)
qed

section \<open>A step of a session\<close>

definition counted_at :: "session_pc \<Rightarrow> u64 \<Rightarrow> string \<Rightarrow> (u64 \<times> string) multiset" where
  "counted_at pc u ip = (if pc \<in> {Watching, Uncounting} then {#(u, ip)#} else {#})"

lemma counted_at: "counted v = counted_at (vs_pc v) (vs_user v) (vs_addr v)"
  by (simp add: counted_def counted_at_def)

lemma session_step_ok:
  assumes ok: "media_ok H w" and b: "bus_ok b" and ss: "represents ss (N + counted_at pc u ip)"
    and i: "i < length (w_cons w)" and perm: "\<forall>sec. permutes_keys (perm sec)"
    and join: "pc = Joining \<Longrightarrow> waiting i w \<and> (\<forall>p \<in> live w. room_for w p)"
  shows "\<exists>pc' w' ss' b'. session_step bus_publish perm failed i u ip pc (w, ss, b) = Some (pc', w', ss', b')
    \<and> media_ok H w' \<and> bus_ok b' \<and> represents ss' (N + counted_at pc' u ip)
    \<and> length (w_cons w') = length (w_cons w)"
proof (cases pc)
  case Joining
  obtain e w' where "mc_add_consumer i w = Some (e, w')" "media_ok H w'"
    using join_ok [OF ok] join [OF Joining] by blast
  with Joining ss b show ?thesis by (auto simp: counted_at_def dest: mc_add_consumer_cons)
next
  case Counting
  obtain ss' b' where "viewer_exec bus_publish (perm, AddViewer u ip) (ss, b) = Some (ss', b')" "bus_ok b'"
    "represents ss' (open_connections [AddViewer u ip] (N + counted_at pc u ip))"
    using bus_sink.viewer_exec_ok [OF ss b perm] by blast
  with Counting ok show ?thesis by (simp add: counted_at_def)
next
  case Watching
  with ok b ss show ?thesis by (simp add: counted_at_def)
next
  case Uncounting
  obtain ss' b' where "viewer_exec bus_publish (perm, RemoveViewer u ip) (ss, b) = Some (ss', b')" "bus_ok b'"
    "represents ss' (open_connections [RemoveViewer u ip] (N + counted_at pc u ip))"
    using bus_sink.viewer_exec_ok [OF ss b perm] by blast
  with Uncounting ok show ?thesis by (simp add: counted_at_def)
next
  case Leaving
  obtain w' where "mc_remove_consumer i w = Some w'" "media_ok H w'" "length (w_cons w') = length (w_cons w)"
    using mc_remove_consumer_ok [OF ok i] by blast
  with Leaving b ss show ?thesis by (simp add: counted_at_def)
next
  case Closing
  obtain w' where "close_conn i w = Some w'" "media_ok H w'" using close_conn_media [OF ok i] by blast
  with Closing b ss show ?thesis by (auto simp: counted_at_def dest: close_conn_cons)
next
  case Returned
  with ok b ss show ?thesis by (simp add: counted_at_def)
qed

section \<open>The machine\<close>

lemma serve_http_ok:
  assumes "sys_ok m"
  shows "\<exists>v m'. serve_http lib upgraded path uuid addr m = Some (v, m') \<and> sys_ok m'
    \<and> length (w_cons (ms_world m)) \<le> length (w_cons (ms_world m'))
    \<and> (\<forall>x. v = Some x \<longrightarrow> vs_consumer x < length (w_cons (ms_world m')) \<and> vs_pc x = Joining)"
proof -
  have ex: "\<exists>m'. exec lib (Connect cid pid k) m = Some m' \<and> sys_ok m'
      \<and> length (w_cons (ms_world m')) = Suc (length (w_cons (ms_world m)))" for cid pid k
    using exec_ok [OF assms, of "Connect cid pid k" lib] by (auto simp: exec_def add_cons_obj_def Let_def)
  show ?thesis
  proof (cases "upgraded = None \<or> (\<exists>e. get_publisher_id path = Inl e) \<or> uuid = None")
    case True
    then show ?thesis using assms by (auto simp: serve_http_def split: option.splits sum.splits)
  next
    case False
    then obtain k i u cid where f: "upgraded = Some k" "get_publisher_id path = Inr (i, u)" "uuid = Some cid"
      by (cases "get_publisher_id path") auto
    obtain m' where "exec lib (Connect cid i k) m = Some m'" "sys_ok m'"
      "length (w_cons (ms_world m')) = Suc (length (w_cons (ms_world m)))" using ex by blast
    then show ?thesis by (simp add: serve_http_def f)
  qed
qed

lemma server_exec_ok:
  assumes ok: "server_ok s" and al: "server_allowed op s"
  shows "\<exists>s'. server_exec lib op s = Some s' \<and> server_ok s'"
proof (cases op)
  case (Serve upgraded path uuid addr)
  obtain v m' where v: "serve_http lib upgraded path uuid addr (sv_media s) = Some (v, m')" "sys_ok m'"
    "length (w_cons (ms_world (sv_media s))) \<le> length (w_cons (ms_world m'))"
    "\<forall>x. v = Some x \<longrightarrow> vs_consumer x < length (w_cons (ms_world m')) \<and> vs_pc x = Joining"
    using serve_http_ok ok by (meson server_ok_def)
  have "server_ok (s\<lparr>sv_media := m', sv_sessions := sv_sessions s @ (case v of None \<Rightarrow> [] | Some v \<Rightarrow> [v])\<rparr>)"
    using ok v(2-4) by (fastforce simp: server_ok_def counted_def split: option.splits)
  with v(1) Serve show ?thesis by simp
next
  case (Advance perm failed k)
  let ?v = "sv_sessions s ! k" and ?w = "ms_world (sv_media s)"
  have k: "k < length (sv_sessions s)" and perm: "\<forall>sec. permutes_keys (perm sec)"
    and join: "vs_pc ?v = Joining \<Longrightarrow> waiting (vs_consumer ?v) ?w \<and> (\<forall>p \<in> live ?w. room_for ?w p)"
    using al Advance by simp_all
  note D = server_okD [OF ok]
  obtain N where split: "counted_sessions (sv_sessions s) = N + counted ?v" by (rule counted_nth [OF k])
  have ss: "represents (sv_viewers s) (N + counted_at (vs_pc ?v) (vs_user ?v) (vs_addr ?v))"
    using D(3) split by (simp add: counted_at)
  obtain pc' w' ss' b' where st: "session_step bus_publish perm failed (vs_consumer ?v) (vs_user ?v) (vs_addr ?v)
      (vs_pc ?v) (?w, sv_viewers s, sv_bus s) = Some (pc', w', ss', b')" "media_ok (ms_held (sv_media s)) w'"
    "bus_ok b'" "represents ss' (N + counted_at pc' (vs_user ?v) (vs_addr ?v))" "length (w_cons w') = length (w_cons ?w)"
    using session_step_ok [OF D(1,2) ss D(4) [OF k] perm join] by blast
  let ?vs = "(sv_sessions s)[k := ?v\<lparr>vs_pc := pc'\<rparr>]"
  have "counted_sessions ?vs + counted ?v = counted_sessions (sv_sessions s) + counted (?v\<lparr>vs_pc := pc'\<rparr>)"
    by (rule counted_sessions_update [OF k])
  then have "counted_sessions ?vs = N + counted_at pc' (vs_user ?v) (vs_addr ?v)"
    by (simp add: split counted_at union_ac)
  moreover have "\<forall>v \<in> set ?vs. vs_consumer v < length (w_cons w')"
    using D(4) k st(5) by (auto simp: in_set_conv_nth nth_list_update)
  ultimately have "server_ok (s\<lparr>sv_media := (sv_media s)\<lparr>ms_world := w'\<rparr>, sv_viewers := ss', sv_bus := b',
      sv_sessions := ?vs\<rparr>)"
    using st(2-4) by (simp add: server_ok_def sys_ok_def)
  with st(1) k Advance show ?thesis by simp
next
  case (MediaOp mop)
  then obtain m' where "exec lib mop (sv_media s) = Some m'" "sys_ok m'"
    using exec_ok ok al by (fastforce simp: server_ok_def)
  moreover from exec_cons_mono [OF this(1)] ok have "\<forall>v \<in> set (sv_sessions s). vs_consumer v < length (w_cons (ms_world m'))"
    by (fastforce simp: server_ok_def)
  ultimately show ?thesis using ok MediaOp by (simp add: server_ok_def)
next
  case (BusOp bop)
  then obtain b' where "bus_exec bop (sv_bus s) = Some b'" "bus_ok b'"
    using bus_exec_ok ok al by (fastforce simp: server_ok_def)
  then show ?thesis using ok BusOp by (simp add: server_ok_def)
next
  case (Start perm u)
  then obtain b' where "start_stream bus_publish perm u (sv_bus s) = Some b'" "bus_ok b'"
    using bus_sink.publish_ok [of "sv_bus s" perm] ok al by (fastforce simp: server_ok_def start_stream_def)
  then show ?thesis using ok Start by (simp add: server_ok_def)
qed

interpretation server: panic_free "\<lambda>s. s = init_server" server_allowed "server_exec lib" server_ok for lib
proof (unfold_locales, goal_cases)
  case (1 s)
  then show ?case using init_server_ok by simp
next
  case (2 s op)
  then show ?case by (rule server_exec_ok)
qed

lemma count_counted_sessions:
  "count (counted_sessions vs) (u, ip)
     = length (filter (\<lambda>v. vs_pc v \<in> {Watching, Uncounting} \<and> vs_user v = u \<and> vs_addr v = ip) vs)"
  by (induction vs) (auto simp: counted_def)

section \<open>Where viewers look for publishers\<close>

lemma slash_plain: "CHR ''/'' \<notin> set (format_uint u)"
  by (rule format_uint_plain) simp

lemma get_publisher_id_streams: "get_publisher_id (''/ws/streams/'' @ format_uint u) = Inr (format_uint u, u)"
  using split_at_plain [OF slash_plain, of u] by (simp add: get_publisher_id_def Let_def)

lemma get_publisher_id_sound:
  assumes "get_publisher_id url = Inr (i, u)"
  shows "\<exists>a b c. url = join_with CHR ''/'' [a, b, c, i] \<and> parse_uint i = Some u"
proof -
  from assms have l: "length (split_at CHR ''/'' url) = 4" and p: "parse_uint (split_at CHR ''/'' url ! 3) = Some u"
    and i: "split_at CHR ''/'' url ! 3 = i"
    by (auto simp: get_publisher_id_def Let_def split: if_splits option.splits)
  obtain a b c d where s: "split_at CHR ''/'' url = [a, b, c, d]" using l by (auto simp: length_Suc_conv numeral_eq_Suc)
  then have "url = join_with CHR ''/'' [a, b, c, d]" using join_split by metis
  with s p i show ?thesis by auto
qed

end
