(* ===== verification/Backend.thy ===== *)
theory Backend
  imports RtmpFrame ViewerServer GoErrors
begin

text \<open>
  The streaming side of the program as one machine: the publishing connections of \<open>transport/rtmp\<close> and the
  server of viewers share the media channel and the bus. A connection is a state machine too, since other
  connections, viewers and reading goroutines run between its calls of the media channel, of the stream
  service and of its own handlers, and between the two critical sections of \<open>AddPublisher\<close>, its check and
  its store. Looking up a stream key is an argument.
\<close>

section \<open>Publishing connections\<close>

datatype conn_pc = Accepted | Checked | Added | OnAir | Ending | Done

record rtmp_conn =
  rc_session :: rtmp_session
  rc_pc :: conn_pc

text \<open>\<open>AcceptStream\<close>, which calls \<open>onConnect\<close>.\<close>

definition accept_conn ::
    "(string \<Rightarrow> 'e + u64) \<Rightarrow> string option \<Rightarrow> bool \<Rightarrow> media_world \<Rightarrow> rtmp_conn option \<times> media_world" where
  "accept_conn get_by_key connect accepted w =
     (case connect of
        None \<Rightarrow> (None, w)
      | Some appName \<Rightarrow>
          (case on_connect get_by_key appName new_session w of (e, s, w) \<Rightarrow>
             if e \<noteq> None \<or> \<not> accepted then (None, w)
             else (Some \<lparr>rc_session = s, rc_pc = Accepted\<rparr>, w)))"

text \<open>
  \<open>onConn\<close> after \<open>AcceptStream\<close>, a call at a time, and \<open>AddPublisher\<close> a critical section at a time:
  \<open>Accepted\<close> looks the identifier up, \<open>Checked\<close> stores the publisher. \<open>i\<close> is what
  \<open>ReadStreamMessage\<close> returns.
\<close>

definition conn_step ::
    "('p \<Rightarrow> event \<Rightarrow> 'b \<Rightarrow> 'b option) \<Rightarrow> 'p \<Rightarrow> (string list \<Rightarrow> string list) \<Rightarrow> (nat \<Rightarrow> nat \<Rightarrow> runtime) \<Rightarrow> rtmp_input \<Rightarrow>
       rtmp_conn \<Rightarrow> media_world \<Rightarrow> 'b \<Rightarrow> (rtmp_conn \<times> media_world \<times> 'b) option" where
  "conn_step publish pp perm rtss i c w b =
     (let s = rc_session c in
      case rc_pc c of
        Accepted \<Rightarrow> do {
          p \<leftarrow> rs_pub s;
          pub \<leftarrow> deref (w_pubs w) p;
          Some (c\<lparr>rc_pc := if get_publisher (pub_id pub) w = None then Checked else Done\<rparr>, w, b)
        }
      | Checked \<Rightarrow> do {
          p \<leftarrow> rs_pub s;
          w \<leftarrow> store_publisher p w;
          Some (c\<lparr>rc_pc := Added\<rparr>, w, b)
        }
      | Added \<Rightarrow> do {
          b \<leftarrow> start_stream publish pp (rs_userID s) b;
          Some (c\<lparr>rc_pc := OnAir\<rparr>, w, b)
        }
      | OnAir \<Rightarrow> do {
          (goes_on, s, w) \<leftarrow> handle_input rtss i s w;
          Some (\<lparr>rc_session = s, rc_pc = if goes_on then OnAir else Ending\<rparr>, w, b)
        }
      | Ending \<Rightarrow> do {
          p \<leftarrow> rs_pub s;
          w \<leftarrow> remove_publisher perm p w;
          Some (c\<lparr>rc_pc := Done\<rparr>, w, b)
        }
      | Done \<Rightarrow> Some (c, w, b))"

section \<open>The machine\<close>

record backend =
  bk_server :: server
  bk_conns :: "rtmp_conn list"

abbreviation bk_world :: "backend \<Rightarrow> media_world" where
  "bk_world s \<equiv> ms_world (sv_media (bk_server s))"

definition on_world :: "media_world \<Rightarrow> event_bus \<Rightarrow> server \<Rightarrow> server" where
  "on_world w b s = s\<lparr>sv_media := (sv_media s)\<lparr>ms_world := w\<rparr>, sv_bus := b\<rparr>"

datatype backend_op =
  Viewer server_op
| Accept "string \<Rightarrow> go_error + u64" "string option" bool
| Conn nat "string \<Rightarrow> nat list \<Rightarrow> nat list" "string list \<Rightarrow> string list" "nat \<Rightarrow> nat \<Rightarrow> runtime" rtmp_input

definition init_backend :: backend where
  "init_backend = \<lparr>bk_server = init_server, bk_conns = []\<rparr>"

fun backend_exec :: "ws_lib \<Rightarrow> backend_op \<Rightarrow> backend \<Rightarrow> backend option" where
  "backend_exec lib (Viewer op) s = do {
     v \<leftarrow> server_exec lib op (bk_server s);
     Some (s\<lparr>bk_server := v\<rparr>)
   }"
| "backend_exec lib (Accept get_by_key connect accepted) s =
     (case accept_conn get_by_key connect accepted (bk_world s) of (c, w) \<Rightarrow>
        Some (s\<lparr>bk_server := on_world w (sv_bus (bk_server s)) (bk_server s),
          bk_conns := bk_conns s @ (case c of None \<Rightarrow> [] | Some c \<Rightarrow> [c])\<rparr>))"
| "backend_exec lib (Conn k pp perm rtss i) s = do {
     c \<leftarrow> deref (bk_conns s) k;
     (c, w, b) \<leftarrow> conn_step bus_publish pp perm rtss i c (bk_world s) (sv_bus (bk_server s));
     Some (s\<lparr>bk_server := on_world w b (bk_server s), bk_conns := (bk_conns s)[k := c]\<rparr>)
   }"

text \<open>
  What the runtime and the sizes guarantee: iteration orders are permutations, and fewer than \<open>2^31\<close>
  references to one buffer exist. Everything else follows from the program.
\<close>

definition conn_pub :: "rtmp_conn \<Rightarrow> publisher_ref" where
  "conn_pub c = the (rs_pub (rc_session c))"

fun viewer_allowed :: "server_op \<Rightarrow> server \<Rightarrow> bool" where
  "viewer_allowed (Serve upgraded path uuid addr) s = True"
| "viewer_allowed (Advance perm failed k) s = ((\<forall>sec. permutes_keys (perm sec)) \<and> k < length (sv_sessions s)
     \<and> (\<forall>p \<in> live (ms_world (sv_media s)). room_for (ms_world (sv_media s)) p))"
| "viewer_allowed (MediaOp (Read i)) s = (i < length (w_cons (ms_world (sv_media s))))"
| "viewer_allowed (MediaOp op) s = False"
| "viewer_allowed (BusOp op) s = bus_allowed op (sv_bus s)"
| "viewer_allowed (Start perm u) s = False"

fun backend_allowed :: "backend_op \<Rightarrow> backend \<Rightarrow> bool" where
  "backend_allowed (Viewer op) s = viewer_allowed op (bk_server s)"
| "backend_allowed (Accept get_by_key connect accepted) s = True"
| "backend_allowed (Conn k pp perm rtss i) s = (k < length (bk_conns s) \<and> (\<forall>sec. permutes_keys (pp sec))
     \<and> permutes_keys perm \<and> (\<forall>j. fair (rtss j))
     \<and> Suc (length (cons_map (bk_world s) (conn_pub (bk_conns s ! k)))) < ref_limit)"

text \<open>
  The store of \<open>AddPublisher\<close> that overwrites the publisher of another connection: since the check of this
  one, the other has stored under the same identifier. What follows holds of runs without it; theory
  \<open>ProgramRaces\<close> shows a run with it, which ends in a panic.
\<close>

fun overwrites :: "backend_op \<Rightarrow> backend \<Rightarrow> bool" where
  "overwrites (Conn k pp perm rtss i) s = (k < length (bk_conns s) \<and> rc_pc (bk_conns s ! k) = Checked
     \<and> get_publisher (pub_id (w_pubs (bk_world s) ! conn_pub (bk_conns s ! k))) (bk_world s) \<noteq> None)"
| "overwrites _ s = False"

section \<open>The invariant\<close>

definition on_air :: "rtmp_conn \<Rightarrow> bool" where
  "on_air c \<longleftrightarrow> rc_pc c \<in> {Added, OnAir, Ending}"

definition conn_ok :: "media_world \<Rightarrow> rtmp_conn \<Rightarrow> bool" where
  "conn_ok w c \<longleftrightarrow> publishing (conn_pub c) (rc_session c) \<and> conn_pub c < length (w_pubs w)
     \<and> pub_id (w_pubs w ! conn_pub c) = format_uint (rs_userID (rc_session c))
     \<and> (rc_pc c \<in> {Accepted, Checked} \<longrightarrow> unpublished (conn_pub c) w)"

text \<open>The publishers in the table are the ones of the connections on air.\<close>

definition conns_ok :: "media_world \<Rightarrow> rtmp_conn list \<Rightarrow> bool" where
  "conns_ok w cs \<longleftrightarrow> (\<forall>c \<in> set cs. conn_ok w c) \<and> distinct (map conn_pub cs)
     \<and> live w = conn_pub ` {c \<in> set cs. on_air c}"

text \<open>Every session has a consumer of its own, made for its user; one that has not joined yet is untouched.\<close>

definition view_ok :: "media_world \<Rightarrow> viewer_session \<Rightarrow> bool" where
  "view_ok w v \<longleftrightarrow> parse_uint (wc_pubID (w_cons w ! vs_consumer v)) = Some (vs_user v)
     \<and> (vs_pc v = Joining \<longrightarrow> waiting (vs_consumer v) w)"

definition views_ok :: "media_world \<Rightarrow> viewer_session list \<Rightarrow> bool" where
  "views_ok w vs \<longleftrightarrow> distinct (map vs_consumer vs) \<and> (\<forall>v \<in> set vs. view_ok w v)"

definition queues_typed :: "media_world \<Rightarrow> bool" where
  "queues_typed w \<longleftrightarrow> (\<forall>i < length (w_cons w). \<forall>m \<in> set (queue_of w i). well_typed m)"

definition backend_ok :: "backend \<Rightarrow> bool" where
  "backend_ok s \<longleftrightarrow> server_ok (bk_server s) \<and> ms_held (sv_media (bk_server s)) = {#}
     \<and> conns_ok (bk_world s) (bk_conns s) \<and> views_ok (bk_world s) (sv_sessions (bk_server s))
     \<and> queues_typed (bk_world s)"

end
