(* ===== verification/WsMainOk.thy ===== *)
theory WsMainOk
  imports WsMain
begin

text \<open>
  The WebSocket transport keeps its two maps inverse to each other and its bus subscriber subscribed
  to exactly the topics some connection wants. The lemmas are proved against the interface
  \<open>topic_source\<close>, which the subscribers of the event bus implement.
\<close>

section \<open>The interface\<close>

locale topic_source =
  fixes sub :: "string \<Rightarrow> 'b \<Rightarrow> 'b option"
    and unsub :: "string \<Rightarrow> 'b \<Rightarrow> 'b option"
    and topics :: "'b \<Rightarrow> string set"
    and ok :: "'b \<Rightarrow> bool"
  assumes sub_ok: "ok b \<Longrightarrow> \<exists>b'. sub topic b = Some b' \<and> ok b' \<and> topics b' = insert topic (topics b)"
    and unsub_ok: "ok b \<Longrightarrow> \<exists>b'. unsub topic b = Some b' \<and> ok b' \<and> topics b' = topics b - {topic}"

definition sub_topics :: "nat \<Rightarrow> event_bus \<Rightarrow> string set" where
  "sub_topics s b = set (es_topics (eb_subs b ! s))"

interpretation bus_topics: topic_source "sub_subscribe s" "sub_unsubscribe s" "sub_topics s"
    "\<lambda>b. bus_ok b \<and> sub_open b s" for s
proof (unfold_locales, goal_cases)
  case (1 b topic)
  then show ?case using sub_subscribe_ok [of b s topic] by (fastforce simp: sub_open_def sub_topics_def)
next
  case (2 b topic)
  then show ?case using sub_unsubscribe_ok [of b s topic] by (fastforce simp: sub_open_def sub_topics_def)
qed

section \<open>The invariant\<close>

text \<open>Empty maps are removed, and the subscriber listens to the topics that are left.\<close>

definition tidy :: "string set \<Rightarrow> ws_main \<Rightarrow> bool" where
  "tidy T t \<longleftrightarrow> T = dom (wm_topicConns t) \<and> (\<forall>x \<in> T. conns_at t x \<noteq> [])"

text \<open>Every topic has a map of its own, and a map that no topic has is empty.\<close>

definition maps_ok :: "ws_main \<Rightarrow> bool" where
  "maps_ok t \<longleftrightarrow> (\<forall>topic r. wm_topicConns t topic = Some r \<longrightarrow> r < length (wm_maps t))
     \<and> (\<forall>x y r. wm_topicConns t x = Some r \<longrightarrow> wm_topicConns t y = Some r \<longrightarrow> x = y)
     \<and> (\<forall>r < length (wm_maps t). wm_maps t ! r \<noteq> [] \<longrightarrow> (\<exists>topic. wm_topicConns t topic = Some r))"

lemma maps_okD:
  assumes "maps_ok t"
  shows "wm_topicConns t topic = Some r \<Longrightarrow> r < length (wm_maps t)"
    and "wm_topicConns t x = Some r \<Longrightarrow> wm_topicConns t y = Some r \<Longrightarrow> x = y"
    and "r < length (wm_maps t) \<Longrightarrow> wm_maps t ! r \<noteq> [] \<Longrightarrow> \<exists>topic. wm_topicConns t topic = Some r"
  using assms unfolding maps_ok_def by blast+

definition ws_ok :: "ws_main \<Rightarrow> bool" where
  "ws_ok t \<longleftrightarrow> maps_ok t
     \<and> (\<forall>topic conn. conn \<in> set (conns_at t topic) \<longleftrightarrow> topic \<in> set (topics_at t conn))
     \<and> (\<forall>topic. \<forall>conn \<in> set (conns_at t topic). conn < length (wm_conns t) \<and> \<not> mc_closed (wm_conns t ! conn))
     \<and> (\<forall>topic. distinct (conns_at t topic)) \<and> (\<forall>conn. distinct (topics_at t conn))"

lemma ws_okD:
  assumes "ws_ok t"
  shows "conn \<in> set (conns_at t topic) \<longleftrightarrow> topic \<in> set (topics_at t conn)"
    and "conn \<in> set (conns_at t topic) \<Longrightarrow> conn < length (wm_conns t) \<and> \<not> mc_closed (wm_conns t ! conn)"
    and "distinct (conns_at t topic)" and "distinct (topics_at t conn)" and "maps_ok t"
  using assms unfolding ws_ok_def by blast+

lemma ws_okI:
  assumes "\<And>conn topic. conn \<in> set (conns_at t topic) \<longleftrightarrow> topic \<in> set (topics_at t conn)"
    and "\<And>conn topic. conn \<in> set (conns_at t topic) \<Longrightarrow> conn < length (wm_conns t) \<and> \<not> mc_closed (wm_conns t ! conn)"
    and "\<And>topic. distinct (conns_at t topic)" and "\<And>conn. distinct (topics_at t conn)" and "maps_ok t"
  shows "ws_ok t"
  using assms unfolding ws_ok_def by blast

text \<open>Each of the four lookups depends on its fields only.\<close>

lemma view_updates [simp]:
  "conns_at (t\<lparr>wm_connTopics := x\<rparr>) = conns_at t" "conns_at (t\<lparr>wm_conns := y\<rparr>) = conns_at t"
  "topics_at (t\<lparr>wm_topicConns := u\<rparr>) = topics_at t" "topics_at (t\<lparr>wm_maps := v\<rparr>) = topics_at t" "topics_at (t\<lparr>wm_conns := y\<rparr>) = topics_at t"
  "maps_ok (t\<lparr>wm_connTopics := x\<rparr>) = maps_ok t" "maps_ok (t\<lparr>wm_conns := y\<rparr>) = maps_ok t"
  "tidy T (t\<lparr>wm_connTopics := x\<rparr>) = tidy T t" "tidy T (t\<lparr>wm_conns := y\<rparr>) = tidy T t"
  by (simp_all add: conns_at_def topics_at_def maps_ok_def tidy_def fun_eq_iff split: option.split)

text \<open>What happens to the maps.\<close>

lemma map_made:
  assumes "maps_ok t" and "wm_topicConns t topic = None"
  defines "u \<equiv> t\<lparr>wm_topicConns := (wm_topicConns t)(topic \<mapsto> length (wm_maps t)), wm_maps := wm_maps t @ [[]]\<rparr>"
  shows "maps_ok u" and "conns_at u = conns_at t"
proof -
  note D = maps_okD [OF assms(1)]
  have at: "wm_topicConns u x = (if x = topic then Some (length (wm_maps t)) else wm_topicConns t x)" for x
    by (simp add: u_def)
  have maps: "length (wm_maps u) = Suc (length (wm_maps t))" "r < length (wm_maps t) \<Longrightarrow> wm_maps u ! r = wm_maps t ! r"
    "wm_maps u ! length (wm_maps t) = []" for r
    by (simp_all add: u_def nth_append)
  show "conns_at u = conns_at t"
    using D(1) assms(2) maps by (auto simp: conns_at_def at fun_eq_iff split: option.split)
  show "maps_ok u" unfolding maps_ok_def
  proof (intro conjI allI impI)
    fix x r assume "wm_topicConns u x = Some r"
    then show "r < length (wm_maps u)" using D(1) [of x r] by (auto simp: at maps(1) split: if_splits)
  next
    fix x y r assume "wm_topicConns u x = Some r" "wm_topicConns u y = Some r"
    then show "x = y" using D(1) [of x r] D(1) [of y r] D(2) [of x r y] by (auto simp: at split: if_splits)
  next
    fix r assume r: "r < length (wm_maps u)" "wm_maps u ! r \<noteq> []"
    then have "r < length (wm_maps t)" using maps(1,3) by (auto simp: less_Suc_eq)
    with r(2) maps(2) D(3) [of r] obtain x where "wm_topicConns t x = Some r" by auto
    then show "\<exists>x. wm_topicConns u x = Some r" using assms(2) by (intro exI [of _ x]) (auto simp: at)
  qed
qed

lemma map_changed:
  assumes "maps_ok t" and "wm_topicConns t topic = Some r"
  shows "maps_ok (t\<lparr>wm_maps := (wm_maps t)[r := conns]\<rparr>)"
    and "conns_at (t\<lparr>wm_maps := (wm_maps t)[r := conns]\<rparr>) = (conns_at t)(topic := conns)"
proof -
  note D = maps_okD [OF assms(1)]
  note r = D(1) [OF assms(2)]
  show "conns_at (t\<lparr>wm_maps := (wm_maps t)[r := conns]\<rparr>) = (conns_at t)(topic := conns)"
  proof
    fix x
    show "conns_at (t\<lparr>wm_maps := (wm_maps t)[r := conns]\<rparr>) x = ((conns_at t)(topic := conns)) x"
    proof (cases "x = topic")
      case False
      then have "wm_topicConns t x \<noteq> Some r" using D(2) [OF assms(2)] by blast
      with False show ?thesis by (cases "wm_topicConns t x") (simp_all add: conns_at_def)
    qed (use r assms(2) in \<open>simp add: conns_at_def\<close>)
  qed
  show "maps_ok (t\<lparr>wm_maps := (wm_maps t)[r := conns]\<rparr>)"
    unfolding maps_ok_def
  proof (intro conjI allI impI)
    fix q assume "q < length (wm_maps (t\<lparr>wm_maps := (wm_maps t)[r := conns]\<rparr>))" "wm_maps (t\<lparr>wm_maps := (wm_maps t)[r := conns]\<rparr>) ! q \<noteq> []"
    then show "\<exists>topic. wm_topicConns (t\<lparr>wm_maps := (wm_maps t)[r := conns]\<rparr>) topic = Some q"
      using D(3) [of q] assms(2) by (cases "q = r") auto
  next
    fix x y q
    assume "wm_topicConns (t\<lparr>wm_maps := (wm_maps t)[r := conns]\<rparr>) x = Some q" "wm_topicConns (t\<lparr>wm_maps := (wm_maps t)[r := conns]\<rparr>) y = Some q"
    then show "x = y" using D(2) [of x q y] by simp
  qed (use D(1) in simp)
qed

lemma map_dropped:
  assumes "maps_ok t" and "conns_at t topic = []"
  shows "maps_ok (t\<lparr>wm_topicConns := (wm_topicConns t)(topic := None)\<rparr>)"
    and "conns_at (t\<lparr>wm_topicConns := (wm_topicConns t)(topic := None)\<rparr>) = conns_at t"
proof -
  note D = maps_okD [OF assms(1)]
  show "conns_at (t\<lparr>wm_topicConns := (wm_topicConns t)(topic := None)\<rparr>) = conns_at t"
    using assms(2) by (auto simp: conns_at_def fun_eq_iff split: option.split)
  show "maps_ok (t\<lparr>wm_topicConns := (wm_topicConns t)(topic := None)\<rparr>)" unfolding maps_ok_def
  proof (intro conjI allI impI)
    fix r assume r: "r < length (wm_maps (t\<lparr>wm_topicConns := (wm_topicConns t)(topic := None)\<rparr>))"
      "wm_maps (t\<lparr>wm_topicConns := (wm_topicConns t)(topic := None)\<rparr>) ! r \<noteq> []"
    with D(3) [of r] obtain x where "wm_topicConns t x = Some r" by auto
    moreover from this r(2) assms(2) have "x \<noteq> topic" by (auto simp: conns_at_def)
    ultimately show "\<exists>x. wm_topicConns (t\<lparr>wm_topicConns := (wm_topicConns t)(topic := None)\<rparr>) x = Some r" by auto
  next
    fix x y r
    assume "wm_topicConns (t\<lparr>wm_topicConns := (wm_topicConns t)(topic := None)\<rparr>) x = Some r"
      "wm_topicConns (t\<lparr>wm_topicConns := (wm_topicConns t)(topic := None)\<rparr>) y = Some r"
    then show "x = y" using D(2) [of x r y] by (simp split: if_splits)
  qed (use D(1) in \<open>auto split: if_splits\<close>)
qed

lemma conn_deleted:
  assumes "maps_ok t"
  shows "maps_ok (delete_conn topic conn t)"
    and "conns_at (delete_conn topic conn t) = (conns_at t)(topic := removeAll conn (conns_at t topic))"
    and "wm_topicConns (delete_conn topic conn t) = wm_topicConns t"
    and "wm_connTopics (delete_conn topic conn t) = wm_connTopics t" and "wm_conns (delete_conn topic conn t) = wm_conns t"
proof -
  have "maps_ok (delete_conn topic conn t)
      \<and> conns_at (delete_conn topic conn t) = (conns_at t)(topic := removeAll conn (conns_at t topic))"
  proof (cases "wm_topicConns t topic")
    case None
    then have "conns_at t topic = []" by (simp add: conns_at_def)
    with None assms show ?thesis by (simp add: delete_conn_def fun_eq_iff)
  next
    case (Some r)
    from map_changed [OF assms Some, of "removeAll conn (wm_maps t ! r)"] Some show ?thesis
      by (simp add: delete_conn_def conns_at_def)
  qed
  then show "maps_ok (delete_conn topic conn t)"
    "conns_at (delete_conn topic conn t) = (conns_at t)(topic := removeAll conn (conns_at t topic))" by simp_all
qed (simp_all add: delete_conn_def split: option.split)

definition ws_open :: "ws_main \<Rightarrow> nat \<Rightarrow> bool" where
  "ws_open t conn \<longleftrightarrow> conn < length (wm_conns t) \<and> \<not> mc_closed (wm_conns t ! conn)"

lemma new_ws_main_ok: "ws_ok new_ws_main" "tidy {} new_ws_main"
  by (simp_all add: new_ws_main_def ws_ok_def maps_ok_def conns_at_def topics_at_def tidy_def)

lemma new_ws_conn_ok:
  assumes "ws_ok t" and "tidy T t"
  shows "ws_ok (snd (new_ws_conn t))" and "tidy T (snd (new_ws_conn t))"
    and "ws_open (snd (new_ws_conn t)) (fst (new_ws_conn t))"
proof -
  show "ws_ok (snd (new_ws_conn t))"
    by (rule ws_okI) (use ws_okD [OF assms(1)] in \<open>auto simp: new_ws_conn_def nth_append less_Suc_eq\<close>)
  show "tidy T (snd (new_ws_conn t))" using assms(2) by (simp add: new_ws_conn_def)
  show "ws_open (snd (new_ws_conn t)) (fst (new_ws_conn t))" by (simp add: ws_open_def new_ws_conn_def)
qed

lemma tidy_conns_at: "tidy T t \<Longrightarrow> topic \<in> T \<longleftrightarrow> conns_at t topic \<noteq> []"
  by (auto simp: tidy_def conns_at_def dom_def split: option.splits)

lemma ws_close_object:
  "ws_open t conn \<Longrightarrow> close_ws_conn conn t
     = Some (t\<lparr>wm_conns := (wm_conns t)[conn := (wm_conns t ! conn)\<lparr>mc_closed := True\<rparr>]\<rparr>)"
  by (simp add: close_ws_conn_def ws_open_def)

section \<open>The operations against the interface\<close>

context topic_source
begin

lemma subscribe_ok:
  assumes "ws_ok t" and "tidy (topics b) t" and "ok b" and "ws_open t conn"
  shows "\<exists>t' b'. ws_subscribe sub topic conn t b = Some (t', b') \<and> ok b' \<and> tidy (topics b') t' \<and> ws_ok t'
    \<and> wm_conns t' = wm_conns t
    \<and> (\<forall>x. set (conns_at t' x) = (if x = topic then insert conn (set (conns_at t x)) else set (conns_at t x)))"
proof -
  note D = ws_okD [OF assms(1)]
  obtain r u b' where made: "(case wm_topicConns t topic of Some r \<Rightarrow> Some (r, t, b)
      | None \<Rightarrow> do {
          let r = length (wm_maps t);
          let t = t\<lparr>wm_topicConns := (wm_topicConns t)(topic \<mapsto> r), wm_maps := wm_maps t @ [[]]\<rparr>;
          b \<leftarrow> sub topic b;
          Some (r, t, b)
        }) = Some (r, u, b')" "ok b'" "topics b' = insert topic (topics b)"
    and u: "maps_ok u" "conns_at u = conns_at t" "topics_at u = topics_at t" "wm_conns u = wm_conns t"
      "wm_topicConns u = (wm_topicConns t)(topic \<mapsto> r)" "wm_connTopics u = wm_connTopics t"
  proof (cases "wm_topicConns t topic")
    case None
    from sub_ok [OF assms(3)] obtain b' where "sub topic b = Some b'" "ok b'" "topics b' = insert topic (topics b)" by blast
    with None map_made [OF D(5) None] that show ?thesis by (simp add: Let_def)
  next
    case (Some r)
    then have "topic \<in> topics b" using assms(2) by (auto simp: tidy_def)
    with Some that assms(3) D(5) show ?thesis by (simp add: insert_absorb fun_upd_idem)
  qed
  have r: "wm_topicConns u topic = Some r" using u(5) by simp
  let ?v = "u\<lparr>wm_maps := (wm_maps u)[r := List.insert conn (wm_maps u ! r)]\<rparr>"
  let ?t = "?v\<lparr>wm_connTopics := (wm_connTopics t)(conn \<mapsto> List.insert topic (topics_at t conn))\<rparr>"
  note v = map_changed [OF u(1) r, of "List.insert conn (wm_maps u ! r)"]
  have at: "conns_at ?t = (conns_at t)(topic := List.insert conn (conns_at t topic))"
    using v(2) r u(2) by (simp add: conns_at_def [of u topic, unfolded r, simplified, symmetric])
  have to: "topics_at ?t x = (if x = conn then List.insert topic (topics_at t x) else topics_at t x)" for x
    by (simp add: topics_at_def)
  have ws: "ws_ok ?t"
    by (rule ws_okI) (use D assms(4) at to v(1) u(4) in \<open>auto simp: ws_open_def split: if_splits\<close>)
  have ne: "List.insert conn xs \<noteq> []" for xs by (cases xs) (simp_all add: List.insert_def)
  have "tidy (topics b') ?t" unfolding tidy_def at using assms(2) made(3) ne u(5) by (auto simp: tidy_def)
  moreover have "ws_subscribe sub topic conn t b = Some (?t, b')" unfolding ws_subscribe_def made(1) using u(3,6) by simp
  ultimately show ?thesis using ws made(2) at u(4) by (intro exI [of _ ?t] exI [of _ b']) simp
qed

lemma drop_conn_ok:
  assumes "tidy (topics b) t" and "ok b" and "maps_ok t"
  shows "\<exists>t' b'. drop_conn unsub topic conn t b = Some (t', b') \<and> ok b' \<and> tidy (topics b') t' \<and> maps_ok t'
    \<and> conns_at t' = (conns_at t)(topic := removeAll conn (conns_at t topic))
    \<and> wm_connTopics t' = wm_connTopics t \<and> wm_conns t' = wm_conns t"
proof -
  let ?t = "delete_conn topic conn t"
  note t = conn_deleted [OF assms(3), of topic conn]
  show ?thesis
  proof (cases "conns_at ?t topic = []")
    case True
    obtain b' where b': "unsub topic b = Some b'" "ok b'" "topics b' = topics b - {topic}"
      using unsub_ok [OF assms(2)] by blast
    note d = map_dropped [OF t(1) True]
    have "tidy (topics b') (?t\<lparr>wm_topicConns := (wm_topicConns ?t)(topic := None)\<rparr>)"
      unfolding tidy_def d(2) t(2) using assms(1) b'(3) t(3) by (auto simp: tidy_def)
    with True b' d t show ?thesis by (simp add: drop_conn_def)
  next
    case False
    then have "conns_at t topic \<noteq> []" using t(2) by auto
    then have "topic \<in> topics b" using tidy_conns_at [OF assms(1)] by simp
    then have "tidy (topics b) ?t" using assms(1) False t(2,3) by (auto simp: tidy_def)
    with False assms(2) t show ?thesis by (simp add: drop_conn_def)
  qed
qed

lemma drop_topics_ok:
  assumes "tidy (topics b) t" and "ok b" and "maps_ok t"
  shows "\<exists>t' b'. drop_topics unsub ts conn t b = Some (t', b') \<and> ok b' \<and> tidy (topics b') t' \<and> maps_ok t'
    \<and> conns_at t' = (\<lambda>x. if x \<in> set ts then removeAll conn (conns_at t x) else conns_at t x)
    \<and> wm_connTopics t' = wm_connTopics t \<and> wm_conns t' = wm_conns t"
  using assms
proof (induction ts arbitrary: t b)
  case (Cons x ts)
  obtain t1 b1 where one: "drop_conn unsub x conn t b = Some (t1, b1)" "ok b1" "tidy (topics b1) t1" "maps_ok t1"
    "conns_at t1 = (conns_at t)(x := removeAll conn (conns_at t x))"
    "wm_connTopics t1 = wm_connTopics t" "wm_conns t1 = wm_conns t"
    using drop_conn_ok [OF Cons.prems] by blast
  obtain t2 b2 where two: "drop_topics unsub ts conn t1 b1 = Some (t2, b2)" "ok b2" "tidy (topics b2) t2" "maps_ok t2"
    "conns_at t2 = (\<lambda>y. if y \<in> set ts then removeAll conn (conns_at t1 y) else conns_at t1 y)"
    "wm_connTopics t2 = wm_connTopics t1" "wm_conns t2 = wm_conns t1"
    using Cons.IH [OF one(3,2,4)] by blast
  have "conns_at t2 = (\<lambda>y. if y \<in> set (x # ts) then removeAll conn (conns_at t y) else conns_at t y)"
    using two(5) one(5) by (auto simp: fun_eq_iff)
  then show ?case using one two by simp
qed simp

lemma unsubscribe_ok:
  assumes "ws_ok t" and "tidy (topics b) t" and "ok b"
  shows "\<exists>t' b'. ws_unsubscribe unsub topic conn t b = Some (t', b') \<and> ok b' \<and> tidy (topics b') t' \<and> ws_ok t'
    \<and> wm_conns t' = wm_conns t
    \<and> (\<forall>x. set (conns_at t' x) = (if x = topic then set (conns_at t x) - {conn} else set (conns_at t x)))"
proof -
  note D = ws_okD [OF assms(1)]
  obtain t1 b1 where one: "drop_conn unsub topic conn t b = Some (t1, b1)" "ok b1" "tidy (topics b1) t1"
    "conns_at t1 = (conns_at t)(topic := removeAll conn (conns_at t topic))"
    "wm_connTopics t1 = wm_connTopics t" "wm_conns t1 = wm_conns t" "maps_ok t1"
    using drop_conn_ok [OF assms(2,3) D(5)] by blast
  let ?ts = "removeAll topic (topics_at t conn)"
  let ?t = "t1\<lparr>wm_connTopics := (wm_connTopics t1)(conn := if ?ts = [] then None else Some ?ts)\<rparr>"
  have v: "topics_at t1 = topics_at t" using one(5) by (simp add: topics_at_def fun_eq_iff)
  have to: "topics_at ?t x = (if x = conn then ?ts else topics_at t x)" for x
    using one(5) by (simp add: topics_at_def)
  have "ws_ok ?t"
    by (rule ws_okI) (use D one(4,6,7) to in \<open>auto simp: distinct_removeAll split: if_splits\<close>)
  moreover have "ws_unsubscribe unsub topic conn t b = Some (?t, b1)"
    using one(1) v by (simp add: ws_unsubscribe_def Let_def)
  ultimately show ?thesis using one(2-4,6) by (intro exI [of _ ?t] exI [of _ b1]) simp
qed

lemma ws_conn_closed:
  assumes "ws_ok t" and "tidy (topics b) t" and "ok b" and "ws_open t conn" and "permutes_keys perm"
  shows "\<exists>t' b'. ws_close_conn unsub perm conn t b = Some (t', b') \<and> ok b' \<and> tidy (topics b') t' \<and> ws_ok t'
    \<and> wm_conns t' = (wm_conns t)[conn := (wm_conns t ! conn)\<lparr>mc_closed := True\<rparr>]
    \<and> (\<forall>x. set (conns_at t' x) = set (conns_at t x) - {conn})"
proof -
  note D = ws_okD [OF assms(1)]
  obtain t1 b1 where one: "drop_topics unsub (perm (topics_at t conn)) conn t b = Some (t1, b1)" "ok b1"
    "tidy (topics b1) t1"
    "conns_at t1 = (\<lambda>x. if x \<in> set (perm (topics_at t conn)) then removeAll conn (conns_at t x) else conns_at t x)"
    "wm_connTopics t1 = wm_connTopics t" "wm_conns t1 = wm_conns t" "maps_ok t1"
    using drop_topics_ok [OF assms(2,3) D(5)] by blast
  have c1: "conns_at t1 x = removeAll conn (conns_at t x)" for x
    using one(4) permutes_keysD(1) [OF assms(5)] D(1) [of conn x] by simp
  let ?t = "t1\<lparr>wm_connTopics := (wm_connTopics t1)(conn := None),
    wm_conns := (wm_conns t)[conn := (wm_conns t ! conn)\<lparr>mc_closed := True\<rparr>]\<rparr>"
  have to: "topics_at ?t x = (if x = conn then [] else topics_at t x)" for x
    using one(5) by (simp add: topics_at_def)
  have "ws_ok ?t"
    by (rule ws_okI) (use D c1 to one(7) in \<open>auto simp: distinct_removeAll nth_list_update split: if_splits\<close>)
  moreover have "ws_close_conn unsub perm conn t b = Some (?t, b1)"
    using one(1,6) assms(4) by (simp add: ws_close_conn_def ws_close_object ws_open_def)
  ultimately show ?thesis using one(2,3) c1 by (intro exI [of _ ?t] exI [of _ b1]) simp
qed

end

section \<open>Forwarding\<close>

definition with_sent :: "string \<Rightarrow> nat set \<Rightarrow> ws_main \<Rightarrow> ws_main" where
  "with_sent data C t = t\<lparr>wm_conns := map (\<lambda>i. if i \<in> C
     then (wm_conns t ! i)\<lparr>mc_sent := mc_sent (wm_conns t ! i) @ [data]\<rparr> else wm_conns t ! i) [0..<length (wm_conns t)]\<rparr>"

lemma with_sent_ok: "ws_ok t \<Longrightarrow> ws_ok (with_sent data C t)" "tidy T t \<Longrightarrow> tidy T (with_sent data C t)"
proof -
  assume ok: "ws_ok t"
  show "ws_ok (with_sent data C t)"
    by (rule ws_okI) (use ws_okD [OF ok] in \<open>auto simp: with_sent_def\<close>)
qed (simp add: with_sent_def)

section \<open>The machine\<close>

text \<open>
  The connections of the transport with its subscriber \<open>s\<close> on a bus that other parties use too:
  \<open>Bus\<close> is any operation of theirs. The goroutine that forwards events takes its own steps beside
  these, one read and one send at a time (theory \<open>WsFeed\<close>).
\<close>

datatype ws_op =
  Connect
| Message "string \<Rightarrow> string option" nat ws_message
| Disconnect "string list \<Rightarrow> string list" nat
| Bus bus_op

fun ws_exec :: "nat \<Rightarrow> ws_op \<Rightarrow> ws_main \<times> event_bus \<Rightarrow> (ws_main \<times> event_bus) option" where
  "ws_exec s Connect (t, b) = Some (snd (new_ws_conn t), b)"
| "ws_exec s (Message decode conn m) (t, b) =
     map_option snd (on_message decode (sub_subscribe s) (sub_unsubscribe s) conn m t b)"
| "ws_exec s (Disconnect perm conn) (t, b) = ws_close_conn (sub_unsubscribe s) perm conn t b"
| "ws_exec s (Bus op) (t, b) = map_option (Pair t) (bus_exec op b)"

text \<open>Other parties leave the transport's subscriber alone; a connection handles messages while open.\<close>

fun touches :: "nat \<Rightarrow> bus_op \<Rightarrow> bool" where
  "touches s (Subscribe i t) = (i = s)"
| "touches s (Unsubscribe i t) = (i = s)"
| "touches s (ReadEvent i) = (i = s)"
| "touches s (CloseSubscriber p i) = (i = s)"
| "touches s _ = False"

fun ws_allowed :: "nat \<Rightarrow> ws_op \<Rightarrow> ws_main \<times> event_bus \<Rightarrow> bool" where
  "ws_allowed s Connect (t, b) = True"
| "ws_allowed s (Message decode conn m) (t, b) = ws_open t conn"
| "ws_allowed s (Disconnect perm conn) (t, b) = (ws_open t conn \<and> permutes_keys perm)"
| "ws_allowed s (Bus op) (t, b) = (bus_allowed op b \<and> \<not> touches s op)"

definition ws_sys_ok :: "nat \<Rightarrow> ws_main \<times> event_bus \<Rightarrow> bool" where
  "ws_sys_ok s = (\<lambda>(t, b). ws_ok t \<and> tidy (sub_topics s b) t \<and> bus_ok b \<and> sub_open b s)"

lemma bus_exec_frame:
  assumes "bus_ok b" and "bus_allowed op b" and "\<not> touches s op" and "sub_open b s" and "bus_exec op b = Some b'"
  shows "sub_topics s b' = sub_topics s b" and "sub_open b' s"
proof -
  have "es_topics (eb_subs b' ! s) = es_topics (eb_subs b ! s)
      \<and> ch_closed (es_events (eb_subs b' ! s)) = ch_closed (es_events (eb_subs b ! s))
      \<and> s < length (eb_subs b')"
  proof (cases op)
    case NewSubscriber
    then show ?thesis using assms(4,5) by (auto simp: new_subscriber_def nth_append sub_open_def)
  next
    case (Subscribe i t)
    then show ?thesis using assms(2-5) sub_subscribe_ok [OF assms(1), of i t] by (fastforce simp: sub_open_def)
  next
    case (Unsubscribe i t)
    then show ?thesis using assms(2-5) sub_unsubscribe_ok [OF assms(1), of i t] by (fastforce simp: sub_open_def)
  next
    case (Publish perm ev)
    then show ?thesis using assms(2,4,5) bus_publish_ok(1) [OF assms(1), of perm ev]
      by (auto simp: sub_open_def funpow_offered)
  next
    case (ReadEvent i)
    then show ?thesis using assms(3-5)
      by (auto simp: sub_open_def sub_read_def bind_Some_iff Let_def split: prod.splits)
  next
    case (CloseSubscriber perm i)
    then show ?thesis using assms(3-5)
      by (auto simp: sub_open_def sub_close_def bind_Some_iff Let_def)
  qed
  then show "sub_topics s b' = sub_topics s b" "sub_open b' s"
    using assms(4) by (simp_all add: sub_topics_def sub_open_def)
qed

lemma sub_read_frame:
  assumes "bus_ok b" and "sub_open b s"
  shows "\<exists>got b'. sub_read s b = Some (got, b') \<and> bus_ok b' \<and> sub_open b' s \<and> sub_topics s b' = sub_topics s b"
proof -
  obtain got b' where r: "sub_read s b = Some (got, b')" "bus_ok b'"
    using sub_read_ok [OF assms(1), of s] assms(2) by (auto simp: sub_open_def)
  then have "sub_open b' s \<and> sub_topics s b' = sub_topics s b"
    using assms(2) by (auto simp: sub_open_def sub_topics_def sub_read_def bind_Some_iff Let_def recv_chan_def
        split: prod.splits list.splits)
  with r show ?thesis by blast
qed

lemma on_message_ok:
  assumes "ws_sys_ok s (t, b)" and "ws_open t conn"
  shows "\<exists>e t' b'. on_message decode (sub_subscribe s) (sub_unsubscribe s) conn m t b = Some (e, t', b')
    \<and> ws_sys_ok s (t', b') \<and> wm_conns t' = wm_conns t"
proof -
  have a: "ws_ok t" "tidy (sub_topics s b) t" "bus_ok b \<and> sub_open b s"
    using assms(1) by (simp_all add: ws_sys_ok_def)
  obtain t1 b1 where one: "ws_subscribe (sub_subscribe s) (the (decode (wm_data m))) conn t b = Some (t1, b1)"
    "ws_sys_ok s (t1, b1)" "wm_conns t1 = wm_conns t"
    using bus_topics.subscribe_ok [OF a assms(2)] by (fastforce simp: ws_sys_ok_def)
  obtain t2 b2 where two: "ws_unsubscribe (sub_unsubscribe s) (the (decode (wm_data m))) conn t b = Some (t2, b2)"
    "ws_sys_ok s (t2, b2)" "wm_conns t2 = wm_conns t"
    using bus_topics.unsubscribe_ok [OF a] by (fastforce simp: ws_sys_ok_def)
  show ?thesis using one two assms(1) by (auto simp: on_message_def split: option.splits)
qed

lemma ws_exec_ok: "ws_sys_ok s tb \<Longrightarrow> ws_allowed s op tb \<Longrightarrow> \<exists>tb'. ws_exec s op tb = Some tb' \<and> ws_sys_ok s tb'"
proof (induction s op tb rule: ws_exec.induct)
  case (1 s t b)
  then show ?case using new_ws_conn_ok by (auto simp: ws_sys_ok_def)
next
  case (2 s decode conn m t b)
  then show ?case using on_message_ok [of s t b conn decode m] by fastforce
next
  case (3 s perm conn t b)
  then show ?case using bus_topics.ws_conn_closed [of t s b conn perm] by (fastforce simp: ws_sys_ok_def)
next
  case (4 s op t b)
  then obtain b' where "bus_exec op b = Some b'" "bus_ok b'"
    using bus_exec_ok [of b op] by (auto simp: ws_sys_ok_def)
  then show ?case using 4 bus_exec_frame [of b op s b'] by (auto simp: ws_sys_ok_def)
qed

text \<open>The transport starts on a bus with a subscriber of its own.\<close>

definition ws_start :: "nat \<Rightarrow> ws_main \<times> event_bus \<Rightarrow> bool" where
  "ws_start s = (\<lambda>(t, b). t = new_ws_main \<and> bus_ok b \<and> sub_open b s \<and> sub_topics s b = {})"

interpretation ws_main: panic_free "ws_start s" "ws_allowed s" "ws_exec s" "ws_sys_ok s" for s
proof (unfold_locales, goal_cases)
  case (1 tb)
  then show ?case using new_ws_main_ok by (auto simp: ws_start_def ws_sys_ok_def)
next
  case (2 tb op)
  then show ?case by (rule ws_exec_ok)
qed

end
