(* ===== verification/WsFeed.thy ===== *)
theory WsFeed
  imports WsMainOk
begin

text \<open>
  The goroutine \<open>readEvents\<close> a step at a time, beside the connections of its transport. While it ranges over
  a map of connections others subscribe, unsubscribe and close. Its next step panics exactly if the one
  connection it is sending to has been closed meanwhile; who was in the map at the start and stays there gets
  the event once.
\<close>

section \<open>Where it stands\<close>

text \<open>The connection it has got from \<open>range\<close> and not handed the event yet.\<close>

fun sending_to :: "feed_pc \<Rightarrow> nat option" where
  "sending_to (Sending r old seen data conn) = Some conn"
| "sending_to _ = None"

definition feed_allows :: "nat option \<Rightarrow> feed_pc \<Rightarrow> ws_main \<Rightarrow> bool" where
  "feed_allows yield pc t \<longleftrightarrow>
     (case pc of Ranging r old seen data \<Rightarrow> range_allows yield old seen (wm_maps t ! r) | _ \<Rightarrow> True)"

definition is_event :: "string \<Rightarrow> bool" where
  "is_event data \<longleftrightarrow> (\<exists>ev. data = encoded_message ev)"

text \<open>Who has been handed the event of this round, each once, has it as the last.\<close>

definition handed :: "ws_main \<Rightarrow> nat list \<Rightarrow> string \<Rightarrow> bool" where
  "handed t seen data \<longleftrightarrow> distinct seen
     \<and> (\<forall>c \<in> set seen. c < length (wm_conns t) \<and> (\<exists>before. mc_sent (wm_conns t ! c) = before @ [data]))"

definition feed_ok :: "ws_main \<Rightarrow> feed_pc \<Rightarrow> bool" where
  "feed_ok t pc \<longleftrightarrow> (case pc of
     Ranging r old seen data \<Rightarrow> r < length (wm_maps t) \<and> is_event data \<and> handed t seen data
   | Sending r old seen data conn \<Rightarrow> r < length (wm_maps t) \<and> is_event data \<and> handed t seen data
       \<and> conn \<notin> set seen \<and> conn < length (wm_conns t)
   | _ \<Rightarrow> True)"

lemma feed_ok_simps [simp]:
  "feed_ok t Reading" "feed_ok t Ended"
  "feed_ok t (Ranging r old seen data) \<longleftrightarrow> r < length (wm_maps t) \<and> is_event data \<and> handed t seen data"
  "feed_ok t (Sending r old seen data conn) \<longleftrightarrow> r < length (wm_maps t) \<and> is_event data \<and> handed t seen data
     \<and> conn \<notin> set seen \<and> conn < length (wm_conns t)"
  by (simp_all add: feed_ok_def)

text \<open>The connection it is sending to, if any, has not been closed.\<close>

definition target_open :: "ws_main \<Rightarrow> feed_pc \<Rightarrow> bool" where
  "target_open t pc \<longleftrightarrow> (case sending_to pc of None \<Rightarrow> True | Some conn \<Rightarrow> ws_open t conn)"

lemma target_open_simps [simp]:
  "target_open t Reading" "target_open t Ended" "target_open t (Ranging r old seen data)"
  "target_open t (Sending r old seen data conn) = ws_open t conn"
  by (simp_all add: target_open_def)

section \<open>Its steps\<close>

lemma ws_send_one:
  assumes "ws_open t conn"
  shows "ws_send conn data t = Some (with_sent data {conn} t)"
  using assms by (auto simp: ws_send_def ws_open_def with_sent_def intro!: ws_main.equality nth_equalityI)

lemma with_sent_simps [simp]:
  "length (wm_conns (with_sent data C t)) = length (wm_conns t)" "wm_maps (with_sent data C t) = wm_maps t"
  "c < length (wm_conns t) \<Longrightarrow> mc_closed (wm_conns (with_sent data C t) ! c) = mc_closed (wm_conns t ! c)"
  "c < length (wm_conns t) \<Longrightarrow> mc_sent (wm_conns (with_sent data C t) ! c)
     = mc_sent (wm_conns t ! c) @ (if c \<in> C then [data] else [])"
  by (simp_all add: with_sent_def)

lemma ws_open_sent [simp]: "ws_open (with_sent data C t) conn = ws_open t conn"
  by (cases "conn < length (wm_conns t)") (simp_all add: ws_open_def)

lemma ws_open_new: "ws_open t conn \<Longrightarrow> ws_open (snd (new_ws_conn t)) conn"
  by (simp add: ws_open_def new_ws_conn_def nth_append)

lemma handed_more: "handed t seen data \<Longrightarrow> conn \<notin> set seen \<Longrightarrow> conn < length (wm_conns t) \<Longrightarrow> handed (with_sent data {conn} t) (conn # seen) data"
  by (auto simp: handed_def)

text \<open>A map's members are open, whether a topic still has it or not.\<close>

lemma member_open:
  assumes "ws_ok t" and "r < length (wm_maps t)" and "conn \<in> set (wm_maps t ! r)"
  shows "ws_open t conn"
proof -
  have "wm_maps t ! r \<noteq> []" using assms(3) by auto
  from maps_okD(3) [OF ws_okD(5) [OF assms(1)] assms(2) this] obtain topic where "wm_topicConns t topic = Some r" ..
  then have "conn \<in> set (conns_at t topic)" using assms(3) by (simp add: conns_at_def)
  from ws_okD(2) [OF assms(1) this] show ?thesis by (simp add: ws_open_def)
qed

lemma read_events_step_ok:
  assumes sys: "ws_sys_ok s (t, b)" and feed: "feed_ok t pc" and al: "feed_allows yield pc t" and target: "target_open t pc"
  shows "\<exists>pc' t' b'. read_events_step (sub_read s) yield pc t b = Some (pc', t', b') \<and> ws_sys_ok s (t', b') \<and> feed_ok t' pc'"
proof -
  have a: "ws_ok t" "tidy (sub_topics s b) t" "bus_ok b" "sub_open b s" using sys by (simp_all add: ws_sys_ok_def)
  show ?thesis
  proof (cases pc)
    case Reading
    obtain got b' where r: "sub_read s b = Some (got, b')" "bus_ok b'" "sub_open b' s" "sub_topics s b' = sub_topics s b"
      using sub_read_frame [OF a(3,4)] by blast
    with a have "ws_sys_ok s (t, b')" by (simp add: ws_sys_ok_def)
    with Reading r(1) maps_okD(1) [OF ws_okD(5) [OF a(1)]] show ?thesis
      by (cases got) (auto simp: read_events_step_def is_event_def handed_def split: option.split)
  next
    case (Ranging r old seen data)
    with feed al member_open [OF a(1)] sys show ?thesis
      by (cases yield) (auto simp: read_events_step_def feed_allows_def range_allows_def ws_open_def)
  next
    case (Sending r old seen data conn)
    with target have o: "ws_open t conn" by simp
    show ?thesis using Sending feed sys with_sent_ok(1) [of t data "{conn}"] with_sent_ok(2) [of "sub_topics s b" t data "{conn}"]
      by (simp add: read_events_step_def ws_send_one [OF o] ws_sys_ok_def handed_more)
  next
    case Ended
    with sys show ?thesis by (simp add: read_events_step_def)
  qed
qed

text \<open>A send to a closed connection panics.\<close>

lemma ws_send_closed: "conn < length (wm_conns t) \<Longrightarrow> \<not> ws_open t conn \<Longrightarrow> ws_send conn data t = None"
  by (simp add: ws_send_def ws_open_def)

lemma read_events_step_panics:
  assumes "feed_ok t pc" and "\<not> target_open t pc"
  shows "read_events_step read yield pc t b = None"
  using assms ws_send_closed by (cases pc) (auto simp: read_events_step_def)

section \<open>The other operations\<close>

lemma handed_cong:
  assumes "handed t seen data" and "length (wm_conns t) \<le> length (wm_conns t')"
    and "\<And>c. c < length (wm_conns t) \<Longrightarrow> mc_sent (wm_conns t' ! c) = mc_sent (wm_conns t ! c)"
  shows "handed t' seen data"
  using assms by (fastforce simp: handed_def)

lemma feed_ok_cong:
  assumes "feed_ok t pc" and "length (wm_maps t) \<le> length (wm_maps t')" and "length (wm_conns t) \<le> length (wm_conns t')"
    and "\<And>c. c < length (wm_conns t) \<Longrightarrow> mc_sent (wm_conns t' ! c) = mc_sent (wm_conns t ! c)"
  shows "feed_ok t' pc"
  using assms handed_cong [OF _ assms(3,4)] by (cases pc) auto

lemma drop_conn_maps:
  "drop_conn unsub topic conn t b = Some (t', b') \<Longrightarrow> length (wm_maps t') = length (wm_maps t)"
  by (auto simp: drop_conn_def delete_conn_def Let_def bind_Some_iff split: if_splits option.splits)

lemma drop_topics_maps:
  "drop_topics unsub ts conn t b = Some (t', b') \<Longrightarrow> length (wm_maps t') = length (wm_maps t)"
  by (induction ts arbitrary: t b) (auto simp: bind_Some_iff drop_conn_maps)

lemma on_message_maps:
  "on_message decode sub unsub conn m t b = Some (e, t', b') \<Longrightarrow> length (wm_maps t) \<le> length (wm_maps t')"
  by (auto simp: on_message_def ws_subscribe_def ws_unsubscribe_def bind_Some_iff Let_def
      dest!: drop_conn_maps split: if_splits option.splits)

lemma close_conn_maps:
  "ws_close_conn unsub perm conn t b = Some (t', b') \<Longrightarrow> length (wm_maps t') = length (wm_maps t)"
  by (auto simp: ws_close_conn_def close_ws_conn_def bind_Some_iff dest!: drop_topics_maps split: if_splits)

lemma new_ws_conn_feed: "feed_ok t pc \<Longrightarrow> feed_ok (snd (new_ws_conn t)) pc"
  by (erule feed_ok_cong) (simp_all add: new_ws_conn_def nth_append ws_open_def)

text \<open>
  The steps of the connections leave what was sent alone; a closed connection stays closed.
\<close>

lemma ws_exec_frame:
  assumes sys: "ws_sys_ok s (t, b)" and al: "ws_allowed s op (t, b)" and run: "ws_exec s op (t, b) = Some (t', b')"
    and op: "(\<exists>decode conn m. op = Message decode conn m) \<or> (\<exists>perm conn. op = Disconnect perm conn)"
  shows "length (wm_maps t) \<le> length (wm_maps t')"
    and "wm_conns t' = (case op of Disconnect perm conn \<Rightarrow> (wm_conns t)[conn := (wm_conns t ! conn)\<lparr>mc_closed := True\<rparr>] | _ \<Rightarrow> wm_conns t)"
proof -
  have "length (wm_maps t) \<le> length (wm_maps t')
    \<and> wm_conns t' = (case op of Disconnect perm conn \<Rightarrow> (wm_conns t)[conn := (wm_conns t ! conn)\<lparr>mc_closed := True\<rparr>] | _ \<Rightarrow> wm_conns t)"
  proof (cases op)
    case (Message decode conn m)
    then show ?thesis using run al on_message_ok [OF sys, of conn decode m] on_message_maps by fastforce
  next
    case (Disconnect perm conn)
    have ok: "ws_ok t" "tidy (sub_topics s b) t" "bus_ok b \<and> sub_open b s" using sys by (simp_all add: ws_sys_ok_def)
    then show ?thesis using run al Disconnect bus_topics.ws_conn_closed [OF ok, of conn perm] close_conn_maps by fastforce
  qed (use op in simp_all)
  then show "length (wm_maps t) \<le> length (wm_maps t')"
    "wm_conns t' = (case op of Disconnect perm conn \<Rightarrow> (wm_conns t)[conn := (wm_conns t ! conn)\<lparr>mc_closed := True\<rparr>] | _ \<Rightarrow> wm_conns t)"
    by simp_all
qed

lemma conns_frame:
  assumes "wm_conns t' = (case op of Disconnect perm conn \<Rightarrow> (wm_conns t)[conn := (wm_conns t ! conn)\<lparr>mc_closed := True\<rparr>] | _ \<Rightarrow> wm_conns t)"
  shows "length (wm_conns t') = length (wm_conns t)" and "mc_sent (wm_conns t' ! c) = mc_sent (wm_conns t ! c)"
    and "mc_closed (wm_conns t ! c) \<Longrightarrow> mc_closed (wm_conns t' ! c)"
    and "ws_open t c \<Longrightarrow> (\<And>perm. op \<noteq> Disconnect perm c) \<Longrightarrow> ws_open t' c"
proof -
  consider (close) perm conn where "op = Disconnect perm conn" "wm_conns t' = (wm_conns t)[conn := (wm_conns t ! conn)\<lparr>mc_closed := True\<rparr>]"
    | (same) "wm_conns t' = wm_conns t"
    using assms by (cases op) auto
  then have "length (wm_conns t') = length (wm_conns t) \<and> mc_sent (wm_conns t' ! c) = mc_sent (wm_conns t ! c)
    \<and> (mc_closed (wm_conns t ! c) \<longrightarrow> mc_closed (wm_conns t' ! c))
    \<and> (ws_open t c \<longrightarrow> (\<forall>perm. op \<noteq> Disconnect perm c) \<longrightarrow> ws_open t' c)"
  proof cases
    case close
    then show ?thesis
      by (cases "conn = c"; cases "c < length (wm_conns t)") (simp_all add: ws_open_def list_update_beyond)
  qed (simp add: ws_open_def)
  then show "length (wm_conns t') = length (wm_conns t)" "mc_sent (wm_conns t' ! c) = mc_sent (wm_conns t ! c)"
    "mc_closed (wm_conns t ! c) \<Longrightarrow> mc_closed (wm_conns t' ! c)"
    "ws_open t c \<Longrightarrow> (\<And>perm. op \<noteq> Disconnect perm c) \<Longrightarrow> ws_open t' c" by blast+
qed

lemma ws_exec_feed:
  assumes "ws_sys_ok s (t, b)" and "ws_allowed s op (t, b)" and "ws_exec s op (t, b) = Some (t', b')"
    and "(\<exists>decode conn m. op = Message decode conn m) \<or> (\<exists>perm conn. op = Disconnect perm conn)"
    and feed: "feed_ok t pc"
  shows "feed_ok t' pc"
proof -
  note f = ws_exec_frame [OF assms(1-4)]
  note c = conns_frame [OF f(2)]
  show ?thesis using feed f(1) by (rule feed_ok_cong) (use c(1,2) in simp_all)
qed

end
