(* ===== verification/WsWriter.thy ===== *)
theory WsWriter
  imports WsFeed
begin

text \<open>
  \<open>transport/ws_main/conn.go\<close>: the goroutine \<open>readData\<close> of every connection, which writes to the socket what
  the goroutine \<open>readEvents\<close> hands it over a channel without a buffer. While a write is going on the next send
  to that connection blocks, and with it the forwarding of events to everybody.
\<close>

section \<open>The writing goroutine\<close>

datatype write_pc = Waiting | WritingOut string | WriterDone

text \<open>Of every write it is noted whether it failed, which is only logged.\<close>

record ws_writer =
  ww_pc :: write_pc
  ww_done :: "(string \<times> bool) list"

definition new_ws_writer :: ws_writer where
  "new_ws_writer = \<lparr>ww_pc = Waiting, ww_done = []\<rparr>"

text \<open>A step of \<open>readData\<close>: a write returns, or the loop ends since the channel is closed.\<close>

definition read_data_step :: "bool \<Rightarrow> bool \<Rightarrow> ws_writer \<Rightarrow> ws_writer" where
  "read_data_step closed failed w =
     (case ww_pc w of
        Waiting \<Rightarrow> if closed then w\<lparr>ww_pc := WriterDone\<rparr> else w
      | WritingOut data \<Rightarrow> w\<lparr>ww_pc := Waiting, ww_done := ww_done w @ [(data, failed)]\<rparr>
      | WriterDone \<Rightarrow> w)"

text \<open>A step of \<open>readEvents\<close>: the send panics on a closed channel, and waits until the goroutine takes the data.\<close>

definition feed_step ::
    "('b \<Rightarrow> (event received \<times> 'b) option) \<Rightarrow> nat option \<Rightarrow> feed_pc \<Rightarrow> ws_main \<Rightarrow> ws_writer list \<Rightarrow> 'b \<Rightarrow>
       (feed_pc \<times> ws_main \<times> ws_writer list \<times> 'b) option" where
  "feed_step read yield pc t ws b =
     (case pc of
        Sending r old seen data conn \<Rightarrow> do {
          c \<leftarrow> deref (wm_conns t) conn;
          w \<leftarrow> deref ws conn;
          if \<not> mc_closed c \<and> ww_pc w \<noteq> Waiting then Some (pc, t, ws, b)
          else do {
            (pc, t, b) \<leftarrow> read_events_step read yield pc t b;
            Some (pc, t, ws[conn := w\<lparr>ww_pc := WritingOut data\<rparr>], b)
          }
        }
      | _ \<Rightarrow> do {
          (pc, t, b) \<leftarrow> read_events_step read yield pc t b;
          Some (pc, t, ws, b)
        })"

section \<open>What is written\<close>

fun in_flight :: "write_pc \<Rightarrow> string list" where
  "in_flight (WritingOut data) = [data]"
| "in_flight _ = []"

text \<open>What a connection was handed is what was written for it, in order, and what is being written.\<close>

definition writer_ok :: "main_conn \<Rightarrow> ws_writer \<Rightarrow> bool" where
  "writer_ok c w \<longleftrightarrow> map fst (ww_done w) @ in_flight (ww_pc w) = mc_sent c \<and> list_all is_event (mc_sent c)
     \<and> (ww_pc w = WriterDone \<longrightarrow> mc_closed c)"

abbreviation writers_ok :: "ws_main \<Rightarrow> ws_writer list \<Rightarrow> bool" where
  "writers_ok t ws \<equiv> list_all2 writer_ok (wm_conns t) ws"

lemma writer_okD:
  assumes "writers_ok t ws"
  shows "length ws = length (wm_conns t)" and "c < length ws \<Longrightarrow> writer_ok (wm_conns t ! c) (ws ! c)"
  using list_all2_lengthD [OF assms] list_all2_nthD2 [OF assms, of c] by simp_all

lemma new_writer_ok: "writers_ok t ws \<Longrightarrow> writers_ok (snd (new_ws_conn t)) (ws @ [new_ws_writer])"
  by (simp add: new_ws_conn_def new_ws_writer_def list_all2_appendI writer_ok_def)

lemma read_data_ok:
  assumes "writers_ok t ws" and "c < length ws"
  shows "writers_ok t (ws[c := read_data_step (mc_closed (wm_conns t ! c)) failed (ws ! c)])"
proof -
  note w = writer_okD [OF assms(1)]
  have "writer_ok (wm_conns t ! c) (read_data_step (mc_closed (wm_conns t ! c)) failed (ws ! c))"
    using w(2) [OF assms(2)] by (cases "ww_pc (ws ! c)") (auto simp: read_data_step_def writer_ok_def)
  from list_all2_update_cong [OF assms(1) this, of c] show ?thesis by simp
qed

lemma writers_conns_frame:
  assumes "writers_ok t ws"
    and "wm_conns t' = (case op of Disconnect perm conn \<Rightarrow> (wm_conns t)[conn := (wm_conns t ! conn)\<lparr>mc_closed := True\<rparr>] | _ \<Rightarrow> wm_conns t)"
  shows "writers_ok t' ws"
proof -
  note f = conns_frame [OF assms(2)]
  show ?thesis unfolding list_all2_conv_all_nth
    using writer_okD [OF assms(1)] f(1-3) by (auto simp: writer_ok_def)
qed

lemma with_sent_writers:
  assumes ok: "writers_ok t ws" and c: "ws_open t conn" and w: "ww_pc (ws ! conn) = Waiting" and data: "is_event data"
  shows "writers_ok (with_sent data {conn} t) (ws[conn := (ws ! conn)\<lparr>ww_pc := WritingOut data\<rparr>])"
proof -
  note D = writer_okD [OF ok]
  show ?thesis unfolding list_all2_conv_all_nth
  proof (intro conjI allI impI)
    fix i assume i: "i < length (wm_conns (with_sent data {conn} t))"
    then show "writer_ok (wm_conns (with_sent data {conn} t) ! i) (ws[conn := (ws ! conn)\<lparr>ww_pc := WritingOut data\<rparr>] ! i)"
      using D(1) D(2) [of i] w data by (cases "i = conn") (simp_all add: writer_ok_def)
  qed (simp add: D(1))
qed

text \<open>With the writers, the goroutine \<open>readEvents\<close> takes the steps of \<open>WsFeed\<close> or waits.\<close>

lemma feed_step_refines:
  assumes "writers_ok t ws" and "feed_ok t pc" and "feed_step read yield pc t ws b = Some (pc', t', ws', b')"
  shows "(pc', t', ws', b') = (pc, t, ws, b) \<or> read_events_step read yield pc t b = Some (pc', t', b')"
  using assms(3) by (cases pc) (auto simp: feed_step_def bind_Some_iff split: if_splits)

lemma feed_step_other:
  "sending_to pc = None \<Longrightarrow> feed_step read yield pc t ws b
     = map_option (\<lambda>(pc, t, b). (pc, t, ws, b)) (read_events_step read yield pc t b)"
  by (cases pc; cases "read_events_step read yield pc t b") (auto simp: feed_step_def)

lemma not_sending:
  assumes "read_events_step read yield pc t b = Some (pc', t', b')" and "sending_to pc = None"
  shows "t' = t"
proof (cases "pc = Reading")
  case True
  with assms(1) obtain got b1 where "read b = Some (got, b1)" by (auto simp: read_events_step_def bind_Some_iff)
  with assms(1) True show ?thesis
    by (cases got) (auto simp: read_events_step_def split: option.split_asm if_split_asm)
qed (use assms in \<open>cases pc; auto simp: read_events_step_def split: option.split_asm\<close>)

lemma feed_step_ok:
  assumes sys: "ws_sys_ok s (t, b)" and feed: "feed_ok t pc" and al: "feed_allows yield pc t" and ws: "writers_ok t ws"
    and target: "target_open t pc"
  shows "\<exists>pc' t' ws' b'. feed_step (sub_read s) yield pc t ws b = Some (pc', t', ws', b')
    \<and> ws_sys_ok s (t', b') \<and> feed_ok t' pc' \<and> writers_ok t' ws'"
proof -
  obtain pc' t' b' where st: "read_events_step (sub_read s) yield pc t b = Some (pc', t', b')" "ws_sys_ok s (t', b')" "feed_ok t' pc'"
    using read_events_step_ok [OF sys feed al target] by blast
  show ?thesis
  proof (cases pc)
    case (Sending r old seen data conn)
    with feed target have o: "ws_open t conn" and d: "is_event data" by simp_all
    then have conn: "conn < length (wm_conns t)" "conn < length ws" "\<not> mc_closed (wm_conns t ! conn)"
      using writer_okD(1) [OF ws] by (simp_all add: ws_open_def)
    show ?thesis
    proof (cases "ww_pc (ws ! conn) = Waiting")
      case True
      have "t' = with_sent data {conn} t"
        using st(1) Sending by (simp add: read_events_step_def ws_send_one [OF o])
      then show ?thesis using Sending st conn True with_sent_writers [OF ws o True d] by (simp add: feed_step_def)
    next
      case False
      then show ?thesis using Sending sys feed ws conn by (simp add: feed_step_def)
    qed
  qed (use st ws in \<open>auto simp: feed_step_other dest: not_sending\<close>)
qed

text \<open>With its target closed it panics, whether it waited or not.\<close>

lemma feed_step_panics:
  assumes "writers_ok t ws" and "feed_ok t pc" and "\<not> target_open t pc"
  shows "feed_step read yield pc t ws b = None"
proof (cases pc)
  case (Sending r old seen data conn)
  then have "conn < length (wm_conns t)" "conn < length ws" "mc_closed (wm_conns t ! conn)"
    using assms writer_okD(1) [OF assms(1)] by (simp_all add: ws_open_def)
  moreover have "read_events_step read yield pc t b = None" by (rule read_events_step_panics [OF assms(2,3)])
  ultimately show ?thesis using Sending by (simp add: feed_step_def)
qed (use assms(3) in simp_all)

text \<open>A write that does not return holds the goroutine that forwards the events.\<close>

lemma feed_step_waits:
  assumes "writers_ok t ws" and "ws_open t conn" and "ww_pc (ws ! conn) = WritingOut x"
  shows "feed_step read yield (Sending r old seen data conn) t ws b = Some (Sending r old seen data conn, t, ws, b)"
  using assms writer_okD(1) [OF assms(1)] by (simp add: feed_step_def ws_open_def)

end
