(* ===== verification/Program.thy ===== *)
theory Program
  imports HandlerContracts Servers Backend WsWriter
begin

text \<open>
  \<open>main.go\<close>: how the parts are put together, and the whole program as a machine. Its state is the
  database, the streaming side with its connections, viewers and bus, and the topic transport, whose
  subscriber is the bus's first. A step is a request to the HTTP server, an incoming RTMP connection, or a
  step of something that runs already.
\<close>

section \<open>The state\<close>

record 'db program =
  pr_db :: 'db
  pr_backend :: backend
  pr_events :: ws_main
  pr_feed :: feed_pc
  pr_writers :: "ws_writer list"

abbreviation pr_bus :: "'db program \<Rightarrow> event_bus" where
  "pr_bus p \<equiv> sv_bus (bk_server (pr_backend p))"

definition event_subscriber :: nat where
  "event_subscriber = fst (new_subscriber new_bus)"

text \<open>The state when the servers start.\<close>

definition init_program :: "'db \<Rightarrow> 'db program" where
  "init_program db =
     \<lparr>pr_db = db,
      pr_backend = \<lparr>bk_server = init_server\<lparr>sv_bus := snd (new_subscriber new_bus)\<rparr>, bk_conns = []\<rparr>,
      pr_events = new_ws_main, pr_feed = Reading, pr_writers = []\<rparr>"

text \<open>The start of \<open>main\<close>, which ends the process without valid settings or without the database.\<close>

definition start_program ::
    "(string \<Rightarrow> string) \<Rightarrow> (string \<Rightarrow> go_error + 'c) \<Rightarrow> ('c \<Rightarrow> go_error option) \<Rightarrow> 'db \<Rightarrow> (fatal + go_error) + config \<times> 'db program" where
  "start_program getenv open_db ping db =
     (case new_config getenv of
        Inl f \<Rightarrow> Inl (Inl f)
      | Inr conf \<Rightarrow>
          (case new_client open_db ping (cf_databaseURL conf) of
             Inl e \<Rightarrow> Inl (Inr e)
           | Inr c \<Rightarrow> Inr (conf, init_program db)))"

text \<open>The database client is shared by the handlers and sees only its part of the state.\<close>

definition on_db :: "'db sql_query \<Rightarrow> 'db program sql_query" where
  "on_db query sql args p = (case query sql args (pr_db p) of (r, db) \<Rightarrow> (r, p\<lparr>pr_db := db\<rparr>))"

definition commit_db ::
    "('db \<Rightarrow> 'db \<Rightarrow> go_error option \<times> 'db) \<Rightarrow> 'db program \<Rightarrow> 'db program \<Rightarrow> go_error option \<times> 'db program" where
  "commit_db commit p trx =
     (case commit (pr_db p) (pr_db trx) of
        (None, db) \<Rightarrow> (None, trx\<lparr>pr_db := db\<rparr>)
      | (Some e, db) \<Rightarrow> (Some e, p\<lparr>pr_db := db\<rparr>))"

section \<open>Wiring\<close>

text \<open>The access token's settings; the refresh token is made with no secret and never used.\<close>

definition access_token :: "config \<Rightarrow> jwt_token" where
  "access_token conf = \<lparr>jt_secret = cf_jwtAccessTokenSecret conf, jt_duration = 60 * 60 * 24 * 30\<rparr>"

definition main_deps :: "config \<Rightarrow> 'db http_deps \<Rightarrow> 'db program http_deps" where
  "main_deps conf libs =
     \<lparr>hd_query = on_db (hd_query libs), hd_begin = hd_begin libs \<circ> pr_db, hd_commit = commit_db (hd_commit libs),
      hd_generate = hd_generate libs, hd_compare = hd_compare libs, hd_sign = hd_sign libs, hd_parse = hd_parse libs,
      hd_token = access_token conf, hd_json = hd_json libs, hd_decode = hd_decode libs\<rparr>"

text \<open>
  What the WebSocket libraries and the UUID library make of a request: the media connection or none, the
  identifier or none, whether the handshake of the topic transport succeeds, and what is written.
\<close>

record upgrade =
  up_conn :: "conn option"
  up_uuid :: "string option"
  up_accepted :: bool
  up_answer :: "writer \<Rightarrow> writer"

text \<open>The transports as handlers: each starts something that then runs by steps of its own.\<close>

definition ws_media_handler :: "ws_lib \<Rightarrow> upgrade \<Rightarrow> 'db program handler" where
  "ws_media_handler lib up req ws =
     (case ws of (w, p) \<Rightarrow> do {
        b \<leftarrow> backend_exec lib (Viewer (Serve (up_conn up) (rq_path req) (up_uuid up) (rq_remoteAddr req))) (pr_backend p);
        Some (up_answer up w, p\<lparr>pr_backend := b\<rparr>)
      })"

definition open_events :: "'db program \<Rightarrow> 'db program" where
  "open_events p = p\<lparr>pr_events := snd (new_ws_conn (pr_events p)), pr_writers := pr_writers p @ [new_ws_writer]\<rparr>"

definition ws_main_handler :: "upgrade \<Rightarrow> 'db program handler" where
  "ws_main_handler up req ws =
     (case ws of (w, p) \<Rightarrow>
        Some (up_answer up w, if up_accepted up then open_events p else p))"

definition main_handlers :: "ws_lib \<Rightarrow> upgrade \<Rightarrow> (string \<times> 'db program handler) list" where
  "main_handlers lib up = [(''/ws/streams/'', ws_media_handler lib up), (''/ws/main'', ws_main_handler up)]"

text \<open>What the program serves over HTTP; \<open>fallback\<close> is what the mux writes when no pattern fits.\<close>

definition main_http ::
    "config \<Rightarrow> 'db http_deps \<Rightarrow> ws_lib \<Rightarrow> (request \<Rightarrow> writer \<Rightarrow> writer) \<Rightarrow> http_oracle \<Rightarrow> upgrade \<Rightarrow> 'db program handler" where
  "main_http conf libs lib fallback ora up =
     run_server (main_deps conf libs) ora (main_handlers lib up)
       (\<lambda>req (w, p). Some (fallback req w, p)) (cf_httpAllowedOrigins conf)"

text \<open>The stream key service as \<open>onConnect\<close> uses it.\<close>

definition conn_key :: "'db sql_query \<Rightarrow> string option \<Rightarrow> 'db \<Rightarrow> (go_error + u64) \<times> 'db" where
  "conn_key query connect db =
     (case connect of
        None \<Rightarrow> (Inl (LibErr ''no connect message''), db)
      | Some appName \<Rightarrow>
          (case sk_get_by_key query (trim_prefix appName ''live/'') db of
             (Inl e, db) \<Rightarrow> (Inl (WrapErr ''get stream key'' e), db)
           | (Inr k, db) \<Rightarrow> (Inr (sk_userID k), db)))"

section \<open>The machine\<close>

datatype program_op =
  Request http_oracle upgrade request
| Incoming "string option" bool
| Streaming backend_op
| Events ws_op
| Feed "nat option"
| Written nat bool

definition with_bus :: "event_bus \<Rightarrow> 'db program \<Rightarrow> 'db program" where
  "with_bus b p = p\<lparr>pr_backend :=
     (pr_backend p)\<lparr>bk_server := on_world (bk_world (pr_backend p)) b (bk_server (pr_backend p))\<rparr>\<rparr>"

text \<open>\<open>net/http\<close> recovers from a handler that panics.\<close>

fun program_exec ::
    "config \<Rightarrow> 'db http_deps \<Rightarrow> ws_lib \<Rightarrow> (request \<Rightarrow> writer \<Rightarrow> writer) \<Rightarrow> program_op \<Rightarrow> 'db program \<Rightarrow> 'db program option" where
  "program_exec conf libs lib fallback (Request ora up req) p =
     (case main_http conf libs lib fallback ora up req (new_writer, p) of
        None \<Rightarrow> Some p
      | Some (w, p) \<Rightarrow> Some p)"
| "program_exec conf libs lib fallback (Incoming connect accepted) p =
     (case conn_key (hd_query libs) connect (pr_db p) of (key, db) \<Rightarrow> do {
        b \<leftarrow> backend_exec lib (Accept (\<lambda>_. key) connect accepted) (pr_backend p);
        Some (p\<lparr>pr_db := db, pr_backend := b\<rparr>)
      })"
| "program_exec conf libs lib fallback (Streaming op) p = do {
     b \<leftarrow> backend_exec lib op (pr_backend p);
     Some (p\<lparr>pr_backend := b\<rparr>)
   }"
| "program_exec conf libs lib fallback (Events op) p = do {
     (t, b) \<leftarrow> ws_exec event_subscriber op (pr_events p, pr_bus p);
     Some (with_bus b (p\<lparr>pr_events := t\<rparr>))
   }"
| "program_exec conf libs lib fallback (Feed yield) p = do {
     (pc, t, ws, b) \<leftarrow> feed_step (sub_read event_subscriber) yield (pr_feed p) (pr_events p) (pr_writers p) (pr_bus p);
     Some (with_bus b (p\<lparr>pr_events := t, pr_feed := pc, pr_writers := ws\<rparr>))
   }"
| "program_exec conf libs lib fallback (Written conn failed) p = do {
     c \<leftarrow> deref (wm_conns (pr_events p)) conn;
     w \<leftarrow> deref (pr_writers p) conn;
     Some (p\<lparr>pr_writers := (pr_writers p)[conn := read_data_step (mc_closed c) failed w]\<rparr>)
   }"

text \<open>
  What the runtime guarantees, what the sizes are, and who makes a step: what runs already goes on; new
  sessions and connections start only by \<open>Request\<close> and \<open>Incoming\<close>, and events are forwarded by \<open>Feed\<close>.
\<close>

fun goes_on :: "program_op \<Rightarrow> bool" where
  "goes_on (Streaming (Viewer (Advance perm failed k))) = True"
| "goes_on (Streaming (Viewer (MediaOp op))) = True"
| "goes_on (Streaming (Conn k pp perm rtss i)) = True"
| "goes_on (Streaming _) = False"
| "goes_on (Events ws_op.Connect) = False"
| "goes_on (Events (Bus op)) = False"
| "goes_on _ = True"

fun program_allowed :: "program_op \<Rightarrow> 'db program \<Rightarrow> bool" where
  "program_allowed (Request ora up req) p = True"
| "program_allowed (Incoming connect accepted) p = True"
| "program_allowed (Streaming op) p = (goes_on (Streaming op) \<and> backend_allowed op (pr_backend p))"
| "program_allowed (Events op) p = (goes_on (Events op) \<and> ws_allowed event_subscriber op (pr_events p, pr_bus p))"
| "program_allowed (Feed yield) p = feed_allows yield (pr_feed p) (pr_events p)"
| "program_allowed (Written conn failed) p = (conn < length (pr_writers p))"

text \<open>
  Two races are left. A step stores a publisher over the one that another connection of the same user has
  stored since the check: runs with such a step are set apart by \<open>store_races\<close>. And the goroutine
  \<open>readEvents\<close> is about to send to a connection that has been closed since it got it from its range: then
  its next step panics.
\<close>

fun store_races :: "program_op \<Rightarrow> 'db program \<Rightarrow> bool" where
  "store_races (Streaming op) p = overwrites op (pr_backend p)"
| "store_races _ p = False"

fun sends_on_closed :: "program_op \<Rightarrow> 'db program \<Rightarrow> bool" where
  "sends_on_closed (Feed yield) p =
     (case sending_to (pr_feed p) of
        None \<Rightarrow> False
      | Some conn \<Rightarrow> mc_closed (wm_conns (pr_events p) ! conn))"
| "sends_on_closed _ p = False"

section \<open>The invariant\<close>

text \<open>A connection publishes for a user who has an active stream key.\<close>

definition has_key :: "('db \<Rightarrow> stream_key list) \<Rightarrow> 'db \<Rightarrow> rtmp_conn \<Rightarrow> bool" where
  "has_key skeys db c \<longleftrightarrow> (\<exists>k \<in> set (skeys db). sk_userID k = rs_userID (rc_session c) \<and> sk_active k)"

definition program_ok :: "('db \<Rightarrow> stream_key list) \<Rightarrow> ('db \<Rightarrow> bool) \<Rightarrow> 'db program \<Rightarrow> bool" where
  "program_ok skeys valid p \<longleftrightarrow> valid (pr_db p) \<and> backend_ok (pr_backend p)
     \<and> ws_sys_ok event_subscriber (pr_events p, pr_bus p) \<and> feed_ok (pr_events p) (pr_feed p)
     \<and> writers_ok (pr_events p) (pr_writers p)
     \<and> (\<forall>c \<in> set (bk_conns (pr_backend p)). has_key skeys (pr_db p) c)"

end
