(* ===== verification/BackendOk.thy ===== *)
theory BackendOk
  imports Backend
begin

text \<open>
  Every step of the streaming side keeps its invariant: the table of the media channel holds exactly the
  publishers of the connections on air, every session has a consumer of its own, and the queues hold only
  messages that the handlers of \<open>transport/rtmp\<close> make.
\<close>

section \<open>Frames\<close>

lemma effect_unpublished:
  "effect Q q I w w' \<Longrightarrow> unpublished p w \<Longrightarrow> \<not> unpublished q w \<Longrightarrow> unpublished p w'"
  unfolding effect_def unpublished_def live_def by metis

lemma conn_ok_effect:
  assumes "conn_ok w c" and "effect Q q I w w'" and "\<not> unpublished q w"
  shows "conn_ok w' c"
  using assms(1) effectD(2,4) [OF assms(2)] effect_unpublished [OF assms(2) _ assms(3)]
  by (simp add: conn_ok_def)

lemma conns_ok_effect:
  assumes "conns_ok w cs" and "effect Q q I w w'" and "\<not> unpublished q w"
  shows "conns_ok w' cs"
  using assms(1) conn_ok_effect [OF _ assms(2,3)] effect_live [OF assms(2)] by (simp add: conns_ok_def)

lemma live_not_unpublished: "p \<in> live w \<Longrightarrow> \<not> unpublished p w" "\<not> unpublished (length (w_pubs w)) w"
  by (simp_all add: unpublished_def)

lemma effect_cons_same:
  assumes "effect Q q I w w'" and "i \<notin> I"
  shows "w_cons w' ! i = w_cons w ! i" "closed_of w' i = closed_of w i" "queue_of w' i = queue_of w i"
  using effectD(8) [OF assms] by (simp_all add: closed_of_def queue_of_def)

lemma effect_nonmember:
  assumes "effect Q q I w w'" and "i \<notin> I" and "i \<notin> members w p"
  shows "i \<notin> members w' p"
proof (cases "p = q")
  case True
  then show ?thesis using effectD(6) [OF assms(1)] assms(2,3) by blast
next
  case False
  then show ?thesis using effectD(5) [OF assms(1) False] assms(3) by (simp add: members_def)
qed

lemma waiting_effect:
  assumes "waiting i w" and "effect Q q I w w'" and "i \<notin> I"
  shows "waiting i w'"
  using assms(1) effect_cons_same [OF assms(2,3)] effectD(3) [OF assms(2)] effect_live [OF assms(2)]
    effect_nonmember [OF assms(2,3)]
  by (simp add: waiting_def)

lemma effect_pubID: "effect Q q I w w' \<Longrightarrow> wc_pubID (w_cons w' ! i) = wc_pubID (w_cons w ! i)"
  using effectD(7) [of Q q I w w' i] by (simp add: ids_of_def)

lemma views_ok_effect:
  assumes "views_ok w vs" and "effect Q q I w w'" and "\<And>v. v \<in> set vs \<Longrightarrow> vs_pc v = Joining \<Longrightarrow> vs_consumer v \<notin> I"
  shows "views_ok w' vs"
  using assms(1,3) waiting_effect [OF _ assms(2)] effect_pubID [OF assms(2)] by (simp add: views_ok_def view_ok_def)

lemma queues_typed_effect: "queues_typed w \<Longrightarrow> effect well_typed q I w w' \<Longrightarrow> queues_typed w'"
  unfolding queues_typed_def effect_def by metis

text \<open>A session that advances to a later program counter.\<close>

lemma views_ok_update:
  assumes "views_ok w vs" and "k < length vs" and "pc \<noteq> Joining \<or> vs_pc (vs ! k) = Joining"
  shows "views_ok w (vs[k := (vs ! k)\<lparr>vs_pc := pc\<rparr>])"
proof -
  let ?v = "(vs ! k)\<lparr>vs_pc := pc\<rparr>"
  have "map vs_consumer (vs[k := ?v]) = map vs_consumer vs"
    using assms(2) by (simp add: map_update list_update_same_conv)
  moreover have "view_ok w ?v"
    using assms by (auto simp: views_ok_def view_ok_def)
  ultimately show ?thesis
    using assms(1) set_update_subset_insert [of vs k ?v] by (auto simp: views_ok_def simp del: map_update)
qed

text \<open>The table changes only by the two calls of the media channel.\<close>

lemma views_ok_chan:
  assumes "views_ok w vs" and "w_cons w' = w_cons w" and "\<And>i p. p \<in> live w' \<Longrightarrow> i \<in> members w' p \<Longrightarrow> p \<in> live w \<and> i \<in> members w p"
  shows "views_ok w' vs"
  using assms by (fastforce simp: views_ok_def view_ok_def waiting_def closed_of_def queue_of_def)

section \<open>Viewers\<close>

lemma serve_http_cases:
  assumes "serve_http lib upgraded path uuid addr m = Some (v, m')"
  obtains "v = None" "m' = m"
  | k i u cid where "upgraded = Some k" "get_publisher_id path = Inr (i, u)" "uuid = Some cid"
      "v = Some \<lparr>vs_consumer = length (w_cons (ms_world m)), vs_user = u, vs_addr = addr, vs_pc = Joining\<rparr>"
      "m' = m\<lparr>ms_world := snd (add_cons_obj (new_ws_consumer lib cid i k) (ms_world m)),
        ms_pc := (ms_pc m)(length (w_cons (ms_world m)) := Writing)\<rparr>"
  using assms by (auto simp: serve_http_def exec_def add_cons_obj_def Let_def split: option.splits sum.splits)

lemma parse_requested: "get_publisher_id path = Inr (i, u) \<Longrightarrow> parse_uint i = Some u"
  using get_publisher_id_sound by blast

lemma add_cons_obj_frame:
  "w_pubs (snd (add_cons_obj c w)) = w_pubs w" "w_chan (snd (add_cons_obj c w)) = w_chan w"
  "length (w_cons (snd (add_cons_obj c w))) = Suc (length (w_cons w))"
  "i < length (w_cons w) \<Longrightarrow> w_cons (snd (add_cons_obj c w)) ! i = w_cons w ! i"
  "w_cons (snd (add_cons_obj c w)) ! length (w_cons w) = c"
  by (simp_all add: add_cons_obj_def nth_append)

lemma add_cons_obj_views:
  fixes lib cid k
  assumes ok: "media_ok H w" and views: "views_ok w vs" and bound: "\<And>v. v \<in> set vs \<Longrightarrow> vs_consumer v < length (w_cons w)"
    and i: "parse_uint i = Some u"
  defines "w' \<equiv> snd (add_cons_obj (new_ws_consumer lib cid i k) w)"
  shows "views_ok w' (vs @ [\<lparr>vs_consumer = length (w_cons w), vs_user = u, vs_addr = addr, vs_pc = Joining\<rparr>])"
proof -
  note fr = add_cons_obj_frame [where c = "new_ws_consumer lib cid i k" and w = w, folded w'_def]
  note add = add_cons_obj_ok [OF ok refl, of lib cid i k, folded w'_def]
  have mem: "members w' p = members w p" for p by (simp add: members_def fr)
  have "view_ok w' v" if v: "v \<in> set vs" for v
    using views v fr(4) [OF bound [OF v]] bound [OF v] fr(3) add(3) mem
    by (simp add: views_ok_def view_ok_def waiting_def closed_of_def queue_of_def)
  moreover have "wc_pubID (w_cons w' ! length (w_cons w)) = i" by (simp add: fr(5) new_ws_consumer_def)
  moreover have "waiting (length (w_cons w)) w'" using add(2) by (simp add: add_cons_obj_def)
  ultimately show ?thesis
    using views bound i by (force simp: views_ok_def view_ok_def)
qed

lemma get_publisher_live: "get_publisher x w = Some p \<Longrightarrow> p \<in> live w"
  unfolding get_publisher_def live_iff by (blast dest: map_of_SomeD)

definition touched :: "consumer_ref set \<Rightarrow> media_world \<Rightarrow> media_world \<Rightarrow> bool" where
  "touched I w w' \<longleftrightarrow> (\<exists>q. effect well_typed q I w w' \<and> \<not> unpublished q w)"

lemma touched_refl: "touched I w w"
  using live_not_unpublished(2) by (auto simp: touched_def)

lemma touchedI: "effect well_typed q I w w' \<Longrightarrow> q \<in> live w \<or> q = length (w_pubs w) \<Longrightarrow> touched I w w'"
  using live_not_unpublished by (auto simp: touched_def)

lemma session_step_touched:
  assumes "session_step publish perm failed i u ip pc (w, ss, b) = Some (pc', w', ss', b')"
  shows "touched {i} w w'" and "pc' \<noteq> Joining"
proof -
  have join: "touched {i} w v" if "mc_add_consumer i w = Some (e, v)" for e v
    using mc_add_consumer_effect [where Q = well_typed and I = "{i}", OF that _ held_typed] get_publisher_live touchedI touched_refl
    by fastforce
  have leave: "touched {i} w v" if "mc_remove_consumer i w = Some v" for v
    using mc_remove_consumer_effect [where Q = well_typed and I = "{i}", OF that] get_publisher_live touchedI touched_refl
    by fastforce
  have close: "touched {i} w v" if "close_conn i w = Some v" for v
    using close_conn_effect [where Q = well_typed and I = "{i}" and p = "length (w_pubs w)", OF that] touchedI by auto
  show "touched {i} w w'" using assms join leave close touched_refl
    by (cases pc) (auto simp: bind_Some_iff)
  show "pc' \<noteq> Joining" using assms by (cases pc) (auto simp: bind_Some_iff split: if_split_asm)
qed

text \<open>Everything but the server's own invariant, through a step that touches only \<open>I\<close>.\<close>

lemma touched_keeps:
  assumes "touched I w w'"
  shows "conns_ok w cs \<Longrightarrow> conns_ok w' cs"
    and "views_ok w vs \<Longrightarrow> (\<And>v. v \<in> set vs \<Longrightarrow> vs_pc v = Joining \<Longrightarrow> vs_consumer v \<notin> I) \<Longrightarrow> views_ok w' vs"
    and "queues_typed w \<Longrightarrow> queues_typed w'"
  using assms conns_ok_effect views_ok_effect queues_typed_effect unfolding touched_def by blast+

lemma views_distinct:
  assumes "views_ok w vs" and "k < length vs" and "vs_pc (vs ! k) \<noteq> Joining" and "v \<in> set vs" and "vs_pc v = Joining"
  shows "vs_consumer v \<noteq> vs_consumer (vs ! k)"
proof -
  obtain j where j: "j < length vs" "v = vs ! j" using assms(4) by (auto simp: in_set_conv_nth)
  then have "j \<noteq> k" using assms(3,5) by auto
  then show ?thesis using j assms(1,2) by (simp add: views_ok_def distinct_conv_nth)
qed

lemma viewer_server_allowed:
  assumes "backend_ok s" and "viewer_allowed op (bk_server s)"
  shows "server_allowed op (bk_server s)"
proof (cases op)
  case (Advance perm failed k)
  let ?v = "sv_sessions (bk_server s) ! k"
  have "k < length (sv_sessions (bk_server s))" using assms(2) Advance by simp
  then have "view_ok (bk_world s) ?v" using assms(1) by (simp add: backend_ok_def views_ok_def)
  then show ?thesis using assms(2) Advance by (simp add: view_ok_def)
next
  case (MediaOp mop)
  then show ?thesis using assms(2) by (cases mop) simp_all
qed (use assms(2) in simp_all)

text \<open>What a step of the server leaves to show.\<close>

definition streams_ok :: "server \<Rightarrow> rtmp_conn list \<Rightarrow> bool" where
  "streams_ok v cs \<longleftrightarrow> ms_held (sv_media v) = {#} \<and> conns_ok (ms_world (sv_media v)) cs
     \<and> views_ok (ms_world (sv_media v)) (sv_sessions v) \<and> queues_typed (ms_world (sv_media v))"

lemma backend_ok_streams: "backend_ok s \<longleftrightarrow> server_ok (bk_server s) \<and> streams_ok (bk_server s) (bk_conns s)"
  by (auto simp: backend_ok_def streams_ok_def)

lemma serve_streams:
  assumes ok: "server_ok v" and st: "streams_ok v cs" and run: "server_exec lib (Serve upgraded path uuid addr) v = Some v'"
  shows "streams_ok v' cs"
proof -
  let ?w = "ms_world (sv_media v)"
  note D = server_okD [OF ok]
  from run obtain x m where x: "serve_http lib upgraded path uuid addr (sv_media v) = Some (x, m)"
    and v': "v' = v\<lparr>sv_media := m, sv_sessions := sv_sessions v @ (case x of None \<Rightarrow> [] | Some y \<Rightarrow> [y])\<rparr>"
    by (auto simp: bind_Some_iff)
  from x show ?thesis
  proof (cases rule: serve_http_cases)
    case 1
    then show ?thesis using st v' by simp
  next
    case (2 k i u cid)
    let ?w' = "snd (add_cons_obj (new_ws_consumer lib cid i k) ?w)"
    note fr = add_cons_obj_frame [where c = "new_ws_consumer lib cid i k" and w = ?w]
    have live: "live ?w' = live ?w" by (simp add: live_def fr)
    have bound: "vs_consumer y < length (w_cons ?w)" if "y \<in> set (sv_sessions v)" for y
      using that D(4) by (auto simp: in_set_conv_nth)
    have "views_ok ?w' (sv_sessions v @ [\<lparr>vs_consumer = length (w_cons ?w), vs_user = u, vs_addr = addr, vs_pc = Joining\<rparr>])"
      by (rule add_cons_obj_views [OF D(1) _ bound parse_requested [OF 2(2)]]) (use st in \<open>simp add: streams_ok_def\<close>)
    moreover have "conn_ok ?w' c = conn_ok ?w c" for c by (simp add: conn_ok_def unpublished_def live fr)
    then have "conns_ok ?w' cs" using st by (simp add: streams_ok_def conns_ok_def live)
    moreover have "queues_typed ?w'"
    proof -
      have "ch_queue (wc_messages (new_ws_consumer lib cid i k)) = []" by (simp add: new_ws_consumer_def make_chan_def)
      then have "queue_of ?w' j = (if j < length (w_cons ?w) then queue_of ?w j else [])" if "j < Suc (length (w_cons ?w))" for j
        using that fr(4,5) by (auto simp: queue_of_def less_Suc_eq)
      then show ?thesis using st by (simp add: streams_ok_def queues_typed_def fr) blast
    qed
    ultimately show ?thesis using st 2(4,5) v' by (simp add: streams_ok_def)
  qed
qed

lemma advance_streams:
  assumes st: "streams_ok v cs" and run: "server_exec lib (Advance perm failed k) v = Some v'"
  shows "streams_ok v' cs"
proof -
  let ?w = "ms_world (sv_media v)" and ?y = "sv_sessions v ! k"
  from run obtain pc w' ss b where k: "k < length (sv_sessions v)"
    and step: "session_step bus_publish perm failed (vs_consumer ?y) (vs_user ?y) (vs_addr ?y) (vs_pc ?y)
      (?w, sv_viewers v, sv_bus v) = Some (pc, w', ss, b)"
    and v': "v' = v\<lparr>sv_media := (sv_media v)\<lparr>ms_world := w'\<rparr>, sv_viewers := ss, sv_bus := b,
      sv_sessions := (sv_sessions v)[k := ?y\<lparr>vs_pc := pc\<rparr>]\<rparr>"
    by (auto simp: bind_Some_iff)
  note t = session_step_touched [OF step]
  let ?vs = "(sv_sessions v)[k := ?y\<lparr>vs_pc := pc\<rparr>]"
  have views: "views_ok ?w ?vs"
    by (rule views_ok_update) (use st k t(2) in \<open>simp_all add: streams_ok_def\<close>)
  have "views_ok w' ?vs"
    using touched_keeps(2) [OF t(1) views] views_distinct [OF views, of k] k t(2) by simp
  then show ?thesis using st v' touched_keeps(1,3) [OF t(1)] by (simp add: streams_ok_def)
qed

lemma waiting_blocked: "waiting i w \<Longrightarrow> read_messages_step lib i pc w = Some Blocked"
  using take_message_empty [of i w] by (cases pc) (auto simp: waiting_def queue_of_def closed_of_def)

lemma read_streams:
  assumes st: "streams_ok v cs" and run: "server_exec lib (MediaOp (Read i)) v = Some v'"
  shows "streams_ok v' cs"
proof -
  let ?m = "sv_media v"
  from run obtain r where r: "read_messages_step lib i (ms_pc ?m i) (ms_world ?m) = Some r"
    by (auto simp: exec_def bind_Some_iff)
  have v': "v' = (case r of Blocked \<Rightarrow> v | Stepped pc w \<Rightarrow> v\<lparr>sv_media := ?m\<lparr>ms_world := w, ms_pc := (ms_pc ?m)(i := pc)\<rparr>\<rparr>)"
    using run r by (cases r) (simp_all add: exec_def)
  show ?thesis
  proof (cases r)
    case Blocked
    then show ?thesis using st v' by simp
  next
    case (Stepped pc w)
    have "effect well_typed (length (w_pubs (ms_world ?m))) {i} (ms_world ?m) w"
      by (rule read_messages_step_effect) (use r Stepped in auto)
    then have t: "touched {i} (ms_world ?m) w" by (simp add: touchedI)
    have "vs_consumer y \<noteq> i" if "y \<in> set (sv_sessions v)" "vs_pc y = Joining" for y
      using that st waiting_blocked [of i "ms_world ?m"] r Stepped
      by (auto simp: streams_ok_def views_ok_def view_ok_def)
    then show ?thesis using st v' Stepped touched_keeps [OF t] by (simp add: streams_ok_def)
  qed
qed

lemma viewer_step_ok:
  assumes ok: "backend_ok s" and al: "viewer_allowed op (bk_server s)"
  shows "\<exists>s'. backend_exec lib (Viewer op) s = Some s' \<and> backend_ok s'"
proof -
  have srv: "server_ok (bk_server s)" and st: "streams_ok (bk_server s) (bk_conns s)"
    using ok by (simp_all add: backend_ok_streams)
  obtain v where v: "server_exec lib op (bk_server s) = Some v" "server_ok v"
    using server_exec_ok [OF srv viewer_server_allowed [OF ok al]] by blast
  have "streams_ok v (bk_conns s)"
  proof (cases op)
    case (Serve upgraded path uuid addr)
    then show ?thesis using serve_streams [OF srv st] v(1) by simp
  next
    case (Advance perm failed k)
    then show ?thesis using advance_streams [OF st] v(1) by simp
  next
    case (MediaOp mop)
    then show ?thesis using al read_streams [OF st] v(1) by (cases mop) auto
  next
    case (BusOp bop)
    then show ?thesis using st v(1) by (auto simp: bind_Some_iff streams_ok_def)
  qed (use al in simp)
  then show ?thesis using v by (simp add: backend_ok_streams)
qed

section \<open>Publishing connections in the machine\<close>

lemma on_world_ok:
  assumes ok: "server_ok v" and m: "media_ok (ms_held (sv_media v)) w" and b: "bus_ok b"
    and len: "length (w_cons w) = length (w_cons (ms_world (sv_media v)))"
  shows "server_ok (on_world w b v)"
  using ok m b len by (simp add: server_ok_def sys_ok_def on_world_def)

lemma streams_on_world:
  assumes "streams_ok v cs" and "conns_ok w cs'" and "views_ok w (sv_sessions v)" and "queues_typed w"
  shows "streams_ok (on_world w b v) cs'"
  using assms by (simp add: streams_ok_def on_world_def)

lemma backend_okD:
  assumes "backend_ok s"
  shows "server_ok (bk_server s)" "streams_ok (bk_server s) (bk_conns s)" "media_ok {#} (bk_world s)"
    "ms_held (sv_media (bk_server s)) = {#}" "bus_ok (sv_bus (bk_server s))"
    "conns_ok (bk_world s) (bk_conns s)" "views_ok (bk_world s) (sv_sessions (bk_server s))" "queues_typed (bk_world s)"
  using assms server_okD(1) [of "bk_server s"] server_okD(2) [of "bk_server s"]
  by (simp_all add: backend_ok_def streams_ok_def)

text \<open>A new world for all parts of the invariant at once.\<close>

lemma backend_okI:
  assumes ok: "backend_ok s" and m: "media_ok {#} w" and b: "bus_ok b"
    and len: "length (w_cons w) = length (w_cons (bk_world s))"
    and c: "conns_ok w cs" and v: "views_ok w (sv_sessions (bk_server s))" and q: "queues_typed w"
  shows "backend_ok (s\<lparr>bk_server := on_world w b (bk_server s), bk_conns := cs\<rparr>)"
proof -
  note D = backend_okD [OF ok]
  show ?thesis
    using on_world_ok [OF D(1) _ b len] streams_on_world [OF D(2) c v q] m D(4) by (simp add: backend_ok_streams)
qed

lemma new_publisher_frame:
  assumes "new_publisher x w = (p, w')"
  shows "p = length (w_pubs w)" "length (w_pubs w') = Suc (length (w_pubs w))" "q < length (w_pubs w) \<Longrightarrow> w_pubs w' ! q = w_pubs w ! q"
    "w_cons w' = w_cons w" "w_chan w' = w_chan w"
  using assms by (auto simp: new_publisher_def nth_append Let_def)

lemma conns_ok_new_publisher:
  assumes cs: "conns_ok w cs" and m: "media_ok H w" and np: "new_publisher x w = (p, w')"
  shows "conns_ok w' cs"
    and "publishing p s \<Longrightarrow> format_uint (rs_userID s) = x \<Longrightarrow> conns_ok w' (cs @ [\<lparr>rc_session = s, rc_pc = Accepted\<rparr>])"
proof -
  note fr = new_publisher_frame [OF np]
  note n = new_publisher_ok [OF m, of x, unfolded np fst_conv snd_conv]
  have live: "live w' = live w" by (simp add: live_def fr)
  have old: "conn_ok w' c" if "c \<in> set cs" for c
  proof -
    have "conn_ok w c" using cs that by (simp add: conns_ok_def)
    then show ?thesis using fr(3) [of "conn_pub c"] by (simp add: conn_ok_def unpublished_def live fr(2))
  qed
  then show "conns_ok w' cs" using cs by (simp add: conns_ok_def live)
  assume s: "publishing p s" "format_uint (rs_userID s) = x"
  let ?c = "\<lparr>rc_session = s, rc_pc = Accepted\<rparr>"
  have p: "conn_pub ?c = p" using s(1) by (simp add: conn_pub_def publishing_def)
  have "conn_ok w' ?c" using n s by (simp add: conn_ok_def p unpublished_def)
  moreover have "p \<notin> conn_pub ` set cs" using cs fr(1) by (auto simp: conns_ok_def conn_ok_def)
  ultimately show "conns_ok w' (cs @ [?c])"
    using cs old by (auto simp: conns_ok_def live p on_air_def)
qed

lemma new_publisher_views:
  assumes "views_ok w vs" and "media_ok H w" and np: "new_publisher x w = (p, w')"
  shows "views_ok w' vs"
proof -
  note fr = new_publisher_frame [OF np]
  have live: "live w' = live w" by (simp add: live_def fr)
  have "members w' q = members w q" if "q \<in> live w" for q
    using fr(3) [OF live_bound [OF assms(2) that]] by (simp add: members_def)
  then show ?thesis by (intro views_ok_chan [OF assms(1) fr(4)]) (auto simp: live)
qed

lemma accept_step_ok:
  assumes ok: "backend_ok s"
  shows "\<exists>s'. backend_exec lib (Accept get_by_key connect accepted) s = Some s' \<and> backend_ok s'"
proof -
  let ?w = "bk_world s"
  note D = backend_okD [OF ok]
  have same: "backend_ok (s\<lparr>bk_server := on_world ?w (sv_bus (bk_server s)) (bk_server s)\<rparr>)"
    using backend_okI [OF ok D(3,5) refl D(6-8)] by simp
  show ?thesis
  proof (cases "\<exists>app u. connect = Some app \<and> get_by_key (trim_prefix app ''live/'') = Inr u")
    case False
    then have "accept_conn get_by_key connect accepted ?w = (None, ?w)"
      by (auto simp: accept_conn_def on_connect_def Let_def split: option.splits sum.splits)
    with same show ?thesis by simp
  next
    case True
    then obtain app u where u: "connect = Some app" "get_by_key (trim_prefix app ''live/'') = Inr u" by blast
    obtain p w' where np: "new_publisher (format_uint u) ?w = (p, w')" by fastforce
    note fr = new_publisher_frame [OF np]
    let ?s = "new_session\<lparr>rs_pub := Some p, rs_userID := u\<rparr>"
    have run: "accept_conn get_by_key connect accepted ?w = (if accepted then Some \<lparr>rc_session = ?s, rc_pc = Accepted\<rparr> else None, w')"
      using u np by (simp add: accept_conn_def on_connect_def Let_def)
    have "publishing p ?s" by (simp add: publishing_def new_session_def)
    note cs = conns_ok_new_publisher [OF D(6,3) np] conns_ok_new_publisher(2) [OF D(6,3) np this]
    have m: "media_ok {#} w'" using new_publisher_ok(1) [OF D(3), of "format_uint u"] np by simp
    have q: "queues_typed w'" using D(8) fr(4) by (simp add: queues_typed_def queue_of_def)
    have v: "views_ok w' (sv_sessions (bk_server s))" by (rule new_publisher_views [OF D(7,3) np])
    note new = backend_okI [OF ok m D(5) _ _ v q]
    show ?thesis using run new [of "bk_conns s"] new [of "bk_conns s @ [\<lparr>rc_session = ?s, rc_pc = Accepted\<rparr>]"] cs fr(4)
      by (cases accepted) simp_all
  qed
qed

text \<open>One connection goes on; its publisher stays the same.\<close>

lemma conns_ok_update:
  assumes cs: "conns_ok w cs" and k: "k < length cs" and old: "\<And>c. c \<in> set cs \<Longrightarrow> c \<noteq> cs ! k \<Longrightarrow> conn_ok w' c"
    and new: "conn_ok w' c'" and same: "conn_pub c' = conn_pub (cs ! k)"
    and live: "live w' = (if on_air c' then insert (conn_pub c') (live w) else live w - {conn_pub c'})"
  shows "conns_ok w' (cs[k := c'])"
proof -
  let ?cs = "cs[k := c']"
  have pubs: "map conn_pub ?cs = map conn_pub cs" using k same by (simp add: map_update list_update_same_conv)
  have dist: "distinct (map conn_pub cs)" using cs by (simp add: conns_ok_def)
  have at: "?cs ! j = (if j = k then c' else cs ! j)" for j using k by (simp add: nth_list_update)
  have other: "conn_pub (cs ! j) \<noteq> conn_pub c'" if "j < length cs" "j \<noteq> k" for j
    using dist that k same by (simp add: distinct_conv_nth)
  have "p \<in> conn_pub ` {c \<in> set ?cs. on_air c} \<longleftrightarrow> p \<in> live w'" for p
  proof -
    have "p \<in> conn_pub ` {c \<in> set ?cs. on_air c} \<longleftrightarrow> (\<exists>j < length cs. p = conn_pub (?cs ! j) \<and> on_air (?cs ! j))"
      by (auto simp: in_set_conv_nth image_iff Bex_def)
    also have "\<dots> \<longleftrightarrow> (p = conn_pub c' \<and> on_air c') \<or> (\<exists>j < length cs. j \<noteq> k \<and> p = conn_pub (cs ! j) \<and> on_air (cs ! j))"
      using k unfolding at by auto
    also have "\<dots> \<longleftrightarrow> (p = conn_pub c' \<and> on_air c') \<or> (p \<in> conn_pub ` {c \<in> set cs. on_air c} \<and> p \<noteq> conn_pub c')"
      using other same by (auto simp: in_set_conv_nth image_iff Bex_def)
    also have "\<dots> \<longleftrightarrow> p \<in> live w'" using cs live by (auto simp: conns_ok_def)
    finally show ?thesis .
  qed
  moreover have "conn_ok w' c" if "c \<in> set ?cs" for c
  proof -
    from that obtain j where "j < length cs" "c = ?cs ! j" by (auto simp: in_set_conv_nth)
    moreover have "cs ! j \<noteq> cs ! k" if "j \<noteq> k" using other [OF \<open>j < length cs\<close> that] same by auto
    ultimately show ?thesis using new old [of "cs ! j"] at by (cases "j = k") simp_all
  qed
  ultimately show ?thesis using dist by (auto simp: conns_ok_def pubs simp del: map_update)
qed

lemma handled_live: "handled H p w w' \<Longrightarrow> live w' = live w" "handled H p w w' \<Longrightarrow> media_ok H w'"
  by (simp_all add: handled_def)

lemma conn_pub_inj:
  assumes "conns_ok w cs" and "c \<in> set cs" and "d \<in> set cs" and "c \<noteq> d"
  shows "conn_pub c \<noteq> conn_pub d"
  using assms inj_onD [of conn_pub "set cs" c d] by (auto simp: conns_ok_def distinct_map)

lemma on_air_live: "conns_ok w cs \<Longrightarrow> c \<in> set cs \<Longrightarrow> on_air c \<Longrightarrow> conn_pub c \<in> live w"
  by (simp add: conns_ok_def)

text \<open>\<open>AddPublisher\<close>: the check, then the store.\<close>

lemma accepted_step:
  assumes ok: "backend_ok s" and k: "k < length (bk_conns s)" and pc: "rc_pc (bk_conns s ! k) = Accepted"
  shows "\<exists>s'. backend_exec lib (Conn k pp perm rtss i) s = Some s' \<and> backend_ok s'"
proof -
  let ?w = "bk_world s" and ?c = "bk_conns s ! k"
  note D = backend_okD [OF ok]
  have "?c \<in> set (bk_conns s)" using k by simp
  then have c: "conn_ok ?w ?c" using D(6) by (simp add: conns_ok_def)
  let ?p = "conn_pub ?c"
  have p: "rs_pub (rc_session ?c) = Some ?p" "unpublished ?p ?w" using c pc by (simp_all add: conn_ok_def publishing_def)
  have pl: "?p < length (w_pubs ?w)" "?p \<notin> live ?w" using p(2) by (simp_all add: unpublished_def)
  let ?c' = "?c\<lparr>rc_pc := if get_publisher (pub_id (w_pubs ?w ! ?p)) ?w = None then Checked else Done\<rparr>"
  have run: "conn_step bus_publish pp perm rtss i ?c ?w (sv_bus (bk_server s)) = Some (?c', ?w, sv_bus (bk_server s))"
    using pc p(1) pl(1) by (simp add: conn_step_def)
  have same: "conn_pub ?c' = ?p" by (simp add: conn_pub_def)
  have "conns_ok ?w ((bk_conns s)[k := ?c'])"
    by (rule conns_ok_update [OF D(6) k _ _ same])
      (use D(6) c pl(2) p(2) same in \<open>auto simp: conns_ok_def conn_ok_def on_air_def\<close>)
  from backend_okI [OF ok D(3,5) refl this D(7,8)] run k show ?thesis by simp
qed

lemma checked_step:
  assumes ok: "backend_ok s" and k: "k < length (bk_conns s)" and pc: "rc_pc (bk_conns s ! k) = Checked"
    and free: "get_publisher (pub_id (w_pubs (bk_world s) ! conn_pub (bk_conns s ! k))) (bk_world s) = None"
  shows "\<exists>s'. backend_exec lib (Conn k pp perm rtss i) s = Some s' \<and> backend_ok s'"
proof -
  let ?w = "bk_world s" and ?c = "bk_conns s ! k"
  note D = backend_okD [OF ok]
  have mem: "?c \<in> set (bk_conns s)" using k by simp
  then have c: "conn_ok ?w ?c" using D(6) by (simp add: conns_ok_def)
  let ?p = "conn_pub ?c"
  have p: "rs_pub (rc_session ?c) = Some ?p" "unpublished ?p ?w" using c pc by (simp_all add: conn_ok_def publishing_def)
  let ?c' = "?c\<lparr>rc_pc := Added\<rparr>" and ?w' = "?w\<lparr>w_chan := w_chan ?w @ [(pub_id (w_pubs ?w ! ?p), ?p)]\<rparr>"
  note add = store_publisher_new [OF D(3) p(2) free]
  have run: "conn_step bus_publish pp perm rtss i ?c ?w (sv_bus (bk_server s)) = Some (?c', ?w', sv_bus (bk_server s))"
    using add(1) pc p(1) by (simp add: conn_step_def)
  have same: "conn_pub ?c' = ?p" by (simp add: conn_pub_def)
  have cs: "conns_ok ?w' ((bk_conns s)[k := ?c'])"
  proof (rule conns_ok_update [OF D(6) k _ _ same])
    show "conn_ok ?w' d" if "d \<in> set (bk_conns s)" "d \<noteq> ?c" for d
    proof -
      have "conn_ok ?w d" using D(6) that(1) by (simp add: conns_ok_def)
      then show ?thesis using conn_pub_inj [OF D(6) that(1) mem that(2)] by (simp add: conn_ok_def unpublished_def add(3))
    qed
    show "conn_ok ?w' ?c'" using c same by (simp add: conn_ok_def)
    show "live ?w' = (if on_air ?c' then insert (conn_pub ?c') (live ?w) else live ?w - {conn_pub ?c'})"
      by (simp add: add(3) on_air_def same)
  qed
  have "members ?w' ?p = {}" using p(2) by (simp add: members_def unpublished_def)
  then have v: "views_ok ?w' (sv_sessions (bk_server s))"
    by (intro views_ok_chan [OF D(7)]) (auto simp: add(3) members_def)
  have q: "queues_typed ?w'" using D(8) by (simp add: queues_typed_def queue_of_def)
  from backend_okI [OF ok add(2) D(5) _ cs v q] run k show ?thesis by simp
qed

text \<open>Overwriting does not panic by itself.\<close>

lemma checked_returns:
  assumes ok: "backend_ok s" and k: "k < length (bk_conns s)" and pc: "rc_pc (bk_conns s ! k) = Checked"
  shows "backend_exec lib (Conn k pp perm rtss i) s \<noteq> None"
proof -
  have "bk_conns s ! k \<in> set (bk_conns s)" using k by simp
  then have "conn_ok (bk_world s) (bk_conns s ! k)" using backend_okD(6) [OF ok] by (simp add: conns_ok_def)
  then have "rs_pub (rc_session (bk_conns s ! k)) = Some (conn_pub (bk_conns s ! k))"
    "conn_pub (bk_conns s ! k) < length (w_pubs (bk_world s))" by (simp_all add: conn_ok_def publishing_def)
  then show ?thesis using k pc by (simp add: conn_step_def store_publisher_def)
qed

text \<open>\<open>StartStream\<close>.\<close>

lemma added_step:
  assumes ok: "backend_ok s" and k: "k < length (bk_conns s)" and pc: "rc_pc (bk_conns s ! k) = Added"
    and pp: "\<forall>sec. permutes_keys (pp sec)"
  shows "\<exists>s'. backend_exec lib (Conn k pp perm rtss i) s = Some s' \<and> backend_ok s'"
proof -
  let ?w = "bk_world s" and ?c = "bk_conns s ! k"
  let ?c' = "?c\<lparr>rc_pc := OnAir\<rparr>"
  note D = backend_okD [OF ok]
  have mem: "?c \<in> set (bk_conns s)" using k by simp
  then have c: "conn_ok ?w ?c" using D(6) by (simp add: conns_ok_def)
  obtain b where b: "start_stream bus_publish pp (rs_userID (rc_session ?c)) (sv_bus (bk_server s)) = Some b" "bus_ok b"
    using bus_sink.publish_ok [OF D(5) pp] by (auto simp: start_stream_def)
  have run: "conn_step bus_publish pp perm rtss i ?c ?w (sv_bus (bk_server s)) = Some (?c', ?w, b)"
    using b(1) pc by (simp add: conn_step_def)
  have same: "conn_pub ?c' = conn_pub ?c" by (simp add: conn_pub_def)
  have "conn_pub ?c \<in> live ?w" by (rule on_air_live [OF D(6) mem]) (simp add: on_air_def pc)
  then have "conns_ok ?w ((bk_conns s)[k := ?c'])"
    by (intro conns_ok_update [OF D(6) k _ _ same]) (use D(6) c same in \<open>auto simp: conns_ok_def conn_ok_def on_air_def\<close>)
  from backend_okI [OF ok D(3) b(2) refl this D(7,8)] run k show ?thesis by simp
qed

text \<open>A message is handled.\<close>

lemma on_air_step:
  assumes ok: "backend_ok s" and k: "k < length (bk_conns s)" and pc: "rc_pc (bk_conns s ! k) = OnAir"
    and rt: "\<forall>j. fair (rtss j)" and room: "Suc (length (cons_map (bk_world s) (conn_pub (bk_conns s ! k)))) < ref_limit"
  shows "\<exists>s'. backend_exec lib (Conn k pp perm rtss i) s = Some s' \<and> backend_ok s'"
proof -
  let ?w = "bk_world s" and ?c = "bk_conns s ! k"
  let ?p = "conn_pub ?c"
  note D = backend_okD [OF ok]
  have mem: "?c \<in> set (bk_conns s)" using k by simp
  then have c: "conn_ok ?w ?c" using D(6) by (simp add: conns_ok_def)
  have pub: "publishing ?p (rc_session ?c)" using c by (simp add: conn_ok_def)
  then have p: "rs_pub (rc_session ?c) = Some ?p" by (simp add: publishing_def)
  have live: "?p \<in> live ?w" by (rule on_air_live [OF D(6) mem]) (simp add: on_air_def pc)
  obtain g s' w' where h: "handle_input rtss i (rc_session ?c) ?w = Some (g, s', w')" "handled {#} ?p ?w w'" "publishing ?p s'"
    using handle_input_ok [where rtss = rtss, OF D(3) live room _ pub] rt by blast
  note e = handle_input_effect [OF h(1) p subset_refl]
  let ?c' = "\<lparr>rc_session = s', rc_pc = if g then OnAir else Ending\<rparr>"
  have run: "conn_step bus_publish pp perm rtss i ?c ?w (sv_bus (bk_server s)) = Some (?c', w', sv_bus (bk_server s))"
    using h(1) pc by (simp add: conn_step_def)
  have same: "conn_pub ?c' = ?p" using e(2) by (simp add: conn_pub_def)
  have cs: "conns_ok w' ((bk_conns s)[k := ?c'])"
  proof (rule conns_ok_update [OF D(6) k _ _ same])
    show "conn_ok w' d" if "d \<in> set (bk_conns s)" for d
      using conn_ok_effect [OF _ e(1)] live_not_unpublished(1) [OF live] D(6) that by (simp add: conns_ok_def)
    show "conn_ok w' ?c'"
      using c h(3) same effectD(2,4) [OF e(1)] e(3) by (simp add: conn_ok_def)
    show "live w' = (if on_air ?c' then insert (conn_pub ?c') (live ?w) else live ?w - {conn_pub ?c'})"
      using live handled_live(1) [OF h(2)] same by (auto simp: on_air_def)
  qed
  have t: "touched (members ?w ?p) ?w w'" using e(1) live touchedI by blast
  have "vs_consumer v \<notin> members ?w ?p" if "v \<in> set (sv_sessions (bk_server s))" "vs_pc v = Joining" for v
    using D(7) that live by (simp add: views_ok_def view_ok_def waiting_def)
  then have "views_ok w' (sv_sessions (bk_server s))" by (rule touched_keeps(2) [OF t D(7)])
  from backend_okI [OF ok handled_live(2) [OF h(2)] D(5) effectD(3) [OF e(1)] cs this touched_keeps(3) [OF t D(8)]] run k
  show ?thesis by simp
qed

text \<open>\<open>RemovePublisher\<close>.\<close>

lemma ending_step:
  assumes ok: "backend_ok s" and k: "k < length (bk_conns s)" and pc: "rc_pc (bk_conns s ! k) = Ending"
    and perm: "permutes_keys perm"
  shows "\<exists>s'. backend_exec lib (Conn k pp perm rtss i) s = Some s' \<and> backend_ok s'"
proof -
  let ?w = "bk_world s" and ?c = "bk_conns s ! k"
  let ?p = "conn_pub ?c" and ?c' = "?c\<lparr>rc_pc := Done\<rparr>"
  note D = backend_okD [OF ok]
  have mem: "?c \<in> set (bk_conns s)" using k by simp
  then have c: "conn_ok ?w ?c" using D(6) by (simp add: conns_ok_def)
  then have p: "rs_pub (rc_session ?c) = Some ?p" by (simp add: conn_ok_def publishing_def)
  have live: "?p \<in> live ?w" by (rule on_air_live [OF D(6) mem]) (simp add: on_air_def pc)
  obtain w' where w': "remove_publisher perm ?p ?w = Some w'" "media_ok {#} w'" "live w' = live ?w - {?p}"
    "length (w_cons w') = length (w_cons ?w)" "w_pubs w' = w_pubs ?w"
    using remove_publisher_ok [OF D(3) live perm] by blast
  let ?u = "?w\<lparr>w_chan := AList.delete (pub_id (w_pubs ?w ! ?p)) (w_chan ?w)\<rparr>"
  have e: "effect well_typed ?p (members ?w ?p) ?u w'" by (rule remove_publisher_effect [OF w'(1)]) simp
  have lu: "live ?u = live ?w - {?p}" using effect_live [OF e] w'(3) by simp
  have run: "conn_step bus_publish pp perm rtss i ?c ?w (sv_bus (bk_server s)) = Some (?c', w', sv_bus (bk_server s))"
    using w'(1) pc p by (simp add: conn_step_def)
  have same: "conn_pub ?c' = ?p" by (simp add: conn_pub_def)
  have cs: "conns_ok w' ((bk_conns s)[k := ?c'])"
  proof (rule conns_ok_update [OF D(6) k _ _ same])
    show "conn_ok w' d" if "d \<in> set (bk_conns s)" for d
    proof -
      have "conn_ok ?w d" using D(6) that by (simp add: conns_ok_def)
      then show ?thesis by (simp add: conn_ok_def unpublished_def w'(3,5))
    qed
    show "conn_ok w' ?c'" using c same by (simp add: conn_ok_def w'(5))
    show "live w' = (if on_air ?c' then insert (conn_pub ?c') (live ?w) else live ?w - {conn_pub ?c'})"
      by (simp add: w'(3) on_air_def same)
  qed
  have vu: "views_ok ?u (sv_sessions (bk_server s))"
    by (rule views_ok_chan [OF D(7)]) (auto simp: lu members_def)
  have "vs_consumer v \<notin> members ?w ?p" if "v \<in> set (sv_sessions (bk_server s))" "vs_pc v = Joining" for v
    using D(7) that live by (simp add: views_ok_def view_ok_def waiting_def)
  then have v: "views_ok w' (sv_sessions (bk_server s))" by (rule views_ok_effect [OF vu e])
  have "queues_typed ?u" using D(8) by (simp add: queues_typed_def queue_of_def)
  from backend_okI [OF ok w'(2) D(5) w'(4) cs v queues_typed_effect [OF this e]] run k show ?thesis by simp
qed

lemma conn_step_ok:
  assumes ok: "backend_ok s" and al: "backend_allowed (Conn k pp perm rtss i) s" and "\<not> overwrites (Conn k pp perm rtss i) s"
  shows "\<exists>s'. backend_exec lib (Conn k pp perm rtss i) s = Some s' \<and> backend_ok s'"
proof (cases "rc_pc (bk_conns s ! k)")
  case Done
  have "on_world (bk_world s) (sv_bus (bk_server s)) (bk_server s) = bk_server s" by (simp add: on_world_def)
  then show ?thesis using Done ok al by (simp add: conn_step_def)
qed (use assms accepted_step checked_step added_step on_air_step ending_step in auto)

lemma backend_exec_ok:
  assumes "backend_ok s" and "backend_allowed op s" and "\<not> overwrites op s"
  shows "\<exists>s'. backend_exec lib op s = Some s' \<and> backend_ok s'"
proof (cases op)
  case (Conn k pp perm rtss i)
  then show ?thesis using assms conn_step_ok by blast
qed (use assms viewer_step_ok accept_step_ok in simp_all)

text \<open>No step panics, not even the store that overwrites.\<close>

lemma backend_exec_returns:
  assumes "backend_ok s" and "backend_allowed op s"
  shows "backend_exec lib op s \<noteq> None"
proof (cases "overwrites op s")
  case True
  then show ?thesis using checked_returns [OF assms(1)] by (cases op) (auto simp del: backend_exec.simps)
next
  case False
  then show ?thesis using backend_exec_ok [OF assms] by fastforce
qed

lemma init_backend_ok: "backend_ok init_backend"
proof -
  have "live empty_world = {}" by (simp add: live_def empty_world_def)
  then show ?thesis
    using init_server_ok
    by (simp add: backend_ok_def init_backend_def init_server_def init_sys_def conns_ok_def views_ok_def queues_typed_def)
      (simp add: empty_world_def)
qed

interpretation streaming: panic_free "\<lambda>s. s = init_backend" "\<lambda>op s. backend_allowed op s \<and> \<not> overwrites op s" "backend_exec lib" backend_ok for lib
proof (unfold_locales, goal_cases)
  case (1 s)
  then show ?case using init_backend_ok by simp
next
  case (2 s op)
  then show ?case using backend_exec_ok by blast
qed

end
