(* ===== verification/ConnSteps.thy ===== *)
theory ConnSteps
  imports BackendOk
begin

text \<open>
  The first steps of a publishing connection, by which it goes on air or is refused.
\<close>

lemma accept_accepted:
  assumes "get_by_key (trim_prefix app ''live/'') = Inr u"
  shows "accept_conn get_by_key (Some app) True w
    = (Some \<lparr>rc_session = new_session\<lparr>rs_pub := Some (length (w_pubs w)), rs_userID := u\<rparr>, rc_pc = Accepted\<rparr>,
       snd (new_publisher (format_uint u) w))"
  using assms new_publisher_frame(1) [of "format_uint u" w]
  by (auto simp: accept_conn_def on_connect_def Let_def split: prod.splits)

text \<open>The check sees the table of before; the store enters the publisher.\<close>

lemma accepted_goes_on:
  fixes u :: u64
  assumes m: "media_ok H w"
  defines "q \<equiv> length (w_pubs w)" and "v \<equiv> snd (new_publisher (format_uint u) w)"
  assumes s: "rs_pub s = Some q"
  shows "conn_step publish pp perm rtss i \<lparr>rc_session = s, rc_pc = Accepted\<rparr> v b
      = Some (\<lparr>rc_session = s, rc_pc = if get_publisher (format_uint u) w = None then Checked else Done\<rparr>, v, b)"
    and "get_publisher (format_uint u) w = None \<Longrightarrow>
      \<exists>v'. conn_step publish pp perm rtss i \<lparr>rc_session = s, rc_pc = Checked\<rparr> v b = Some (\<lparr>rc_session = s, rc_pc = Added\<rparr>, v', b)
        \<and> get_publisher (format_uint u) v' = Some q"
proof -
  have np: "new_publisher (format_uint u) w = (q, v)"
    using new_publisher_frame(1) [of "format_uint u" w] by (cases "new_publisher (format_uint u) w") (simp add: q_def v_def)
  note new = new_publisher_ok [OF m, of "format_uint u", unfolded np fst_conv snd_conv]
  have q: "q < length (w_pubs v)" using new_publisher_frame(2) [OF np] by (simp add: q_def)
  have same: "get_publisher x v = get_publisher x w" for x by (simp add: get_publisher_def new(4))
  show "conn_step publish pp perm rtss i \<lparr>rc_session = s, rc_pc = Accepted\<rparr> v b
      = Some (\<lparr>rc_session = s, rc_pc = if get_publisher (format_uint u) w = None then Checked else Done\<rparr>, v, b)"
    using q same new(3) s by (simp add: conn_step_def)
  show "\<exists>v'. conn_step publish pp perm rtss i \<lparr>rc_session = s, rc_pc = Checked\<rparr> v b = Some (\<lparr>rc_session = s, rc_pc = Added\<rparr>, v', b)
      \<and> get_publisher (format_uint u) v' = Some q"
    if free: "get_publisher (format_uint u) w = None"
  proof -
    have "get_publisher (pub_id (w_pubs v ! q)) v = None" using free same new(3) by simp
    from store_publisher_new(1) [OF new(1,2) this] new(3) free show ?thesis
      by (simp add: conn_step_def s get_publisher_def new(4) map_add_def)
  qed
qed

lemma on_world_simps [simp]:
  "ms_world (sv_media (on_world w b s)) = w" "sv_bus (on_world w b s) = b"
  by (simp_all add: on_world_def)

end
