(* ===== verification/ProgramOk.thy ===== *)
theory ProgramOk
  imports Program ConnSteps
begin

text \<open>
  The whole program keeps its invariant: the parts agree on their shared state, only owners of a stream key
  publish, and no goroutine panics but for the one that sends to a closed connection of the topic transport. What is assumed of the database, the libraries and the configuration is the
  locale \<open>deployment\<close>; from it follows the contract \<open>panic_free\<close>.
\<close>

section \<open>The database behind the program's state\<close>

text \<open>An invariant of the program's state that more rows do not break makes a database of the whole state.\<close>

lemma program_sql:
  assumes "sql_transactions query users skeys valid begin_tx commit"
    and V: "\<And>p. V p \<Longrightarrow> valid (pr_db p)"
    and more: "\<And>p d. V p \<Longrightarrow> valid d \<Longrightarrow> set (skeys (pr_db p)) \<subseteq> set (skeys d) \<Longrightarrow> V (p\<lparr>pr_db := d\<rparr>)"
  shows "sql_transactions (on_db query) (users \<circ> pr_db) (skeys \<circ> pr_db) V (begin_tx \<circ> pr_db) (commit_db commit)"
proof -
  note db = sql_transactions.axioms(1) [OF assms(1)]
  note trx = sql_transactions.axioms(2) [OF assms(1), unfolded sql_transactions_axioms_def]
  have lifted: "\<exists>d'. query sql args (pr_db p) = (r, d') \<and> p' = p\<lparr>pr_db := d'\<rparr>" if "on_db query sql args p = (r, p')" for sql args p r p'
    using that by (auto simp: on_db_def split: prod.splits)
  show ?thesis
  proof (unfold_locales, goal_cases)
    case (1 p)
    then show ?case using sql_database.users_distinct [OF db V] by simp
  next
    case (2 p k)
    then show ?case using sql_database.keys_refer [OF db V] by simp
  next
    case (3 p i r p')
    from lifted [OF 3(2)] show ?case
      by (elim exE conjE) (drule sql_database.select_user_by_id [OF db V [OF 3(1)]], simp add: comp_def split: sum.splits)
  next
    case (4 p n r p')
    from lifted [OF 4(2)] show ?case
      by (elim exE conjE) (drule sql_database.select_user_by_name [OF db V [OF 4(1)]], simp add: comp_def split: sum.splits)
  next
    case (5 p n r p')
    from lifted [OF 5(2)] show ?case
      by (elim exE conjE) (drule sql_database.count_users [OF db V [OF 5(1)]], simp add: comp_def split: sum.splits)
  next
    case (6 p n pw r p')
    from lifted [OF 6(2)] obtain d where d: "query sqlSaveUser [SqlText n, SqlText pw] (pr_db p) = (r, d)" "p' = p\<lparr>pr_db := d\<rparr>" by blast
    from sql_database.insert_user [OF db V [OF 6(1)] d(1)] more [OF 6(1), of d] d(2) show ?case
      by (simp add: comp_def split: sum.splits)
  next
    case (7 p x r p')
    from lifted [OF 7(2)] show ?case
      by (elim exE conjE) (drule sql_database.select_key_by_key [OF db V [OF 7(1)]], simp add: comp_def split: sum.splits)
  next
    case (8 p i r p')
    from lifted [OF 8(2)] show ?case
      by (elim exE conjE) (drule sql_database.select_key_by_user [OF db V [OF 8(1)]], simp add: comp_def split: sum.splits)
  next
    case (9 p x i a r p')
    from lifted [OF 9(2)] obtain d where d: "query sqlSaveKey [SqlText x, SqlInt (uint i), SqlBool a] (pr_db p) = (r, d)" "p' = p\<lparr>pr_db := d\<rparr>" by blast
    note ins = sql_database.insert_key [OF db V [OF 9(1)] d(1)]
    then have "set (skeys (pr_db p)) \<subseteq> set (skeys d)" by (auto split: sum.splits)
    with ins more [OF 9(1), of d] d(2) show ?case by (simp add: comp_def split: sum.splits)
  qed (use trx in \<open>auto simp: commit_db_def split: prod.splits option.splits\<close>)
qed

section \<open>What the steps do to the bus and to the connections\<close>

definition published :: "event_bus \<Rightarrow> event_bus \<Rightarrow> bool" where
  "published b b' \<longleftrightarrow> b' = b \<or> (\<exists>perm ev. (\<forall>sec. permutes_keys (perm sec)) \<and> bus_publish perm ev b = Some b')"

lemma published_refl [simp]: "published b b"
  by (simp add: published_def)

lemma publishedI: "\<forall>sec. permutes_keys (perm sec) \<Longrightarrow> bus_publish perm ev b = Some b' \<Longrightarrow> published b b'"
  by (auto simp: published_def)

lemma published_keeps:
  assumes "ws_sys_ok s (t, b)" and "published b b'" and "bus_ok b'"
  shows "ws_sys_ok s (t, b')"
  using assms bus_exec_frame [of b "bus_op.Publish _ _" s b'] by (fastforce simp: ws_sys_ok_def published_def)

lemma session_step_published:
  assumes "session_step bus_publish perm failed i u ip pc (w, ss, b) = Some (pc', w', ss', b')"
    and "\<forall>sec. permutes_keys (perm sec)"
  shows "published b b'"
  using assms
  by (cases pc) (auto simp: bind_Some_iff add_viewer_def remove_viewer_def publish_viewer_event_def Let_def
      intro: publishedI split: option.splits if_splits)

lemma conn_step_published:
  assumes "conn_step bus_publish pp perm rtss i c w b = Some (c', w', b')" and "\<forall>sec. permutes_keys (pp sec)"
  shows "published b b'"
  using assms by (cases "rc_pc c") (auto simp: conn_step_def start_stream_def bind_Some_iff intro: publishedI)

lemma conn_step_user:
  assumes "conn_step bus_publish pp perm rtss i c w b = Some (c', w', b')" and "rs_pub (rc_session c) = Some p"
  shows "rs_userID (rc_session c') = rs_userID (rc_session c)"
  using assms handle_input_effect(3) [OF _ assms(2) subset_refl]
  by (cases "rc_pc c") (auto simp: conn_step_def bind_Some_iff)

lemma streaming_step:
  assumes ok: "backend_ok b" and al: "backend_allowed op b" and on: "goes_on (Streaming op)"
    and run: "backend_exec lib op b = Some b'"
  shows "published (sv_bus (bk_server b)) (sv_bus (bk_server b'))"
    and "map (rs_userID \<circ> rc_session) (bk_conns b') = map (rs_userID \<circ> rc_session) (bk_conns b)"
proof -
  have "published (sv_bus (bk_server b)) (sv_bus (bk_server b'))
    \<and> map (rs_userID \<circ> rc_session) (bk_conns b') = map (rs_userID \<circ> rc_session) (bk_conns b)"
  proof (cases op)
    case (Viewer vop)
    show ?thesis
    proof (cases vop)
      case (Advance perm failed k)
      then show ?thesis using Viewer al run session_step_published by (fastforce simp: bind_Some_iff)
    next
      case (MediaOp mop)
      then show ?thesis using Viewer run by (auto simp: bind_Some_iff)
    qed (use Viewer on in simp_all)
  next
    case (Accept f connect accepted)
    with on show ?thesis by simp
  next
    case (Conn k pp perm rtss i)
    from run Conn obtain c w e where k: "k < length (bk_conns b)"
      and step: "conn_step bus_publish pp perm rtss i (bk_conns b ! k) (bk_world b) (sv_bus (bk_server b)) = Some (c, w, e)"
      and b': "b' = b\<lparr>bk_server := on_world w e (bk_server b), bk_conns := (bk_conns b)[k := c]\<rparr>"
      by (auto simp: bind_Some_iff)
    have "rs_pub (rc_session (bk_conns b ! k)) = Some (conn_pub (bk_conns b ! k))"
      using ok k by (auto simp: backend_ok_def conns_ok_def conn_ok_def publishing_def)
    from conn_step_user [OF step this] conn_step_published [OF step] al Conn b' k show ?thesis
      by (simp add: on_world_def map_update list_update_same_conv)
  qed
  then show "published (sv_bus (bk_server b)) (sv_bus (bk_server b'))"
    "map (rs_userID \<circ> rc_session) (bk_conns b') = map (rs_userID \<circ> rc_session) (bk_conns b)" by simp_all
qed

section \<open>Requests\<close>

lemma more_rows:
  assumes "program_ok skeys valid p" and "valid d" and "set (skeys (pr_db p)) \<subseteq> set (skeys d)"
  shows "program_ok skeys valid (p\<lparr>pr_db := d\<rparr>)"
  using assms by (fastforce simp: program_ok_def has_key_def)

text \<open>
  A property of the program's state that requests do not break: it implies the invariant, and more rows, a
  new session and a new connection of the topic transport keep it as far as they keep the invariant. The
  transports leave the accounts alone.
\<close>

locale program_view =
  fixes skeys :: "'db \<Rightarrow> stream_key list" and valid :: "'db \<Rightarrow> bool" and V :: "'db program \<Rightarrow> bool"
  assumes view_ok: "V p \<Longrightarrow> program_ok skeys valid p"
    and view_db: "V p \<Longrightarrow> program_ok skeys valid (p\<lparr>pr_db := d\<rparr>) \<Longrightarrow> V (p\<lparr>pr_db := d\<rparr>)"
    and view_session: "V p \<Longrightarrow> backend_exec lib (Viewer (Serve upgraded path uuid addr)) (pr_backend p) = Some b
      \<Longrightarrow> program_ok skeys valid (p\<lparr>pr_backend := b\<rparr>) \<Longrightarrow> V (p\<lparr>pr_backend := b\<rparr>)"
    and view_events: "V p \<Longrightarrow> program_ok skeys valid (open_events p) \<Longrightarrow> V (open_events p)"
begin

abbreviation accounts_after :: "('db \<Rightarrow> user list) \<Rightarrow> config \<Rightarrow> 'db http_deps \<Rightarrow> http_oracle \<Rightarrow> request \<Rightarrow> 'db program \<Rightarrow> 'db program \<Rightarrow> bool" where
  "accounts_after users conf libs ora \<equiv> account_step V (users \<circ> pr_db) (skeys \<circ> pr_db) (main_deps conf libs) ora"

lemma accounts_after_same: "V p' \<Longrightarrow> pr_db p' = pr_db p \<Longrightarrow> accounts_after users conf libs ora req p p'"
  by (simp add: account_step_def same_accounts_def)

lemma ws_media_acts: "acts V (accounts_after users conf libs ora) R C (ws_media_handler lib up)"
proof (rule actsI)
  fix req :: request and w and p :: "'db program"
  assume v: "V p"
  note ok = view_ok [OF v]
  let ?op = "Serve (up_conn up) (rq_path req) (up_uuid up) (rq_remoteAddr req)"
  have "backend_ok (pr_backend p)" using ok by (simp add: program_ok_def)
  then obtain b where b: "backend_exec lib (Viewer ?op) (pr_backend p) = Some b" "backend_ok b"
    using backend_exec_ok [of "pr_backend p" "Viewer ?op" lib] by auto
  then have "sv_bus (bk_server b) = pr_bus p" "bk_conns b = bk_conns (pr_backend p)" by (auto simp: bind_Some_iff)
  with ok b(2) have "V (p\<lparr>pr_backend := b\<rparr>)" by (intro view_session [OF v b(1)]) (simp add: program_ok_def)
  moreover have "ws_media_handler lib up req (w, p) = Some (up_answer up w, p\<lparr>pr_backend := b\<rparr>)"
    unfolding ws_media_handler_def prod.case b(1) by simp
  ultimately show "outcome (accounts_after users conf libs ora req p) (C req) (ws_media_handler lib up req (w, p))"
    by (simp add: accounts_after_same)
qed

lemma ws_main_acts: "acts V (accounts_after users conf libs ora) R C (ws_main_handler up)"
proof (rule actsI)
  fix req :: request and w and p :: "'db program"
  assume v: "V p"
  have "program_ok skeys valid (open_events p)"
    using view_ok [OF v] by (auto simp: open_events_def program_ok_def ws_sys_ok_def intro: new_ws_conn_ok new_ws_conn_feed new_writer_ok)
  from view_events [OF v this] v
  show "outcome (accounts_after users conf libs ora req p) (C req) (ws_main_handler up req (w, p))"
    by (simp add: ws_main_handler_def accounts_after_same open_events_def)
qed

lemma main_http_acts:
  assumes sql: "sql_transactions (hd_query libs) users skeys valid (hd_begin libs) (hd_commit libs)" and origins: "cf_httpAllowedOrigins conf \<noteq> []"
  shows "acts V (accounts_after users conf libs ora) (\<lambda>_. True) (null_account libs) (main_http conf libs lib fallback ora up)"
proof -
  have lifted: "sql_transactions (hd_query (main_deps conf libs)) (users \<circ> pr_db) (skeys \<circ> pr_db) V
      (hd_begin (main_deps conf libs)) (hd_commit (main_deps conf libs))"
    unfolding main_deps_def http_deps.simps
  proof (rule program_sql [where valid = valid and skeys = skeys and V = V, OF sql])
    show "valid (pr_db p)" if "V p" for p using view_ok [OF that] by (simp add: program_ok_def)
    show "V (p\<lparr>pr_db := d\<rparr>)" if "V p" "valid d" "set (skeys (pr_db p)) \<subseteq> set (skeys d)" for p d
      by (rule view_db [OF that(1) more_rows [OF view_ok [OF that(1)] that(2,3)]])
  qed
  have "acts V (accounts_after users conf libs ora) (\<lambda>_. True) (\<lambda>_. False) h" if "(path, h) \<in> set (main_handlers lib up)" for path h
    using that ws_media_acts ws_main_acts by (auto simp: main_handlers_def)
  moreover have "acts V (accounts_after users conf libs ora) (\<lambda>_. True) (\<lambda>_. False) (\<lambda>req (w, p). Some (fallback req w, p))"
    by (simp add: acts_def accounts_after_same)
  ultimately have "acts V (accounts_after users conf libs ora) (\<lambda>_. True) (null_account (main_deps conf libs))
      (main_http conf libs lib fallback ora up)"
    unfolding main_http_def using origins by (rule sql_transactions.run_server_acts [OF lifted refl refl refl])
  moreover have "null_account (main_deps conf libs) = null_account libs" by (simp add: null_account_def main_deps_def fun_eq_iff)
  ultimately show ?thesis by simp
qed

text \<open>\<open>net/http\<close> recovers from a panic, so the property holds after any request.\<close>

lemma request_view:
  assumes "sql_transactions (hd_query libs) users skeys valid (hd_begin libs) (hd_commit libs)" and "cf_httpAllowedOrigins conf \<noteq> []"
    and "V p"
  shows "\<exists>p'. program_exec conf libs lib fallback (Request ora up req) p = Some p' \<and> V p'"
  using actsD [OF main_http_acts [of libs users conf ora lib fallback up, OF assms(1,2)] assms(3), of req new_writer] assms(3)
  by (cases "main_http conf libs lib fallback ora up req (new_writer, p)") (auto simp: account_step_def)

end

text \<open>The invariant itself is such a property.\<close>

interpretation invariant: program_view skeys valid "program_ok skeys valid" for skeys valid
  by unfold_locales

section \<open>A deployment\<close>

locale deployment = sql_transactions "hd_query libs" users skeys valid "hd_begin libs" "hd_commit libs"
  for libs :: "'db http_deps" and users skeys valid +
  fixes getenv :: "string \<Rightarrow> string" and conf :: config and lib :: ws_lib and fallback :: "request \<Rightarrow> writer \<Rightarrow> writer"
  assumes config: "new_config getenv = Inr conf"
begin

lemma origins: "cf_httpAllowedOrigins conf \<noteq> []"
  unfolding new_config_ok(7) [OF config] by simp

lemma request_ok:
  assumes "program_ok skeys valid p"
  shows "\<exists>p'. program_exec conf libs lib fallback (Request ora up req) p = Some p' \<and> program_ok skeys valid p'"
  by (rule invariant.request_view [OF sql_transactions_axioms origins assms])

section \<open>Incoming connections\<close>

lemma conn_key_ok:
  assumes "valid db" and "conn_key (hd_query libs) connect db = (key, db')"
  shows "db' = db" and "key = Inr u \<Longrightarrow> \<exists>k \<in> set (skeys db). sk_userID k = u \<and> sk_active k"
proof -
  have "db' = db \<and> (\<forall>u. key = Inr u \<longrightarrow> (\<exists>k \<in> set (skeys db). sk_userID k = u \<and> sk_active k))"
  proof (cases connect)
    case (Some app)
    obtain r d where run: "sk_get_by_key (hd_query libs) (trim_prefix app ''live/'') db = (r, d)" by fastforce
    from sk_get_by_key_ok [OF assms(1) run] run assms(2) Some show ?thesis
      by (cases r) (auto simp: conn_key_def)
  qed (use assms(2) in \<open>auto simp: conn_key_def\<close>)
  then show "db' = db" "key = Inr u \<Longrightarrow> \<exists>k \<in> set (skeys db). sk_userID k = u \<and> sk_active k" by simp_all
qed

lemma accepted_conn:
  assumes "accept_conn (\<lambda>_. key) connect accepted w = (Some c, w')"
  shows "key = Inr (rs_userID (rc_session c))"
  using assms by (auto simp: accept_conn_def on_connect_def Let_def split: option.splits sum.splits prod.splits if_splits)

lemma incoming_ok:
  assumes ok: "program_ok skeys valid p"
  shows "\<exists>p'. program_exec conf libs lib fallback (Incoming connect accepted) p = Some p' \<and> program_ok skeys valid p'"
proof -
  obtain key db where k: "conn_key (hd_query libs) connect (pr_db p) = (key, db)" by fastforce
  have v: "valid (pr_db p)" and b: "backend_ok (pr_backend p)" using ok by (simp_all add: program_ok_def)
  note key = conn_key_ok [OF v k]
  let ?op = "Accept (\<lambda>_. key) connect accepted"
  obtain b' where b': "backend_exec lib ?op (pr_backend p) = Some b'" "backend_ok b'"
    using backend_exec_ok [OF b, of ?op lib] by auto
  obtain c w where a: "accept_conn (\<lambda>_. key) connect accepted (bk_world (pr_backend p)) = (c, w)" by fastforce
  have conns: "bk_conns b' = bk_conns (pr_backend p) @ (case c of None \<Rightarrow> [] | Some c \<Rightarrow> [c])"
    and bus: "sv_bus (bk_server b') = pr_bus p" using b'(1) a by (auto simp: on_world_def)
  have "has_key skeys (pr_db p) x" if "x \<in> set (bk_conns b')" for x
    using that ok conns key(2) accepted_conn [of key connect accepted "bk_world (pr_backend p)"] a
    by (cases c) (auto simp: program_ok_def has_key_def)
  with ok b' bus key(1) k show ?thesis by (simp add: program_ok_def)
qed

section \<open>Everything else\<close>

lemma streaming_ok:
  assumes ok: "program_ok skeys valid p" and al: "program_allowed (Streaming op) p" and race: "\<not> store_races (Streaming op) p"
  shows "\<exists>p'. program_exec conf libs lib fallback (Streaming op) p = Some p' \<and> program_ok skeys valid p'"
proof -
  have b: "backend_ok (pr_backend p)" and al: "backend_allowed op (pr_backend p)" "goes_on (Streaming op)"
    using ok al by (simp_all add: program_ok_def)
  obtain b' where b': "backend_exec lib op (pr_backend p) = Some b'" "backend_ok b'" using backend_exec_ok [OF b al(1)] race by auto
  note st = streaming_step [OF b al b'(1)]
  have "bus_ok (sv_bus (bk_server b'))" by (rule backend_okD(5) [OF b'(2)])
  then have ws: "ws_sys_ok event_subscriber (pr_events p, sv_bus (bk_server b'))"
    using published_keeps [OF _ st(1)] ok by (simp add: program_ok_def)
  have "has_key skeys (pr_db p) c" if c: "c \<in> set (bk_conns b')" for c
  proof -
    have "rs_userID (rc_session c) \<in> set (map (rs_userID \<circ> rc_session) (bk_conns (pr_backend p)))"
      unfolding st(2) [symmetric] using c by simp
    then show ?thesis using ok by (auto simp: program_ok_def has_key_def)
  qed
  with ok b' ws show ?thesis by (simp add: program_ok_def)
qed

lemma with_bus_ok:
  assumes ok: "program_ok skeys valid p" and ws: "ws_sys_ok event_subscriber (t, b)" and feed: "feed_ok t pc" and writers: "writers_ok t wr"
  shows "program_ok skeys valid (with_bus b (p\<lparr>pr_events := t, pr_feed := pc, pr_writers := wr\<rparr>))"
proof -
  have bk: "backend_ok (pr_backend p)" using ok by (simp add: program_ok_def)
  note D = backend_okD [OF bk]
  have "bus_ok b" using ws by (simp add: ws_sys_ok_def)
  from backend_okI [OF bk D(3) this refl D(6-8)] ok ws feed writers show ?thesis
    by (simp add: program_ok_def with_bus_def)
qed

lemma goes_on_events: "goes_on (Events op) \<Longrightarrow> (\<exists>decode conn m. op = Message decode conn m) \<or> (\<exists>perm conn. op = Disconnect perm conn)"
  by (cases op) simp_all

lemma events_ok:
  assumes ok: "program_ok skeys valid p" and al: "program_allowed (Events op) p"
  shows "\<exists>p'. program_exec conf libs lib fallback (Events op) p = Some p' \<and> program_ok skeys valid p'"
proof -
  have ws: "ws_sys_ok event_subscriber (pr_events p, pr_bus p)" and wal: "ws_allowed event_subscriber op (pr_events p, pr_bus p)"
    and feed: "feed_ok (pr_events p) (pr_feed p)" and wr: "writers_ok (pr_events p) (pr_writers p)"
    using ok al by (simp_all add: program_ok_def)
  have on: "(\<exists>decode conn m. op = Message decode conn m) \<or> (\<exists>perm conn. op = Disconnect perm conn)"
    using al by (intro goes_on_events) simp
  obtain t b where tb: "ws_exec event_subscriber op (pr_events p, pr_bus p) = Some (t, b)" "ws_sys_ok event_subscriber (t, b)"
    using ws_exec_ok [OF ws wal] by auto
  have "feed_ok t (pr_feed p)" by (rule ws_exec_feed [OF ws wal tb(1) on feed])
  moreover have "writers_ok t (pr_writers p)" by (rule writers_conns_frame [OF wr ws_exec_frame(2) [OF ws wal tb(1) on]])
  ultimately show ?thesis using with_bus_ok [OF ok tb(2)] tb(1) by fastforce
qed

lemma feeding_ok:
  assumes ok: "program_ok skeys valid p" and al: "program_allowed (Feed yield) p" and race: "\<not> sends_on_closed (Feed yield) p"
  shows "\<exists>p'. program_exec conf libs lib fallback (Feed yield) p = Some p' \<and> program_ok skeys valid p'"
proof -
  have "ws_sys_ok event_subscriber (pr_events p, pr_bus p)" "feed_ok (pr_events p) (pr_feed p)"
    "feed_allows yield (pr_feed p) (pr_events p)" "writers_ok (pr_events p) (pr_writers p)"
    using ok al by (simp_all add: program_ok_def)
  moreover from this(2) race have "target_open (pr_events p) (pr_feed p)"
    by (cases "pr_feed p") (simp_all add: ws_open_def)
  ultimately obtain pc t ws b where
    "feed_step (sub_read event_subscriber) yield (pr_feed p) (pr_events p) (pr_writers p) (pr_bus p) = Some (pc, t, ws, b)"
    "ws_sys_ok event_subscriber (t, b)" "feed_ok t pc" "writers_ok t ws" using feed_step_ok by blast
  with with_bus_ok [OF ok this(2-4)] show ?thesis by simp
qed

lemma feeding_panics:
  assumes ok: "program_ok skeys valid p" and closed: "sends_on_closed op p"
  shows "program_exec conf libs lib fallback op p = None"
proof -
  obtain yield where op: "op = Feed yield" using closed by (cases op) simp_all
  have "\<not> target_open (pr_events p) (pr_feed p)"
    using closed op by (cases "pr_feed p") (simp_all add: ws_open_def)
  with ok have "feed_step (sub_read event_subscriber) yield (pr_feed p) (pr_events p) (pr_writers p) (pr_bus p) = None"
    by (intro feed_step_panics) (simp_all add: program_ok_def)
  then show ?thesis by (simp add: op)
qed

lemma written_ok:
  assumes ok: "program_ok skeys valid p" and al: "program_allowed (Written conn failed) p"
  shows "\<exists>p'. program_exec conf libs lib fallback (Written conn failed) p = Some p' \<and> program_ok skeys valid p'"
proof -
  have wr: "writers_ok (pr_events p) (pr_writers p)" and c: "conn < length (pr_writers p)" using ok al by (simp_all add: program_ok_def)
  from read_data_ok [OF wr c, of failed] writer_okD(1) [OF wr] ok c show ?thesis by (simp add: program_ok_def)
qed

lemma init_ok: "valid db \<Longrightarrow> program_ok skeys valid (init_program db)"
proof -
  assume v: "valid db"
  let ?b = "snd (new_subscriber new_bus)"
  have bus: "bus_ok ?b" using new_subscriber_ok new_bus_ok by simp
  have "backend_ok \<lparr>bk_server = init_server\<lparr>sv_bus := ?b\<rparr>, bk_conns = []\<rparr>"
    using init_backend_ok bus by (simp add: backend_ok_def init_backend_def server_ok_def)
  moreover have "ws_sys_ok event_subscriber (new_ws_main, ?b)"
    using new_ws_main_ok bus
    by (simp add: ws_sys_ok_def sub_topics_def sub_open_def) (simp add: event_subscriber_def new_subscriber_def new_bus_def make_chan_def)
  ultimately show ?thesis using v by (simp add: program_ok_def init_program_def new_ws_main_def)
qed

end

text \<open>A deployment keeps the contract of a machine, the two races apart.\<close>

sublocale deployment \<subseteq> machine: panic_free "\<lambda>p. \<exists>db. valid db \<and> p = init_program db"
  "\<lambda>op p. program_allowed op p \<and> \<not> store_races op p \<and> \<not> sends_on_closed op p" "program_exec conf libs lib fallback" "program_ok skeys valid"
proof (unfold_locales, goal_cases)
  case (1 p)
  then show ?case using init_ok by blast
next
  case (2 p op)
  then show ?case using request_ok incoming_ok streaming_ok events_ok feeding_ok written_ok by (cases op) simp_all
qed

text \<open>A possible step that does not overwrite a publisher.\<close>

abbreviation unraced :: "program_op \<Rightarrow> 'db program \<Rightarrow> bool" where
  "unraced op p \<equiv> program_allowed op p \<and> \<not> store_races op p"

text \<open>
  A state the program can get into when it starts on a valid database, with no store of \<open>AddPublisher\<close>
  over another one on the way.
\<close>

abbreviation running ::
    "'db http_deps \<Rightarrow> ('db \<Rightarrow> bool) \<Rightarrow> config \<Rightarrow> ws_lib \<Rightarrow> (request \<Rightarrow> writer \<Rightarrow> writer) \<Rightarrow> 'db program \<Rightarrow> bool" where
  "running libs valid conf lib fallback \<equiv>
     reachable (\<lambda>p. \<exists>db. valid db \<and> p = init_program db) unraced (program_exec conf libs lib fallback)"

context deployment
begin

lemma running_ok:
  assumes "running libs valid conf lib fallback p"
  shows "program_ok skeys valid p" "backend_ok (pr_backend p)"
proof -
  have "reachable (\<lambda>p. \<exists>db. valid db \<and> p = init_program db)
      (\<lambda>op p. program_allowed op p \<and> \<not> store_races op p \<and> \<not> sends_on_closed op p) (program_exec conf libs lib fallback) p"
    using assms
  proof (rule reachable_weaken)
    show "program_allowed op q \<and> \<not> store_races op q \<and> \<not> sends_on_closed op q"
      if "reachable (\<lambda>p. \<exists>db. valid db \<and> p = init_program db)
          (\<lambda>op p. program_allowed op p \<and> \<not> store_races op p \<and> \<not> sends_on_closed op p) (program_exec conf libs lib fallback) q"
        "program_allowed op q \<and> \<not> store_races op q" "program_exec conf libs lib fallback op q = Some q'" for op q q'
      using that feeding_panics [OF machine.reachable_inv [OF that(1)], of op] by auto
  qed
  then show "program_ok skeys valid p" "backend_ok (pr_backend p)"
    using machine.reachable_inv by (auto simp: program_ok_def)
qed

text \<open>A step panics exactly if it sends to a closed connection.\<close>

lemma running_progress:
  assumes "running libs valid conf lib fallback p" and "program_allowed op p"
  shows "program_exec conf libs lib fallback op p = None \<longleftrightarrow> sends_on_closed op p"
proof (cases "store_races op p")
  case True
  then obtain bop where op: "op = Streaming bop" by (cases op) simp_all
  then have "backend_exec lib bop (pr_backend p) \<noteq> None"
    using backend_exec_returns [OF running_ok(2) [OF assms(1)]] assms(2) by simp
  then show ?thesis using op by auto
next
  case False
  then show ?thesis using machine.progress [OF running_ok(1) [OF assms(1)], of op] assms(2) feeding_panics [OF running_ok(1) [OF assms(1)], of op]
    by fastforce
qed

text \<open>What a step does to the accounts.\<close>

lemma step_accounts:
  assumes run: "running libs valid conf lib fallback p" and step: "program_exec conf libs lib fallback op p = Some p'"
  shows "same_accounts users skeys (pr_db p) (pr_db p')
    \<or> (\<exists>ora up req c. op = Request ora up req \<and> asks_account libs req c \<and> adds_account users skeys libs ora c (pr_db p) (pr_db p'))"
proof (cases op)
  case (Request ora up req)
  have "asks_account (main_deps conf libs) = asks_account libs" "adds_account (users \<circ> pr_db) (skeys \<circ> pr_db) (main_deps conf libs) ora c p p'
      = adds_account users skeys libs ora c (pr_db p) (pr_db p')" for c
    by (simp_all add: asks_account_def adds_account_def main_deps_def fun_eq_iff)
  then show ?thesis
    using actsD [OF invariant.main_http_acts [OF sql_transactions_axioms origins, of ora lib fallback up] running_ok(1) [OF run], of req new_writer] step Request
    by (cases "main_http conf libs lib fallback ora up req (new_writer, p)") (auto simp: account_step_def same_accounts_def)
next
  case (Incoming connect accepted)
  obtain key db where k: "conn_key (hd_query libs) connect (pr_db p) = (key, db)" by fastforce
  have "valid (pr_db p)" using running_ok(1) [OF run] by (simp add: program_ok_def)
  from conn_key_ok(1) [OF this k] show ?thesis using step Incoming k by (auto simp: bind_Some_iff)
qed (use step in \<open>auto simp: bind_Some_iff with_bus_def\<close>)

lemma http_panic:
  assumes "running libs valid conf lib fallback p" and "main_http conf libs lib fallback ora up req (new_writer, p) = None"
  shows "null_account libs req"
  using actsD [OF invariant.main_http_acts [OF sql_transactions_axioms origins, of ora lib fallback up] running_ok(1) [OF assms(1)], of req new_writer] assms(2)
  by simp

end

text \<open>A program that has started is in such a state, with the settings of the deployment.\<close>

lemma started_running:
  assumes "start_program getenv open_db ping db = Inr (conf, p)" and "valid db"
  shows "new_config getenv = Inr conf" and "running libs valid conf lib fallback p"
  using assms by (auto simp: start_program_def split: sum.splits intro!: reachable.start)

section \<open>A viewer\<close>

lemma stream_path_clean: "clean_path (''/ws/streams/'' @ format_uint u)"
proof -
  have "CHR ''/'' \<notin> set (format_uint u)" "CHR ''.'' \<notin> set (format_uint u)" by (rule format_uint_plain; simp)+
  then have "split_at CHR ''/'' (''/ws/streams/'' @ format_uint u) = ['''', ''ws'', ''streams'', format_uint u]"
    "format_uint u \<noteq> ''.''" "format_uint u \<noteq> ''..''"
    by (auto simp: split_at_plain)
  then show ?thesis by (simp add: clean_path_def Let_def del: append.simps)
qed

lemma stream_route:
  assumes "rq_path req = ''/ws/streams/'' @ format_uint u"
  shows "serve_mux (routes d ora (main_handlers lib up)) fallback req ws = ws_media_handler lib up req ws"
proof -
  have "path_fits ''/ws/streams/'' (rq_path req)" unfolding assms path_fits_def by (simp del: append.simps)
  moreover have "\<not> path_fits ''/api/v1/auth/sign-up'' (rq_path req)" "\<not> path_fits ''/api/v1/auth/sign-in'' (rq_path req)"
    "\<not> path_fits ''/api/v1/users/current'' (rq_path req)" "\<not> path_fits usernames_prefix (rq_path req)"
    "\<not> path_fits ''/api/v1/stream-keys/current'' (rq_path req)" "\<not> path_fits ''/ws/main'' (rq_path req)"
    unfolding assms path_fits_def by (simp_all add: usernames_prefix_def has_prefix_def)
  moreover have "clean_path (rq_path req)" unfolding assms by (rule stream_path_clean)
  ultimately show ?thesis by (simp add: serve_mux_def routes_def main_handlers_def method_fits_def Let_def)
qed

lemma serve_step:
  assumes "get_publisher_id path = Inr (i, u)"
  shows "\<exists>b'. backend_exec lib (Viewer (Serve (Some k) path (Some cid) addr)) b = Some b'
    \<and> bk_conns b' = bk_conns b \<and> sv_bus (bk_server b') = sv_bus (bk_server b)
    \<and> sv_sessions (bk_server b') = sv_sessions (bk_server b)
        @ [\<lparr>vs_consumer = length (w_cons (bk_world b)), vs_user = u, vs_addr = addr, vs_pc = Joining\<rparr>]
    \<and> bk_world b' = (bk_world b)\<lparr>w_cons := w_cons (bk_world b) @ [new_ws_consumer lib cid i k]\<rparr>"
  using assms by (simp add: serve_http_def exec_def add_cons_obj_def Let_def)

lemma stream_served:
  assumes "rq_header req ''Origin'' = ''''" and "rq_path req = ''/ws/streams/'' @ format_uint u"
  shows "main_http conf libs lib fallback ora up req ws = ws_media_handler lib up (req\<lparr>rq_remoteAddr := get_real_ip req\<rparr>) ws"
proof -
  have "rq_path (req\<lparr>rq_remoteAddr := get_real_ip req\<rparr>) = ''/ws/streams/'' @ format_uint u" using assms(2) by simp
  then show ?thesis unfolding main_http_def run_server_no_origin [OF assms(1)] by (rule stream_route)
qed

section \<open>A client of the topic transport\<close>

lemma events_served:
  assumes "rq_header req ''Origin'' = ''''" and "rq_path req = ''/ws/main''" and "up_accepted up"
  shows "program_exec conf libs lib fallback (Request ora up req) p = Some (open_events p)"
proof -
  have "clean_path ''/ws/main''" by code_simp
  then have route: "serve_mux (routes d ora' (main_handlers lib up)) fb (req\<lparr>rq_remoteAddr := a\<rparr>) ws
      = ws_main_handler up (req\<lparr>rq_remoteAddr := a\<rparr>) ws" for d ora' fb a ws
    using assms(2) by (simp add: serve_mux_def routes_def main_handlers_def method_fits_def path_fits_def usernames_prefix_def
        has_prefix_def Let_def)
  have "main_http conf libs lib fallback ora up req (new_writer, p) = ws_main_handler up (req\<lparr>rq_remoteAddr := get_real_ip req\<rparr>) (new_writer, p)"
    unfolding main_http_def run_server_no_origin [OF assms(1)] by (rule route)
  with assms(3) show ?thesis by (simp add: ws_main_handler_def)
qed

end
