(* ===== verification/ApiScenario.thy ===== *)
theory ApiScenario
  imports Config
begin

text \<open>
  Concrete libraries and a concrete state, on which the properties of the interface are instantiated:
  the tables of the schema, a hash that keeps the password readable, and tokens that carry their key.
\<close>

definition plain_generate :: "string \<Rightarrow> nat \<Rightarrow> go_error + string" where
  "plain_generate p cost = (if length p > 72 then Inl (LibErr ''bcrypt: password length exceeds 72 bytes'') else Inr (CHR ''$'' # p))"

definition plain_compare :: "string \<Rightarrow> string \<Rightarrow> go_error option" where
  "plain_compare h p = (if h = CHR ''$'' # p then None else Some (LibErr ''bcrypt: mismatch''))"

lemma plain_bcrypt: "plain_generate p 14 = Inr h \<Longrightarrow> plain_compare h p = None"
  "plain_generate p 14 = Inl e \<Longrightarrow> plain_error e"
  by (auto simp: plain_generate_def plain_compare_def split: if_splits)

definition bar :: char where
  "bar = CHR ''|''"

definition plain_sign :: jwt_sign where
  "plain_sign c k =
     (if bar \<in> set k \<or> bar \<in> set (cl_id c) \<or> bar \<in> set (cl_subject c) \<or> \<not> fits_uint64 (cl_issuedAt c) \<or> \<not> fits_uint64 (cl_expiresAt c)
      then Inl (LibErr ''sign'')
      else Inr (join_with bar [k, cl_id c, cl_subject c, format_uint (of_int (cl_issuedAt c)),
        format_uint (of_int (cl_expiresAt c)), format_uint (cl_userID c)]))"

definition plain_claims :: "int \<Rightarrow> string \<Rightarrow> string list \<Rightarrow> go_error + user_claims" where
  "plain_claims now k parts =
     (case parts of
        [k', i, s, a, e, u] \<Rightarrow>
          (case (parse_uint a, parse_uint e, parse_uint u) of
             (Some a, Some e, Some u) \<Rightarrow>
               if k' = k \<and> now < uint e
               then Inr \<lparr>cl_id = i, cl_subject = s, cl_issuedAt = uint a, cl_expiresAt = uint e, cl_userID = u\<rparr>
               else Inl (LibErr ''token is expired or its signature is invalid'')
           | _ \<Rightarrow> Inl (LibErr ''token is malformed''))
      | _ \<Rightarrow> Inl (LibErr ''token is malformed''))"

definition plain_parse :: jwt_parse where
  "plain_parse now token kf =
     (case kf HMAC of
        Inl e \<Rightarrow> Inl e
      | Inr k \<Rightarrow> plain_claims now k (split_at bar token))"

lemma uint_of_fit: "fits_uint64 i \<Longrightarrow> uint (of_int i :: u64) = i"
  by (simp add: fits_uint64_def uint_word_of_int take_bit_int_eq_self)

lemma bar_plain: "bar \<notin> set (format_uint w)"
  by (rule format_uint_plain) (simp add: bar_def)

lemma plain_round_trip:
  assumes "plain_sign c k = Inr token" and "kf HMAC = Inr k" and "now < cl_expiresAt c"
  shows "plain_parse now token kf = Inr c"
proof -
  let ?parts = "[k, cl_id c, cl_subject c, format_uint (of_int (cl_issuedAt c)),
        format_uint (of_int (cl_expiresAt c)), format_uint (cl_userID c)]"
  from assms(1) have plain: "bar \<notin> set k" "bar \<notin> set (cl_id c)" "bar \<notin> set (cl_subject c)"
    "fits_uint64 (cl_issuedAt c)" "fits_uint64 (cl_expiresAt c)" and token: "token = join_with bar ?parts"
    by (auto simp: plain_sign_def split: if_splits)
  have "split_at bar token = ?parts"
    unfolding token by (rule split_join) (use plain bar_plain in simp_all)
  then show ?thesis using assms(2,3) plain by (simp add: plain_parse_def plain_claims_def uint_of_fit)
qed

lemma plain_claims_expiry: "plain_claims now k parts = Inr c \<Longrightarrow> now < cl_expiresAt c"
  by (auto simp: plain_claims_def split: list.splits option.splits if_splits)

lemma plain_jwt: "jwt_contract plain_sign plain_parse"
  unfolding jwt_contract_def
proof (intro conjI allI impI)
  fix c now token kf assume "plain_parse now token kf = Inr c"
  then obtain k where "kf HMAC = Inr k" "plain_claims now k (split_at bar token) = Inr c"
    by (auto simp: plain_parse_def split: sum.splits)
  then show "\<exists>m k. kf m = Inr k" "now < cl_expiresAt c" using plain_claims_expiry by blast+
qed (blast intro: plain_round_trip)

text \<open>A user name and a password that pass the validation; the body is not looked at.\<close>

definition alice :: credentials where
  "alice = \<lparr>cr_username = ''alice'', cr_password = ''secret''\<rparr>"

definition plain_deps :: "tables http_deps" where
  "plain_deps = \<lparr>hd_query = table_query, hd_begin = table_begin, hd_commit = table_commit,
     hd_generate = plain_generate, hd_compare = plain_compare, hd_sign = plain_sign, hd_parse = plain_parse,
     hd_token = \<lparr>jt_secret = ''k'', jt_duration = 2592000\<rparr>, hd_json = (\<lambda>s. CHR 0x22 # s @ [CHR 0x22]),
     hd_decode = (\<lambda>s. if s = ''null'' then Inr None else Inr (Some alice))\<rparr>"

definition some_oracle :: http_oracle where
  "some_oracle = \<lparr>ho_random = Some (replicate 16 7), ho_uuid = Some ''u'', ho_now = 1000, ho_now' = 1000\<rparr>"

definition get_request :: "string \<Rightarrow> (string \<Rightarrow> string) \<Rightarrow> request" where
  "get_request path hdr = \<lparr>rq_method = ''GET'', rq_path = path, rq_header = hdr, rq_remoteAddr = ''1.2.3.4:5'',
     rq_body = '''', rq_user = None\<rparr>"

definition null_request :: request where
  "null_request = \<lparr>rq_method = ''POST'', rq_path = ''/api/v1/auth/sign-up'', rq_header = (\<lambda>_. ''''), rq_remoteAddr = '''',
     rq_body = ''null'', rq_user = None\<rparr>"

text \<open>The tables once alice has signed up.\<close>

definition alice_user :: user where
  "alice_user = \<lparr>us_id = 1, us_username = ''alice'', us_password = ''$secret'', us_created = 0\<rparr>"

definition alice_key :: stream_key where
  "alice_key = \<lparr>sk_id = 1, sk_key = ''sk_07070707070707070707070707070707'', sk_userID = 1, sk_active = True, sk_created = 0\<rparr>"

definition alice_tables :: tables where
  "alice_tables = \<lparr>tb_users = [alice_user], tb_keys = [alice_key], tb_nextUser = 2, tb_nextKey = 2, tb_now = 0\<rparr>"

lemma alice_tables_valid: "tables_valid alice_tables"
  by (simp add: tables_valid_def alice_tables_def alice_user_def alice_key_def serial_limit_def)

lemma some_key: "create_stream_key (Some (replicate 16 7)) = Inr (sk_key alice_key)"
  by code_simp

lemma query_rows:
  "users_save table_query \<lparr>us_id = 0, us_username = n, us_password = p, us_created = 0\<rparr> t
     = (case insert_user_row n p t of
          (Inl e, t) \<Rightarrow> (Inl (map_error e), t)
        | (Inr row, t) \<Rightarrow> (case scan_id_created row of
             Inl e \<Rightarrow> (Inl (map_error e), t)
           | Inr (i, c) \<Rightarrow> (Inr \<lparr>us_id = i, us_username = n, us_password = p, us_created = c\<rparr>, t)))"
  by (simp add: users_save_def query_row_def table_query_def split: prod.splits sum.splits)

lemma alice_saved:
  "users_save table_query \<lparr>us_id = 0, us_username = ''alice'', us_password = ''$secret'', us_created = 0\<rparr> empty_tables
     = (Inr alice_user, alice_tables\<lparr>tb_keys := [], tb_nextKey := 1\<rparr>)"
  by (simp add: query_rows insert_user_row_def empty_tables_def serial_limit_def fits_uint64_def alice_user_def alice_tables_def)

lemma alice_key_saved:
  "keys_save table_query \<lparr>sk_id = 0, sk_key = sk_key alice_key, sk_userID = 1, sk_active = True, sk_created = 0\<rparr>
     (alice_tables\<lparr>tb_keys := [], tb_nextKey := 1\<rparr>) = (Inr alice_key, alice_tables)"
  by (simp add: keys_save_def query_row_def table_query_def insert_key_row_def serial_limit_def fits_uint64_def
    alice_tables_def alice_user_def) (simp add: alice_key_def)

lemma alice_signs_up:
  "sign_up table_query table_begin table_commit plain_generate (ho_random some_oracle) ''alice'' ''secret'' empty_tables
     = (Inr alice_user, alice_tables)"
proof -
  have "save_account table_query ''alice'' ''$secret'' (sk_key alice_key) empty_tables = (Inr alice_user, alice_tables)"
    unfolding save_account_def alice_saved using alice_key_saved by (simp add: alice_user_def)
  moreover have "users_exists_by_username table_query ''alice'' empty_tables = (False, empty_tables)"
    by (simp add: users_exists_by_username_def table_query_def empty_tables_def)
  moreover have "hash_password plain_generate ''secret'' = Inr ''$secret''"
    by (simp add: hash_password_def plain_generate_def)
  ultimately show ?thesis unfolding sign_up_def sign_up_insert_def some_oracle_def
    by (simp only: some_key prod.case sum.case bool.case http_oracle.simps)
      (simp add: exec_trx_def table_begin_def table_commit_def)
qed

text \<open>An environment that \<open>NewConfig\<close> accepts.\<close>

definition some_env :: "string \<Rightarrow> string" where
  "some_env x = (case map_of [(''HTTP_SERVER_HOST'', ''0.0.0.0''), (''HTTP_SERVER_PORT'', ''80''), (''RTMP_SERVER_HOST'', ''0.0.0.0''),
     (''RTMP_SERVER_PORT'', ''1935''), (''DB_USER'', ''u''), (''DB_PASSWORD'', ''p w''), (''DB_HOST'', ''db''), (''DB_PORT'', ''5432''),
     (''DB_NAME'', ''lively''), (''DB_SSL_MODE'', ''disable''), (''HTTP_ALLOWED_ORIGINS'', ''https://a,https://b''),
     (''JWT_ACCESS_TOKEN_SECRET'', ''k'')] x of None \<Rightarrow> '''' | Some v \<Rightarrow> v)"

definition some_config :: config where
  "some_config = \<lparr>cf_databaseURL = ''postgres://u:p+w@db:5432/lively?sslmode=disable'', cf_httpServerHost = ''0.0.0.0'',
     cf_httpServerPort = ''80'', cf_httpAllowedOrigins = [''https://a'', ''https://b''], cf_rtmpServerHost = ''0.0.0.0'',
     cf_rtmpServerPort = ''1935'', cf_jwtAccessTokenSecret = ''k''\<rparr>"

lemma some_env_config: "new_config some_env = Inr some_config"
  by code_simp

end
