(* ===== verification/Scenario.thy ===== *)
theory Scenario
  imports RtmpHandlers
begin

text \<open>
  A small concrete state, on which the properties are instantiated: publisher 0 publishes stream
  \<open>7\<close>; consumer 0 is in its map and has room for two messages, consumer 1 has just been made and
  has the channel of the code. Buffer 0 holds three bytes and is held once by the session; buffer 1
  is the meta data the publisher keeps.
\<close>

definition pub7 :: publisher where
  "pub7 = \<lparr>pub_id = ''7'', pub_consumers = Some [(''c0'', \<lparr>cd_consumer = 0, cd_sentVideoKeyFrame = False\<rparr>)],
     pub_videoPool = (0, VideoPool), pub_audioPool = (0, AudioPool), pub_videoSeqHdr = None,
     pub_audioSeqHdr = None, pub_meta = Some 1\<rparr>"

definition idle_conn :: conn where
  "idle_conn = \<lparr>cn_out = [], cn_closed = False, cn_budget = None\<rparr>"

definition viewer :: "string \<Rightarrow> nat \<Rightarrow> ws_consumer" where
  "viewer cid cap = \<lparr>wc_id = cid, wc_pubID = ''7'', wc_conn = idle_conn,
     wc_messages = \<lparr>ch_cap = cap, ch_queue = [], ch_closed = False\<rparr>, wc_stopped = 0, wc_bufs = [],
     wc_wsHdr = \<lparr>wh_len = 0, wh_data = replicate 14 0\<rparr>, wc_mesgHdr = replicate mesgHdrLen 0\<rparr>"

definition world7 :: media_world where
  "world7 = \<lparr>h_bufs = [\<lparr>sb_pool = (0, VideoPool), sb_buf = [1, 2, 3], sb_refs = 2, sb_len = 3\<rparr>,
       \<lparr>sb_pool = (0, AudioPool), sb_buf = [9, 8], sb_refs = 1, sb_len = 2\<rparr>],
     h_pools = (\<lambda>_. []), w_cons = [viewer ''c0'' 2, viewer ''c1'' 128], w_pubs = [pub7], w_chan = [(''7'', 0)]\<rparr>"

lemma viewer_simps [simp]:
  "wc_id (viewer cid cap) = cid" "wc_pubID (viewer cid cap) = ''7''" "ch_cap (wc_messages (viewer cid cap)) = cap"
  "ch_queue (wc_messages (viewer cid cap)) = []" "\<not> ch_closed (wc_messages (viewer cid cap))"
  "wc_bufs (viewer cid cap) = []" "wc_conn (viewer cid cap) = idle_conn" "cons_ok (viewer cid cap)"
  by (simp_all add: viewer_def cons_ok_def chan_ok_def)

lemma world7_simps [simp]:
  "w_cons world7 = [viewer ''c0'' 2, viewer ''c1'' 128]" "w_pubs world7 = [pub7]" "w_chan world7 = [(''7'', 0)]"
  "h_pools world7 pr = []" "length (h_bufs world7) = 2"
  "consumers_of pub7 = [(''c0'', \<lparr>cd_consumer = 0, cd_sentVideoKeyFrame = False\<rparr>)]"
  "queue_of world7 0 = []" "queue_of world7 (Suc 0) = []" "live world7 = {0}" "\<not> closed_of world7 0"
  "\<not> closed_of world7 (Suc 0)"
  "sb_count (h_bufs world7 ! 0) = 2" "sb_count (h_bufs world7 ! Suc 0) = 1" "members world7 0 = {0}"
  by (simp_all add: world7_def pub7_def queue_of_def live_def closed_of_def sb_count_def members_def)

lemma less_two: "(a :: nat) < 2 \<longleftrightarrow> a = 0 \<or> a = 1"
  by auto

lemma world7_heap: "heap_ok {#0#} world7"
proof -
  have q: "queued world7 a = 0" for a by (simp add: queued_def queue_refs_def)
  have p: "pinned world7 a \<longleftrightarrow> a = 1" for a by (auto simp: pinned_def pins_def pub7_def)
  have b: "sb_ok (h_bufs world7 ! a) \<and> sb_count (h_bufs world7 ! a) < ref_limit
      \<and> count {#0#} a + queued world7 a + of_bool (pinned world7 a \<or> foreign (h_bufs world7 ! a))
        \<le> sb_count (h_bufs world7 ! a)" if "a < length (h_bufs world7)" for a
    using that unfolding world7_simps(5) less_two q p
    by (elim disjE; simp) (simp_all add: world7_def sb_ok_def sb_count_def ref_limit_def foreign_def)
  show ?thesis
    by (rule heap_okI) (use b in \<open>simp_all add: q p pool_ok_def\<close>)
qed

lemma world7_ok: "media_ok {#0#} world7"
proof -
  have "pub_ok world7 0"
    by (simp add: pub_ok_def keys_def entry_ok_def closed_of_def) (simp add: pub7_def)
  then have "live_ok {#0#} (live world7) world7"
    using world7_heap by (simp add: live_ok_def consumers_ok_def)
  then show ?thesis by (simp add: media_ok_def table_ok_def keys_def) (simp add: pub7_def)
qed

lemma world7_entry: "entry world7 0 0 = Some \<lparr>cd_consumer = 0, cd_sentVideoKeyFrame = False\<rparr>"
  by (simp add: entry_def)

definition session7 :: rtmp_session where
  "session7 = \<lparr>rs_userID = 7, rs_pub = Some 0, rs_naluHdr = replicate naluHdrSize 0\<rparr>"

lemma session7_publishing: "publishing 0 session7"
  by (simp add: publishing_def session7_def)

definition plain_runtime :: runtime where
  "plain_runtime = \<lparr>rt_pick = (\<lambda>_. None), rt_perm = id\<rparr>"

lemma permutes_id: "permutes_keys id"
  by (simp add: permutes_keys_def)

lemma plain_runtime_fair: "fair (\<lambda>_. plain_runtime)"
  by (simp add: fair_def plain_runtime_def permutes_id)

text \<open>A WebSocket library that writes a two-byte header for short frames.\<close>

definition short_lib :: ws_lib where
  "short_lib = \<lparr>ws_header_bytes = (\<lambda>n. if n < 126 then Inr [130, of_int n] else Inl ErrShortBuffer),
     ws_maxHeaderSize = 14\<rparr>"

text \<open>A run of the machine: a stream is published, a buffer is taken and given back.\<close>

definition pooled_sys :: media_sys where
  "pooled_sys = \<lparr>ms_world =
     \<lparr>h_bufs = [(fresh_buf (0, VideoPool))\<lparr>sb_refs := 0, sb_len := 0\<rparr>],
      h_pools = (\<lambda>pr. if pr = (0, VideoPool) then [0] else []), w_cons = [],
      w_pubs = [\<lparr>pub_id = ''7'', pub_consumers = None, pub_videoPool = (0, VideoPool),
        pub_audioPool = (0, AudioPool), pub_videoSeqHdr = None, pub_audioSeqHdr = None, pub_meta = None\<rparr>],
      w_chan = [(''7'', 0)]\<rparr>, ms_held = {#}, ms_pc = (\<lambda>_. Writing)\<rparr>"

definition pooled_run :: "media_op list" where
  "pooled_run = [Create ''7'', Store 0, Take (\<lambda>_. None) VideoPool 0, Drop 0]"

lemma pooled_run_steps:
  "run_machine (exec short_lib) pooled_run init_sys = Some pooled_sys"
  "all_allowed allowed (exec short_lib) pooled_run init_sys"
  by (simp_all add: pooled_run_def init_sys_def empty_world_def exec_def new_publisher_def unpublished_def live_def consumers_of_def
      get_publisher_def store_publisher_def acquire_buffer_def acquire_video_buffer_def acquire_from_pool_def
      pool_get_def pool_new_eq h_acquire_def h_release_def sb_release_def sb_acquire_def sb_reset_def Let_def
      pooled_sys_def fresh_buf_def fun_eq_iff)

lemma pooled_reachable: "reachable (\<lambda>s. s = init_sys) allowed (exec short_lib) pooled_sys"
  by (rule reachable_run [OF _ pooled_run_steps(2,1)]) (simp add: reachable.start)

end
