(* ===== verification/ProgramScenario.thy ===== *)
theory ProgramScenario
  imports ProgramOk ApiScenario Scenario
begin

text \<open>
  The schema of the migrations is a database of the program, whatever the libraries, and the contract of a
  deployment holds of the model. A concrete run, on which the properties are instantiated: alice's
  encoder connects with her key and sends the meta data, and a viewer opens her stream.
\<close>

definition with_tables :: "'a http_deps \<Rightarrow> tables http_deps" where
  "with_tables libs = \<lparr>hd_query = table_query, hd_begin = table_begin, hd_commit = table_commit,
     hd_generate = hd_generate libs, hd_compare = hd_compare libs, hd_sign = hd_sign libs, hd_parse = hd_parse libs,
     hd_token = hd_token libs, hd_json = hd_json libs, hd_decode = hd_decode libs\<rparr>"

lemma tables_database:
  "sql_transactions (hd_query (with_tables libs)) tb_users tb_keys tables_valid (hd_begin (with_tables libs)) (hd_commit (with_tables libs))"
  using schema.sql_transactions_axioms by (simp add: with_tables_def)

lemma tables_deployment: "new_config getenv = Inr conf \<Longrightarrow> deployment (with_tables libs) tb_users tb_keys tables_valid getenv conf"
  by (rule deployment.intro [OF tables_database]) (rule deployment_axioms.intro)

interpretation migrated: deployment "with_tables libs" tb_users tb_keys tables_valid some_env some_config lib fallback
  for libs lib fallback
  by (rule tables_deployment [OF some_env_config])

lemma plain_deployment: "deployment plain_deps tb_users tb_keys tables_valid some_env some_config"
proof -
  have "with_tables plain_deps = plain_deps" by (simp add: with_tables_def plain_deps_def)
  then show ?thesis using migrated.deployment_axioms [of plain_deps] by simp
qed

section \<open>A run\<close>

abbreviation no_page :: "request \<Rightarrow> writer \<Rightarrow> writer" where
  "no_page \<equiv> \<lambda>req w. w"

abbreviation plain_exec :: "program_op \<Rightarrow> tables program \<Rightarrow> tables program option" where
  "plain_exec \<equiv> program_exec some_config plain_deps short_lib no_page"

abbreviation plain_running :: "tables program \<Rightarrow> bool" where
  "plain_running \<equiv> running plain_deps tables_valid some_config short_lib no_page"

lemma plain_step:
  assumes "plain_running p" and "unraced op p" and "\<not> sends_on_closed op p"
  shows "plain_running (the (plain_exec op p))"
proof -
  have "plain_exec op p \<noteq> None" using deployment.running_progress [OF plain_deployment assms(1)] assms(2,3) by blast
  then show ?thesis by (intro reachable.step [OF assms(1,2)]) simp
qed

definition alice_connect :: "string option" where
  "alice_connect = Some (''live/'' @ sk_key alice_key)"

lemma alice_connects: "conn_key table_query alice_connect alice_tables = (Inr 1, alice_tables)"
  by code_simp

text \<open>The only connection reads a message.\<close>

definition reads :: "rtmp_input \<Rightarrow> program_op" where
  "reads i = Streaming (Conn 0 (\<lambda>_. id) id (\<lambda>_ _. plain_runtime) i)"

definition some_meta :: meta_data_message where
  "some_meta = \<lparr>mm_width = 1280, mm_height = 720, mm_frameRate = 30, mm_videoDataRate = 2500, mm_audioChannels = 2,
     mm_audioSampleRate = 44100, mm_audioDataRate = 160\<rparr>"

definition watch_upgrade :: upgrade where
  "watch_upgrade = \<lparr>up_conn = Some idle_conn, up_uuid = Some ''v1'', up_accepted = False, up_answer = id\<rparr>"

definition watch_request :: request where
  "watch_request = get_request ''/ws/streams/1'' (\<lambda>_. '''')"

definition alice_live :: "tables program" where
  "alice_live = the (plain_exec (Incoming alice_connect True) (init_program alice_tables))"

definition alice_checked :: "tables program" where
  "alice_checked = the (plain_exec (reads OtherMessage) alice_live)"

definition alice_added :: "tables program" where
  "alice_added = the (plain_exec (reads OtherMessage) alice_checked)"

definition alice_streams :: "tables program" where
  "alice_streams = the (plain_exec (reads OtherMessage) alice_added)"

definition alice_described :: "tables program" where
  "alice_described = the (plain_exec (reads (MetaDataMessage some_meta)) alice_streams)"

text \<open>The first viewer's session is opened.\<close>

definition watched :: "tables program \<Rightarrow> tables program" where
  "watched p =
     (let b = pr_backend p; v = bk_server b; m = sv_media v
      in p\<lparr>pr_backend := b\<lparr>bk_server := v\<lparr>
           sv_media := m\<lparr>ms_world := snd (add_cons_obj (new_ws_consumer short_lib ''v1'' ''1'' idle_conn) (ms_world m)),
             ms_pc := (ms_pc m)(0 := Writing)\<rparr>,
           sv_sessions := [\<lparr>vs_consumer = 0, vs_user = 1, vs_addr = ''1.2.3.4'', vs_pc = Joining\<rparr>]\<rparr>\<rparr>\<rparr>)"

definition viewer_opens :: "tables program" where
  "viewer_opens = watched alice_described"

definition viewer_joined :: "tables program" where
  "viewer_joined = the (plain_exec (Streaming (Viewer (Advance (\<lambda>_. id) False 0))) viewer_opens)"

lemma init_running: "plain_running (init_program alice_tables)"
  using alice_tables_valid by (blast intro: reachable.start)

definition reads_alone :: "tables program \<Rightarrow> bool" where
  "reads_alone p \<longleftrightarrow> length (bk_conns (pr_backend p)) = 1
     \<and> cons_map (bk_world (pr_backend p)) (conn_pub (bk_conns (pr_backend p) ! 0)) = []
     \<and> (rc_pc (bk_conns (pr_backend p) ! 0) = Checked \<longrightarrow> w_chan (bk_world (pr_backend p)) = [])"

lemma reads_step: "plain_running p \<Longrightarrow> reads_alone p \<Longrightarrow> plain_running (the (plain_exec (reads i) p))"
  using plain_runtime_fair
  by (intro plain_step) (simp_all add: reads_alone_def reads_def permutes_id ref_limit_def get_publisher_def del: program_exec.simps)

lemma alice_reads: "reads_alone alice_live" "reads_alone alice_checked" "reads_alone alice_added" "reads_alone alice_streams"
  by code_simp+

lemma alice_running: "plain_running alice_live" "plain_running alice_checked" "plain_running alice_added" "plain_running alice_streams" "plain_running alice_described"
proof -
  show 1: "plain_running alice_live" unfolding alice_live_def by (rule plain_step [OF init_running]) simp_all
  show 2: "plain_running alice_checked" unfolding alice_checked_def by (rule reads_step [OF 1 alice_reads(1)])
  show 3: "plain_running alice_added" unfolding alice_added_def by (rule reads_step [OF 2 alice_reads(2)])
  show 4: "plain_running alice_streams" unfolding alice_streams_def by (rule reads_step [OF 3 alice_reads(3)])
  show "plain_running alice_described" unfolding alice_described_def by (rule reads_step [OF 4 alice_reads(4)])
qed

lemma one_plain: "''/ws/streams/1'' = ''/ws/streams/'' @ format_uint 1"
  by code_simp

lemma watch_address: "get_real_ip watch_request = ''1.2.3.4''"
  by code_simp

lemma alice_described_facts:
  "length (w_cons (bk_world (pr_backend alice_described))) = 0" "length (sv_sessions (bk_server (pr_backend alice_described))) = 0"
  by code_simp+

lemma watched_step:
  assumes "length (w_cons (bk_world (pr_backend p))) = 0" and "length (sv_sessions (bk_server (pr_backend p))) = 0"
  shows "plain_exec (Request some_oracle watch_upgrade watch_request) p = Some (watched p)"
proof -
  have "get_publisher_id ''/ws/streams/1'' = Inr (''1'', 1)"
    using get_publisher_id_streams [of 1] by (simp add: format_uint_def decimal.simps)
  then have opens: "backend_exec short_lib (Viewer (Serve (Some idle_conn) ''/ws/streams/1'' (Some ''v1'') ''1.2.3.4'')) (pr_backend p)
      = Some (pr_backend (watched p))"
    using assms by (simp add: serve_http_def exec_def add_cons_obj_def watched_def Let_def)
  have req: "rq_header watch_request ''Origin'' = ''''" "rq_path watch_request = ''/ws/streams/'' @ format_uint 1"
    unfolding one_plain [symmetric] by (simp_all add: watch_request_def get_request_def)
  have up: "rq_path watch_request = ''/ws/streams/1''" "up_conn watch_upgrade = Some idle_conn" "up_uuid watch_upgrade = Some ''v1''"
    by (simp_all add: watch_request_def get_request_def watch_upgrade_def)
  have "p\<lparr>pr_backend := pr_backend (watched p)\<rparr> = watched p" by (simp add: watched_def Let_def)
  then show ?thesis unfolding program_exec.simps stream_served [OF req] ws_media_handler_def
    using opens up by (simp add: watch_address del: backend_exec.simps)
qed

lemma viewer_opens_running: "plain_running viewer_opens"
  unfolding viewer_opens_def by (rule reachable.step [OF alice_running(5) _ watched_step [OF alice_described_facts]]) simp

lemma viewer_opens_facts:
  "length (sv_sessions (bk_server (pr_backend viewer_opens))) = 1"
  "w_chan (bk_world (pr_backend viewer_opens)) = [(''1'', 0)]"
  "pub_videoSeqHdr (w_pubs (bk_world (pr_backend viewer_opens)) ! 0) = None"
  "pub_audioSeqHdr (w_pubs (bk_world (pr_backend viewer_opens)) ! 0) = None"
  "pub_meta (w_pubs (bk_world (pr_backend viewer_opens)) ! 0) = Some 0"
  "sb_refs (h_bufs (bk_world (pr_backend viewer_opens)) ! 0) = 1"
  by code_simp+

lemma viewer_joined_running: "plain_running viewer_joined"
proof -
  have "program_allowed (Streaming (Viewer (Advance (\<lambda>_. id) False 0))) viewer_opens"
    using viewer_opens_facts by (auto simp: permutes_id live_def room_for_def pins_def sb_count_def ref_limit_def)
  then show ?thesis unfolding viewer_joined_def by (intro plain_step [OF viewer_opens_running]) (simp_all del: program_exec.simps)
qed

lemma viewer_joined_facts:
  "sv_sessions (bk_server (pr_backend viewer_joined)) = [\<lparr>vs_consumer = 0, vs_user = 1, vs_addr = ''1.2.3.4'', vs_pc = Counting\<rparr>]"
  "bk_conns (pr_backend viewer_joined) = [\<lparr>rc_session = new_session\<lparr>rs_pub := Some 0, rs_userID := 1\<rparr>, rc_pc = OnAir\<rparr>]"
  "members (bk_world (pr_backend viewer_joined)) 0 = {0}"
  "length (w_cons (bk_world (pr_backend viewer_joined))) = 1"
  "queue_of (bk_world (pr_backend viewer_joined)) 0
     = [\<lparr>m_type = MesgMetaData, m_flags = 0, m_timestamp = 0, m_length = 14, m_data = 0\<rparr>]"
  by code_simp+

text \<open>The session is counted.\<close>

definition viewer_counted :: "tables program" where
  "viewer_counted = the (plain_exec (Streaming (Viewer (Advance (\<lambda>_. id) False 0))) viewer_joined)"

lemma viewer_joined_table:
  "w_chan (bk_world (pr_backend viewer_joined)) = [(''1'', 0)]"
  "pub_videoSeqHdr (w_pubs (bk_world (pr_backend viewer_joined)) ! 0) = None"
  "pub_audioSeqHdr (w_pubs (bk_world (pr_backend viewer_joined)) ! 0) = None"
  "pub_meta (w_pubs (bk_world (pr_backend viewer_joined)) ! 0) = Some 0"
  "sb_refs (h_bufs (bk_world (pr_backend viewer_joined)) ! 0) = 2"
  by code_simp+

lemma viewer_counted_running: "plain_running viewer_counted"
proof -
  have "program_allowed (Streaming (Viewer (Advance (\<lambda>_. id) False 0))) viewer_joined"
    using viewer_joined_table viewer_joined_facts(1) by (auto simp: permutes_id live_def room_for_def pins_def sb_count_def ref_limit_def)
  then show ?thesis unfolding viewer_counted_def by (intro plain_step [OF viewer_joined_running]) (simp_all del: program_exec.simps)
qed

lemma viewer_counted_facts:
  "sv_sessions (bk_server (pr_backend viewer_counted)) = [\<lparr>vs_consumer = 0, vs_user = 1, vs_addr = ''1.2.3.4'', vs_pc = Watching\<rparr>]"
  "bk_conns (pr_backend viewer_counted) = [\<lparr>rc_session = new_session\<lparr>rs_pub := Some 0, rs_userID := 1\<rparr>, rc_pc = OnAir\<rparr>]"
  "members (bk_world (pr_backend viewer_counted)) 0 = {0}"
  by code_simp+

end
