(* ===== verification/EventScenario.thy ===== *)
theory EventScenario
  imports ProgramScenario
begin

text \<open>
  A concrete run on the side of the events: a client opens a connection to the topic transport and asks for
  the starts of alice's stream; alice's encoder connects twice; the first event is handed to the client, whose
  socket takes its time, and the second one waits.
\<close>

definition events_request :: request where
  "events_request = get_request ''/ws/main'' (\<lambda>_. '''')"

definition events_upgrade :: upgrade where
  "events_upgrade = \<lparr>up_conn = None, up_uuid = None, up_accepted = True, up_answer = id\<rparr>"

lemma opened_running: "plain_running (open_events (init_program alice_tables))"
proof (rule reachable.step [OF init_running])
  show "plain_exec (Request some_oracle events_upgrade events_request) (init_program alice_tables) = Some (open_events (init_program alice_tables))"
    by (rule events_served) (simp_all add: events_request_def get_request_def events_upgrade_def)
qed simp

section \<open>Moves\<close>

text \<open>The steps of the run: the payload of the client's message is the topic itself.\<close>

datatype move = Asks string | Connects | Does nat rtmp_input | Forwards "nat option"

fun move_op :: "move \<Rightarrow> program_op" where
  "move_op (Asks topic) = Events (Message Some 0 \<lparr>wm_type = ''subscribe'', wm_data = topic\<rparr>)"
| "move_op Connects = Incoming alice_connect True"
| "move_op (Does k i) = Streaming (Conn k (\<lambda>_. id) id (\<lambda>_ _. plain_runtime) i)"
| "move_op (Forwards yield) = Feed yield"

fun move_fits :: "move \<Rightarrow> tables program \<Rightarrow> bool" where
  "move_fits (Asks topic) p = ws_open (pr_events p) 0"
| "move_fits Connects p = True"
| "move_fits (Does k i) p = (k < length (bk_conns (pr_backend p)) \<and> cons_map (bk_world (pr_backend p)) (conn_pub (bk_conns (pr_backend p) ! k)) = []
     \<and> \<not> store_races (move_op (Does k i)) p)"
| "move_fits (Forwards yield) p = feed_allows yield (pr_feed p) (pr_events p)"

lemma move_allowed: "move_fits m p \<Longrightarrow> unraced (move_op m) p"
  using plain_runtime_fair by (cases m) (simp_all add: permutes_id ref_limit_def)

definition move_exec :: "move \<Rightarrow> tables program \<Rightarrow> tables program option" where
  "move_exec m p = (if move_fits m p then plain_exec (move_op m) p else None)"

lemma move_exec_Some: "move_exec m p = Some q \<longleftrightarrow> move_fits m p \<and> plain_exec (move_op m) p = Some q"
  by (simp add: move_exec_def)

lemma moves_running: "run_machine move_exec ms p = Some q \<Longrightarrow> plain_running p \<Longrightarrow> plain_running q"
proof (induction ms arbitrary: p)
  case (Cons m ms)
  then obtain p' where "move_fits m p" "plain_exec (move_op m) p = Some p'" "run_machine move_exec ms p' = Some q"
    by (auto simp: bind_Some_iff move_exec_Some)
  with Cons move_allowed show ?case by (blast intro: reachable.step)
qed simp

definition moves :: "move list" where
  "moves = [Asks ''stream.1.started'', Connects, Does 0 OtherMessage, Does 0 OtherMessage, Does 0 OtherMessage,
     Forwards None, Forwards (Some 0), Forwards None, Forwards None,
     Does 0 CloseStream, Does 0 OtherMessage, Connects, Does 1 OtherMessage, Does 1 OtherMessage, Does 1 OtherMessage,
     Forwards None, Forwards (Some 0)]"

definition waiting_client :: "tables program" where
  "waiting_client = the (run_machine move_exec moves (open_events (init_program alice_tables)))"

text \<open>The state in which the first event has been handed over and the round is about to end.\<close>

definition handed_client :: "tables program" where
  "handed_client = the (run_machine move_exec (take 8 moves) (open_events (init_program alice_tables)))"

definition started_message :: string where
  \<open>started_message = ''{"type":"stream.1.started","data":{"user_id":1}}''\<close>

lemma moves_end:
  "run_machine move_exec moves (open_events (init_program alice_tables)) \<noteq> None"
  "run_machine move_exec (take 8 moves) (open_events (init_program alice_tables)) \<noteq> None"
  by code_simp+

lemma clients_running: "plain_running waiting_client" "plain_running handed_client"
  using moves_end moves_running [OF _ opened_running, of moves waiting_client] moves_running [OF _ opened_running, of "take 8 moves" handed_client]
  by (auto simp: waiting_client_def handed_client_def)

lemma waiting_client_facts:
  "pr_feed waiting_client = Sending 0 [0] [] started_message 0"
  "pr_writers waiting_client = [\<lparr>ww_pc = WritingOut started_message, ww_done = []\<rparr>]"
  "map mc_sent (wm_conns (pr_events waiting_client)) = [[started_message]]"
  by code_simp+

lemma handed_client_facts:
  "pr_feed handed_client = Ranging 0 [0] [0] started_message"
  "wm_maps (pr_events handed_client) = [[0]]"
  by code_simp+

text \<open>The client closes its connection while the second event is waiting for it.\<close>

definition closed_client :: "tables program" where
  "closed_client = the (plain_exec (Events (Disconnect id 0)) waiting_client)"

lemma waiting_client_open: "ws_open (pr_events waiting_client) 0"
  by code_simp

lemma closed_client_step: "plain_exec (Events (Disconnect id 0)) waiting_client = Some closed_client"
proof -
  have "program_allowed (Events (Disconnect id 0)) waiting_client" using waiting_client_open by (simp add: permutes_id)
  from deployment.running_progress [OF plain_deployment clients_running(1) this] show ?thesis
    by (auto simp: closed_client_def simp del: program_exec.simps)
qed

lemma closed_client_running: "plain_running closed_client"
  by (rule reachable.step [OF clients_running(1) _ closed_client_step]) (use waiting_client_open in \<open>simp add: permutes_id\<close>)

lemma closed_client_facts:
  "pr_feed closed_client = Sending 0 [0] [] started_message 0" "map mc_closed (wm_conns (pr_events closed_client)) = [True]"
  by code_simp+

text \<open>The first write returns and the second event is handed over.\<close>

definition busy_client :: "tables program" where
  "busy_client = the (plain_exec (Feed None) (the (plain_exec (Written 0 False) waiting_client)))"

lemma busy_client_running: "plain_running busy_client"
proof -
  have "unraced (Written 0 False) waiting_client" "\<not> sends_on_closed (Written 0 False) waiting_client"
    by (simp_all add: waiting_client_facts)
  from plain_step [OF clients_running(1) this] have w: "plain_running (the (plain_exec (Written 0 False) waiting_client))" .
  have "pr_feed (the (plain_exec (Written 0 False) waiting_client)) = Sending 0 [0] [] started_message 0"
    "map mc_closed (wm_conns (pr_events (the (plain_exec (Written 0 False) waiting_client)))) = [False]" by code_simp+
  then show ?thesis unfolding busy_client_def
    by (intro plain_step [OF w]) (auto simp: feed_allows_def Cons_eq_map_conv simp del: program_exec.simps)
qed

lemma busy_client_facts:
  "pr_writers busy_client = [\<lparr>ww_pc = WritingOut started_message, ww_done = [(started_message, False)]\<rparr>]"
  "length (wm_conns (pr_events busy_client)) = 1"
  by code_simp+

text \<open>The first round, from the reading of the event to its end.\<close>

definition round_client :: "tables program" where
  "round_client = the (run_machine move_exec (take 6 moves) (open_events (init_program alice_tables)))"

definition served_client :: "tables program" where
  "served_client = the (run_machine plain_exec [Feed (Some 0), Feed None, Feed None] round_client)"

lemma round_client_running: "plain_running round_client"
proof -
  have "run_machine move_exec (take 6 moves) (open_events (init_program alice_tables)) \<noteq> None" by code_simp
  then show ?thesis using moves_running [OF _ opened_running, of "take 6 moves" round_client] by (auto simp: round_client_def)
qed

lemma round_client_facts:
  "pr_feed round_client = Ranging 0 [0] [] started_message" "map mc_sent (wm_conns (pr_events round_client)) = [[]]"
  by code_simp+

text \<open>Its two states on the way.\<close>

definition offered_client :: "tables program" where
  "offered_client = the (plain_exec (Feed (Some 0)) round_client)"

definition taken_client :: "tables program" where
  "taken_client = the (plain_exec (Feed None) offered_client)"

lemma round_steps_return:
  "plain_exec (Feed (Some 0)) round_client \<noteq> None" "plain_exec (Feed None) offered_client \<noteq> None"
  "plain_exec (Feed None) taken_client \<noteq> None"
  by code_simp+

lemma round_places:
  "pr_feed offered_client = Sending 0 [0] [] started_message 0" "pr_feed taken_client = Ranging 0 [0] [0] started_message"
  "wm_maps (pr_events round_client) = [[0]]" "wm_maps (pr_events taken_client) = [[0]]"
  by code_simp+

lemma served_client_steps:
  "run_machine plain_exec [Feed (Some 0), Feed None, Feed None] round_client = Some served_client"
  "all_allowed (\<lambda>op q. unraced op q \<and> pr_feed q \<noteq> Reading \<and> {} \<inter> set (wm_maps (pr_events q) ! 0) = {}) plain_exec
     [Feed (Some 0), Feed None, Feed None] round_client"
proof -
  obtain z where "plain_exec (Feed None) taken_client = Some z" using round_steps_return(3) by blast
  moreover have "plain_exec (Feed (Some 0)) round_client = Some offered_client" "plain_exec (Feed None) offered_client = Some taken_client"
    using round_steps_return by (simp_all add: offered_client_def taken_client_def del: program_exec.simps)
  ultimately show "run_machine plain_exec [Feed (Some 0), Feed None, Feed None] round_client = Some served_client"
    "all_allowed (\<lambda>op q. unraced op q \<and> pr_feed q \<noteq> Reading \<and> {} \<inter> set (wm_maps (pr_events q) ! 0) = {}) plain_exec
     [Feed (Some 0), Feed None, Feed None] round_client"
    using round_places round_client_facts(1)
    by (simp_all add: served_client_def feed_allows_def range_allows_def del: program_exec.simps)
qed

lemma served_client_facts:
  "pr_feed served_client = Reading" "wm_maps (pr_events served_client) = [[0]]" "length (wm_conns (pr_events served_client)) = 1"
  by code_simp+

end
