(* ===== verification/ProgramProps.thy ===== *)
theory ProgramProps
  imports EventScenario
begin

text \<open>
  The properties of the whole program: of every state it can reach from a valid database, whatever its
  clients send and however requests, connections, sessions, goroutines and bus interleave.
\<close>

section \<open>The table of the media channel\<close>

lemma get_publisher_iff:
  assumes "media_ok H w"
  shows "get_publisher x w = Some q \<longleftrightarrow> q \<in> live w \<and> pub_id (w_pubs w ! q) = x"
proof
  assume "get_publisher x w = Some q"
  then have "(x, q) \<in> set (w_chan w)" by (auto simp: get_publisher_def dest: map_of_SomeD)
  with media_okD(3) [OF assms] show "q \<in> live w \<and> pub_id (w_pubs w ! q) = x" by (auto simp: live_iff)
next
  assume "q \<in> live w \<and> pub_id (w_pubs w ! q) = x"
  with live_entry [OF assms] show "get_publisher x w = Some q" by (auto simp: get_publisher_def)
qed

lemma table_of_conns:
  assumes "media_ok H w" and "conns_ok w cs"
  shows "get_publisher x w = Some q \<longleftrightarrow>
    (\<exists>c \<in> set cs. on_air c \<and> rs_pub (rc_session c) = Some q \<and> x = format_uint (rs_userID (rc_session c)))"
proof -
  have "rs_pub (rc_session c) = Some (conn_pub c)" "pub_id (w_pubs w ! conn_pub c) = format_uint (rs_userID (rc_session c))"
    if "c \<in> set cs" for c
    using assms(2) that by (simp_all add: conns_ok_def conn_ok_def publishing_def)
  moreover have "live w = conn_pub ` {c \<in> set cs. on_air c}" using assms(2) by (simp add: conns_ok_def)
  ultimately show ?thesis unfolding get_publisher_iff [OF assms(1)] by auto
qed

lemma one_on_air:
  assumes "media_ok H w" and "conns_ok w cs" and "j < length cs" "k < length cs" and "on_air (cs ! j)" "on_air (cs ! k)"
    and "rs_userID (rc_session (cs ! j)) = rs_userID (rc_session (cs ! k))"
  shows "j = k"
proof -
  have "get_publisher (format_uint (rs_userID (rc_session (cs ! i)))) w = Some (conn_pub (cs ! i))" if "i \<in> {j, k}" for i
  proof -
    from that assms(3-6) have i: "cs ! i \<in> set cs" "on_air (cs ! i)" by auto
    then have "conn_ok w (cs ! i)" using assms(2) by (simp add: conns_ok_def)
    then have "rs_pub (rc_session (cs ! i)) = Some (conn_pub (cs ! i))" by (simp add: conn_ok_def publishing_def)
    with i show ?thesis unfolding table_of_conns [OF assms(1,2)] by blast
  qed
  from this [of j] this [of k] assms(7) have "conn_pub (cs ! j) = conn_pub (cs ! k)" by simp
  then show ?thesis using assms(2-4) by (simp add: conns_ok_def distinct_conv_nth) blast
qed

section \<open>Reachable states\<close>

text \<open>
  C1: When the program panics. In every state it can reach, every operation that is possible there
  returns, be it a request (of which \<open>net/http\<close> recovers a panic), an incoming connection, or a step of a
  session, of a connection, of a reading goroutine or of the topic transport, with one exception that always
  panics: the goroutine that forwards events goes on while the connection that it is sending to has been
  closed. Assumed are that the database follows its schema, that the settings were accepted at the start,
  that iterations of maps are permutations, that a buffer has fewer than \<open>2^31\<close> references, that the parties of
  the topic transport use their connections while they are open, and that on the way to the state no
  connection has stored its publisher over one of the same user that was stored since it looked the
  identifier up (what that race leads to is a property of its own). The runtime's own detection of
  unsynchronised accesses to maps is not modelled.
\<close>

theorem program_panics_exactly:
  assumes "deployment libs users skeys valid getenv conf" and "running libs valid conf lib fallback p"
    and "program_allowed op p"
  shows "program_exec conf libs lib fallback op p = None
    \<longleftrightarrow> (\<exists>yield c. op = Feed yield \<and> sending_to (pr_feed p) = Some c \<and> mc_closed (wm_conns (pr_events p) ! c))"
proof -
  have "sends_on_closed op p
      \<longleftrightarrow> (\<exists>yield c. op = Feed yield \<and> sending_to (pr_feed p) = Some c \<and> mc_closed (wm_conns (pr_events p) ! c))"
    by (cases op) (auto split: option.split)
  then show ?thesis using deployment.running_progress [OF assms] by simp
qed

theorem program_panics_exactly_witness:
  "plain_exec (Incoming alice_connect True) viewer_counted \<noteq> None \<and> plain_exec (Feed None) waiting_client \<noteq> None
     \<and> plain_exec (Events (Disconnect id 0)) waiting_client = Some closed_client \<and> plain_exec (Feed None) closed_client = None"
proof -
  have al: "program_allowed (Incoming alice_connect True) viewer_counted" "program_allowed (Feed None) waiting_client"
    "program_allowed (Feed None) closed_client"
    by (simp_all add: waiting_client_facts closed_client_facts feed_allows_def)
  have cl: "mc_closed (wm_conns (pr_events closed_client) ! 0)" "\<not> mc_closed (wm_conns (pr_events waiting_client) ! 0)"
    using closed_client_facts(2) waiting_client_open by (cases "wm_conns (pr_events closed_client)"; simp add: ws_open_def)+
  show ?thesis
    using program_panics_exactly [OF plain_deployment viewer_counted_running al(1)] program_panics_exactly [OF plain_deployment clients_running(1) al(2)]
      program_panics_exactly [OF plain_deployment closed_client_running al(3)] closed_client_step cl
    by (auto simp: waiting_client_facts(1) closed_client_facts(1) simp del: program_exec.simps)
qed

text \<open>
  C2: The table of the media channel and the connections agree. In every run in which no store of
  \<open>AddPublisher\<close> overwrites a publisher that was stored since the check, a publisher is found under an
  identifier exactly if a connection that is on air publishes with it and the identifier is its user's;
  no two connections on air have the same user; a connection that has not stored its publisher yet has it
  in no table; and every connection's user has an active stream key in the database. The check and the
  store are two steps, between which anything else runs.
\<close>

theorem publishers_are_connections:
  assumes "deployment libs users skeys valid getenv conf" and "running libs valid conf lib fallback p"
  shows "(get_publisher x (bk_world (pr_backend p)) = Some q \<longleftrightarrow> (\<exists>c \<in> set (bk_conns (pr_backend p)).
        on_air c \<and> rs_pub (rc_session c) = Some q \<and> x = format_uint (rs_userID (rc_session c))))
    \<and> (\<forall>j < length (bk_conns (pr_backend p)). \<forall>k < length (bk_conns (pr_backend p)).
        on_air (bk_conns (pr_backend p) ! j) \<and> on_air (bk_conns (pr_backend p) ! k)
        \<and> rs_userID (rc_session (bk_conns (pr_backend p) ! j)) = rs_userID (rc_session (bk_conns (pr_backend p) ! k)) \<longrightarrow> j = k)
    \<and> (\<forall>c \<in> set (bk_conns (pr_backend p)). rc_pc c \<in> {Accepted, Checked}
        \<longrightarrow> (\<forall>y. get_publisher y (bk_world (pr_backend p)) \<noteq> rs_pub (rc_session c)))
    \<and> (\<forall>c \<in> set (bk_conns (pr_backend p)). \<exists>k \<in> set (skeys (pr_db p)).
        sk_userID k = rs_userID (rc_session c) \<and> sk_active k)"
proof -
  note ok = deployment.running_ok [OF assms]
  note D = backend_okD [OF ok(2)]
  show ?thesis
  proof (intro conjI)
    show "\<forall>c \<in> set (bk_conns (pr_backend p)). \<exists>k \<in> set (skeys (pr_db p)). sk_userID k = rs_userID (rc_session c) \<and> sk_active k"
      using ok(1) by (simp add: program_ok_def has_key_def)
    show "\<forall>c \<in> set (bk_conns (pr_backend p)). rc_pc c \<in> {Accepted, Checked}
        \<longrightarrow> (\<forall>y. get_publisher y (bk_world (pr_backend p)) \<noteq> rs_pub (rc_session c))"
      using D(6) get_publisher_iff [OF D(3)] by (auto simp: conns_ok_def conn_ok_def publishing_def unpublished_def)
  qed (use table_of_conns [OF D(3,6)] one_on_air [OF D(3,6)] in blast)+
qed

theorem publishers_are_connections_witness:
  "get_publisher (format_uint 1) (bk_world (pr_backend viewer_joined)) = Some 0
     \<and> (\<exists>k \<in> set (tb_keys (pr_db viewer_joined)). sk_userID k = 1 \<and> sk_active k)"
  using publishers_are_connections [OF plain_deployment viewer_joined_running, of "format_uint 1" 0]
  by (simp add: viewer_joined_facts on_air_def)

text \<open>
  C3: A viewer gets the stream it has asked for and is counted for it. The connection in whose publisher's
  map a session's consumer is belongs to the user whose stream the session has asked for; and once the
  session has been added to the stream service, until it is removed, the service counts the session's
  address among that user's viewers, as often as there are such sessions.
\<close>

theorem viewers_watch_requested_stream:
  assumes "deployment libs users skeys valid getenv conf" and "running libs valid conf lib fallback p"
    and "v \<in> set (sv_sessions (bk_server (pr_backend p)))" and "c \<in> set (bk_conns (pr_backend p))" and "on_air c"
    and "vs_consumer v \<in> members (bk_world (pr_backend p)) (the (rs_pub (rc_session c)))"
  shows "vs_user v = rs_userID (rc_session c)
    \<and> (vs_pc v \<in> {Watching, Uncounting} \<longrightarrow>
        0 < viewer_count (sv_viewers (bk_server (pr_backend p))) (rs_userID (rc_session c)) (vs_addr v))
    \<and> viewer_count (sv_viewers (bk_server (pr_backend p))) (rs_userID (rc_session c)) (vs_addr v)
        = int (length (filter (\<lambda>y. vs_pc y \<in> {Watching, Uncounting} \<and> vs_user y = rs_userID (rc_session c) \<and> vs_addr y = vs_addr v)
            (sv_sessions (bk_server (pr_backend p)))))"
proof -
  let ?w = "bk_world (pr_backend p)" and ?vs = "sv_sessions (bk_server (pr_backend p))"
  note D = backend_okD [OF deployment.running_ok(2) [OF assms(1,2)]]
  note live = on_air_live [OF D(6) assms(4,5)]
  have "conn_ok ?w c" using D(6) assms(4) by (simp add: conns_ok_def)
  moreover have "parse_uint (wc_pubID (w_cons ?w ! vs_consumer v)) = Some (vs_user v)"
    using D(7) assms(3) by (simp add: views_ok_def view_ok_def)
  moreover have "wc_pubID (w_cons ?w ! vs_consumer v) = pub_id (w_pubs ?w ! conn_pub c)"
    using media_okD(4) [OF D(3) live] assms(6) by (simp add: conn_pub_def)
  ultimately have user: "vs_user v = rs_userID (rc_session c)" by (simp add: conn_ok_def)
  have counts: "viewer_count (sv_viewers (bk_server (pr_backend p))) u ip = int (count (counted_sessions ?vs) (u, ip))" for u ip
    by (rule representsD(2) [OF server_okD(3) [OF D(1)]])
  have "0 < count (counted_sessions ?vs) (vs_user v, vs_addr v)" if "vs_pc v \<in> {Watching, Uncounting}"
    using assms(3) that unfolding count_counted_sessions by (auto simp: filter_empty_conv)
  with user show ?thesis unfolding counts by (simp add: count_counted_sessions)
qed

theorem viewers_watch_requested_stream_witness:
  "\<exists>v \<in> set (sv_sessions (bk_server (pr_backend viewer_counted))). \<exists>c \<in> set (bk_conns (pr_backend viewer_counted)).
     vs_consumer v \<in> members (bk_world (pr_backend viewer_counted)) (the (rs_pub (rc_session c)))
     \<and> vs_user v = rs_userID (rc_session c)
     \<and> viewer_count (sv_viewers (bk_server (pr_backend viewer_counted))) 1 ''1.2.3.4'' = 1"
  using viewers_watch_requested_stream [OF plain_deployment viewer_counted_running]
  by (simp add: viewer_counted_facts on_air_def)

text \<open>
  C23: The messages waiting for a viewer are of the five kinds the protocol has: video with at most the
  flags key frame and continuation, audio with at most the flag continuation, and meta data and
  sequence headers without flags and with the timestamp 0.
\<close>

theorem queued_messages_typed:
  assumes "deployment libs users skeys valid getenv conf" and "running libs valid conf lib fallback p"
    and "i < length (w_cons (bk_world (pr_backend p)))" and "m \<in> set (queue_of (bk_world (pr_backend p)) i)"
  shows "well_typed m"
  using backend_okD(8) [OF deployment.running_ok(2) [OF assms(1,2)]] assms(3,4) by (simp add: queues_typed_def)

theorem queued_messages_typed_witness:
  "\<exists>m \<in> set (queue_of (bk_world (pr_backend viewer_joined)) 0). well_typed m"
  using queued_messages_typed [OF plain_deployment viewer_joined_running, of 0]
  by (simp add: viewer_joined_facts)

section \<open>Requests and connections\<close>

text \<open>
  C22: A request by the path of a user's stream. If it gets past the CORS middleware (it has no origin, or
  an allowed one with a method that is let through), its connection is upgraded and the identifier for the
  consumer is made, then exactly one session is opened: it is counted for that user under the address the
  proxy reports, its consumer is new and asks for that user's publisher, it is about to join, and nothing
  else changes. Otherwise no session is opened and nothing changes: so it is for an origin that is not
  allowed, for a preflight, and when the upgrade or the identifier fails.
\<close>

theorem viewer_request:
  assumes "new_config getenv = Inr conf" and "rq_path req = ''/ws/streams/'' @ format_uint u"
  shows "if reaches_handler (cf_httpAllowedOrigins conf) req \<and> up_conn up \<noteq> None \<and> up_uuid up \<noteq> None
    then \<exists>b w. program_exec conf libs lib fallback (Request ora up req) p = Some (p\<lparr>pr_backend := b\<rparr>)
      \<and> main_http conf libs lib fallback ora up req (new_writer, p) = Some (up_answer up w, p\<lparr>pr_backend := b\<rparr>)
      \<and> (rq_header req ''Origin'' = '''' \<longrightarrow> w = new_writer)
      \<and> sv_sessions (bk_server b) = sv_sessions (bk_server (pr_backend p))
          @ [\<lparr>vs_consumer = length (w_cons (bk_world (pr_backend p))), vs_user = u, vs_addr = get_real_ip req, vs_pc = Joining\<rparr>]
      \<and> bk_world b = (bk_world (pr_backend p))\<lparr>w_cons := w_cons (bk_world (pr_backend p))
          @ [new_ws_consumer lib (the (up_uuid up)) (format_uint u) (the (up_conn up))]\<rparr>
      \<and> bk_conns b = bk_conns (pr_backend p) \<and> sv_bus (bk_server b) = pr_bus p
    else program_exec conf libs lib fallback (Request ora up req) p = Some p"
proof -
  let ?req = "req\<lparr>rq_remoteAddr := get_real_ip req\<rparr>" and ?w = "cors_writer (cf_httpAllowedOrigins conf) req new_writer"
  have origins: "cf_httpAllowedOrigins conf \<noteq> []" unfolding new_config_ok(7) [OF assms(1)] by simp
  have path: "rq_path ?req = ''/ws/streams/'' @ format_uint u" using assms(2) by simp
  show ?thesis
  proof (cases "reaches_handler (cf_httpAllowedOrigins conf) req")
    case False
    from run_server_stops [OF origins this, of "main_deps conf libs" ora "main_handlers lib up" "\<lambda>req (w, p). Some (fallback req w, p)" new_writer p]
      False show ?thesis by (simp add: main_http_def del: append.simps)
  next
    case True
    have served: "main_http conf libs lib fallback ora up req (new_writer, p) = ws_media_handler lib up ?req (?w, p)"
      unfolding main_http_def run_server_passes [OF origins True] by (rule stream_route [OF path])
    show ?thesis
    proof (cases "up_conn up \<noteq> None \<and> up_uuid up \<noteq> None")
      case False
      then have "serve_http lib (up_conn up) (''/ws/streams/'' @ format_uint u) (up_uuid up) (get_real_ip req) m = Some (None, m)" for m
        unfolding serve_http_def get_publisher_id_streams by (cases "up_conn up"; cases "up_uuid up") simp_all
      then have "backend_exec lib (Viewer (Serve (up_conn up) (''/ws/streams/'' @ format_uint u) (up_uuid up) (get_real_ip req))) (pr_backend p)
          = Some (pr_backend p)" by (simp del: append.simps)
      then have "ws_media_handler lib up ?req (?w, p) = Some (up_answer up ?w, p)"
        unfolding ws_media_handler_def prod.case path by (simp del: append.simps backend_exec.simps)
      with served False show ?thesis by (auto simp del: append.simps)
    next
      case up: True
      then obtain k cid where k: "up_conn up = Some k" "up_uuid up = Some cid" by auto
      obtain b where b: "backend_exec lib (Viewer (Serve (Some k) (''/ws/streams/'' @ format_uint u) (Some cid) (get_real_ip req))) (pr_backend p) = Some b"
        "bk_conns b = bk_conns (pr_backend p)" "sv_bus (bk_server b) = pr_bus p"
        "sv_sessions (bk_server b) = sv_sessions (bk_server (pr_backend p))
            @ [\<lparr>vs_consumer = length (w_cons (bk_world (pr_backend p))), vs_user = u, vs_addr = get_real_ip req, vs_pc = Joining\<rparr>]"
        "bk_world b = (bk_world (pr_backend p))\<lparr>w_cons := w_cons (bk_world (pr_backend p)) @ [new_ws_consumer lib cid (format_uint u) k]\<rparr>"
        using serve_step [OF get_publisher_id_streams] by blast
      have "ws_media_handler lib up ?req (?w, p) = Some (up_answer up ?w, p\<lparr>pr_backend := b\<rparr>)"
        unfolding ws_media_handler_def prod.case path k using b(1) by (simp del: append.simps backend_exec.simps)
      then have ans: "main_http conf libs lib fallback ora up req (new_writer, p) = Some (up_answer up ?w, p\<lparr>pr_backend := b\<rparr>)"
        unfolding served .
      have "rq_header req ''Origin'' = '''' \<longrightarrow> ?w = new_writer" by (simp add: cors_writer_def)
      with True up ans b(2-) show ?thesis
        unfolding k option.sel by (intro if_P [THEN iffD2] exI [of _ b] exI [of _ ?w] conjI) (simp_all del: append.simps)
    qed
  qed
qed

text \<open>Also a browser's request, from an allowed origin.\<close>

definition browser_request :: request where
  "browser_request = get_request ''/ws/streams/1'' (\<lambda>k. if k = ''Origin'' then ''https://a'' else '''')"

theorem viewer_request_witness:
  "(\<exists>b. plain_exec (Request some_oracle watch_upgrade watch_request) alice_described = Some (alice_described\<lparr>pr_backend := b\<rparr>)
       \<and> sv_sessions (bk_server b) = [\<lparr>vs_consumer = 0, vs_user = 1, vs_addr = ''1.2.3.4'', vs_pc = Joining\<rparr>])
     \<and> (\<exists>b. plain_exec (Request some_oracle watch_upgrade browser_request) alice_described = Some (alice_described\<lparr>pr_backend := b\<rparr>)
       \<and> length (sv_sessions (bk_server b)) = 1)
     \<and> plain_exec (Request some_oracle (watch_upgrade\<lparr>up_uuid := None\<rparr>) watch_request) alice_described = Some alice_described"
proof -
  have path: "rq_path watch_request = ''/ws/streams/'' @ format_uint 1" "rq_path browser_request = ''/ws/streams/'' @ format_uint 1"
    unfolding one_plain [symmetric] by (simp_all add: watch_request_def browser_request_def get_request_def)
  have up: "up_conn watch_upgrade = Some idle_conn" "up_uuid watch_upgrade = Some ''v1''"
    by (simp_all add: watch_upgrade_def)
  have reach: "reaches_handler (cf_httpAllowedOrigins some_config) watch_request" "reaches_handler (cf_httpAllowedOrigins some_config) browser_request"
    by (simp_all add: reaches_handler_def origin_allowed_def watch_request_def browser_request_def get_request_def some_config_def cors_verbs_def)
  note at = viewer_request [OF some_env_config, where libs = plain_deps and lib = short_lib and fallback = no_page
      and ora = some_oracle and p = alice_described]
  show ?thesis
    using at [OF path(1), of watch_upgrade] at [OF path(2), of watch_upgrade] at [OF path(1), of "watch_upgrade\<lparr>up_uuid := None\<rparr>"]
      alice_described_facts reach up
    by (auto simp: watch_address simp del: program_exec.simps)
qed

text \<open>
  C24: An HTTP handler panics (and \<open>net/http\<close> recovers, with nothing changed) only on a POST to the two
  account routes whose body is the JSON document \<open>null\<close>, and always on such a request without an origin.
\<close>

theorem http_panics_only_on_null:
  assumes "deployment libs users skeys valid getenv conf" and "running libs valid conf lib fallback p"
  shows "(main_http conf libs lib fallback ora up req (new_writer, p) = None \<longrightarrow>
        null_account libs req \<and> program_exec conf libs lib fallback (Request ora up req) p = Some p)
    \<and> (rq_header req ''Origin'' = '''' \<and> null_account libs req \<longrightarrow>
        main_http conf libs lib fallback ora up req (new_writer, p) = None)"
proof -
  have "null_account (main_deps conf libs) req = null_account libs req" by (simp add: null_account_def main_deps_def)
  then show ?thesis
    using deployment.http_panic [OF assms, of ora up req] null_account_panics [of "main_deps conf libs" req]
    by (auto simp: main_http_def)
qed

theorem http_panics_only_on_null_witness:
  "main_http some_config plain_deps short_lib no_page some_oracle watch_upgrade null_request (new_writer, init_program alice_tables) = None
     \<and> main_http some_config plain_deps short_lib no_page some_oracle watch_upgrade watch_request (new_writer, init_program alice_tables) \<noteq> None"
  using http_panics_only_on_null [OF plain_deployment init_running, of some_oracle watch_upgrade null_request]
    http_panics_only_on_null [OF plain_deployment init_running, of some_oracle watch_upgrade watch_request]
  by (auto simp: null_account_def null_request_def plain_deps_def watch_request_def get_request_def)

text \<open>
  C21: An incoming connection with the key of a user (one the database has as active) goes on air in
  three steps, the check of \<open>AddPublisher\<close>, its store and the start of the stream, if the user is not
  streaming yet: its publisher is the one found under the user's identifier, and the start of the stream is
  published. If the user is streaming already it is refused by the check, and the media channel and the
  bus stay as they are.
\<close>

theorem key_goes_on_air:
  assumes "deployment libs users skeys valid getenv conf" and "running libs valid conf lib fallback p"
    and "conn_key (hd_query libs) connect (pr_db p) = (Inr u, db)" and "\<forall>sec. permutes_keys (pp sec)"
  shows "\<exists>p1 p2 p3 p4. program_exec conf libs lib fallback (Incoming connect True) p = Some p1
    \<and> program_exec conf libs lib fallback (Streaming (Conn (length (bk_conns (pr_backend p))) pp perm rtss i)) p1 = Some p2
    \<and> program_exec conf libs lib fallback (Streaming (Conn (length (bk_conns (pr_backend p))) pp perm rtss i)) p2 = Some p3
    \<and> program_exec conf libs lib fallback (Streaming (Conn (length (bk_conns (pr_backend p))) pp perm rtss i)) p3 = Some p4
    \<and> (if get_publisher (format_uint u) (bk_world (pr_backend p)) = None
       then rc_pc (last (bk_conns (pr_backend p4))) = OnAir \<and> rs_userID (rc_session (last (bk_conns (pr_backend p4)))) = u
         \<and> get_publisher (format_uint u) (bk_world (pr_backend p4)) = rs_pub (rc_session (last (bk_conns (pr_backend p4))))
         \<and> bus_publish pp (StreamStarted u) (pr_bus p) = Some (pr_bus p4)
       else rc_pc (last (bk_conns (pr_backend p2))) = Done \<and> rc_pc (last (bk_conns (pr_backend p4))) = Done
         \<and> bk_world (pr_backend p4) = bk_world (pr_backend p1)
         \<and> w_chan (bk_world (pr_backend p4)) = w_chan (bk_world (pr_backend p)) \<and> pr_bus p4 = pr_bus p)"
proof -
  let ?w = "bk_world (pr_backend p)" and ?n = "length (bk_conns (pr_backend p))"
  let ?s = "new_session\<lparr>rs_pub := Some (length (w_pubs ?w)), rs_userID := u\<rparr>" and ?v = "snd (new_publisher (format_uint u) ?w)"
  note D = backend_okD [OF deployment.running_ok(2) [OF assms(1,2)]]
  obtain app where app: "connect = Some app" using assms(3) by (cases connect) (simp_all add: conn_key_def)
  note acc = accept_accepted [of "\<lambda>_. Inr u :: go_error + u64" app u ?w, OF refl]
  have s: "rs_pub ?s = Some (length (w_pubs ?w))" "rs_userID ?s = u" by simp_all
  note on = accepted_goes_on [where w = ?w and u = u and publish = bus_publish and pp = pp and perm = perm and rtss = rtss and i = i
      and b = "pr_bus p", OF D(3) s(1)]
  have chan: "w_chan ?v = w_chan ?w" by (rule new_publisher_ok(4) [OF D(3)])
  show ?thesis
  proof (cases "get_publisher (format_uint u) ?w")
    case None
    from on(2) [OF this] obtain v' where v': "conn_step bus_publish pp perm rtss i \<lparr>rc_session = ?s, rc_pc = Checked\<rparr> ?v (pr_bus p)
        = Some (\<lparr>rc_session = ?s, rc_pc = Added\<rparr>, v', pr_bus p)" "get_publisher (format_uint u) v' = Some (length (w_pubs ?w))" by blast
    obtain b where b: "bus_publish pp (StreamStarted u) (pr_bus p) = Some b"
      using bus_sink.publish_ok [OF D(5) assms(4)] by blast
    then have "conn_step bus_publish pp perm rtss i \<lparr>rc_session = ?s, rc_pc = Added\<rparr> v' (pr_bus p)
        = Some (\<lparr>rc_session = ?s, rc_pc = OnAir\<rparr>, v', b)"
      by (simp add: conn_step_def start_stream_def)
    with None app assms(3) acc on(1) v' b show ?thesis by (simp add: nth_append)
  next
    case (Some q)
    have "conn_step bus_publish pp perm rtss i \<lparr>rc_session = ?s, rc_pc = Done\<rparr> ?v (pr_bus p)
        = Some (\<lparr>rc_session = ?s, rc_pc = Done\<rparr>, ?v, pr_bus p)" by (simp add: conn_step_def)
    with Some app assms(3) acc chan on(1) show ?thesis by (simp add: nth_append)
  qed
qed

theorem key_goes_on_air_witness:
  "\<exists>p1 p2 p3 p4. program_exec some_config plain_deps short_lib no_page (Incoming alice_connect True) (init_program alice_tables) = Some p1
    \<and> program_exec some_config plain_deps short_lib no_page (reads OtherMessage) p1 = Some p2
    \<and> program_exec some_config plain_deps short_lib no_page (reads OtherMessage) p2 = Some p3
    \<and> program_exec some_config plain_deps short_lib no_page (reads OtherMessage) p3 = Some p4
    \<and> rc_pc (last (bk_conns (pr_backend p4))) = OnAir"
proof -
  have "conn_key (hd_query plain_deps) alice_connect (pr_db (init_program alice_tables)) = (Inr 1, alice_tables)"
    using alice_connects by (simp add: plain_deps_def init_program_def)
  moreover have "get_publisher (format_uint 1) (bk_world (pr_backend (init_program alice_tables))) = None"
    "length (bk_conns (pr_backend (init_program alice_tables))) = 0" "\<forall>sec :: string. permutes_keys (id :: nat list \<Rightarrow> nat list)"
    by (simp_all add: init_program_def init_server_def init_sys_def empty_world_def get_publisher_def permutes_id)
  ultimately show ?thesis
    using key_goes_on_air [OF plain_deployment init_running, of alice_connect 1 alice_tables "\<lambda>_. id" id "\<lambda>_ _. plain_runtime" OtherMessage]
    unfolding reads_def by auto
qed

end
