(* ===== verification/ProgramRaces.thy ===== *)
theory ProgramRaces
  imports ProgramProps
begin

text \<open>
  What happens when two connections of one user overlap in \<open>AddPublisher\<close>, so that both find the
  identifier free and both store their publisher: the case that the other properties set apart.
\<close>

section \<open>A run in which two connections overlap\<close>

text \<open>
  Alice's encoder connects twice. Both connections look her identifier up before either stores; the first
  goes on air and a viewer joins it; then the second stores.
\<close>

datatype race_step = Comes | Acts nat rtmp_input | GoesOn bool

fun race_op :: "race_step \<Rightarrow> program_op" where
  "race_op Comes = Incoming alice_connect True"
| "race_op (Acts k i) = Streaming (Conn k (\<lambda>_. id) id (\<lambda>_ _. plain_runtime) i)"
| "race_op (GoesOn failed) = Streaming (Viewer (Advance (\<lambda>_. id) failed 0))"

text \<open>What is possible, as something to evaluate: the few buffers there are have few references.\<close>

definition few_refs :: "media_world \<Rightarrow> bool" where
  "few_refs w \<longleftrightarrow> list_all (\<lambda>(x, p). list_all (\<lambda>b. case b of None \<Rightarrow> True | Some a \<Rightarrow> sb_count (h_bufs w ! a) < 9)
     [pub_videoSeqHdr (w_pubs w ! p), pub_audioSeqHdr (w_pubs w ! p), pub_meta (w_pubs w ! p)]) (w_chan w)"

fun race_fits :: "race_step \<Rightarrow> tables program \<Rightarrow> bool" where
  "race_fits Comes p = True"
| "race_fits (Acts k i) p = (k < length (bk_conns (pr_backend p)) \<and> length (cons_map (bk_world (pr_backend p)) (conn_pub (bk_conns (pr_backend p) ! k))) < 9)"
| "race_fits (GoesOn failed) p = (sv_sessions (bk_server (pr_backend p)) \<noteq> [] \<and> few_refs (bk_world (pr_backend p)))"

lemma few_refs_room: "few_refs w \<Longrightarrow> \<forall>p \<in> live w. room_for w p"
  by (fastforce simp: few_refs_def list_all_iff live_iff room_for_def pins_def ref_limit_def split: option.splits)

lemma race_allowed: "race_fits s p \<Longrightarrow> program_allowed (race_op s) p"
  using plain_runtime_fair few_refs_room by (cases s) (auto simp: permutes_id ref_limit_def)

definition race_exec :: "race_step \<Rightarrow> tables program \<Rightarrow> tables program option" where
  "race_exec s p = (if race_fits s p then plain_exec (race_op s) p else None)"

lemma race_exec_Some: "race_exec s p = Some q \<longleftrightarrow> race_fits s p \<and> plain_exec (race_op s) p = Some q"
  by (simp add: race_exec_def)


text \<open>Such a step that overwrites no publisher.\<close>

definition unraced_exec :: "race_step \<Rightarrow> tables program \<Rightarrow> tables program option" where
  "unraced_exec s p = (if store_races (race_op s) p then None else race_exec s p)"

lemma unraced_exec_Some: "unraced_exec s p = Some q \<longleftrightarrow> \<not> store_races (race_op s) p \<and> race_exec s p = Some q"
  by (simp add: unraced_exec_def)

lemma unraced_run:
  "run_machine unraced_exec ss p = Some q \<Longrightarrow> plain_running p \<Longrightarrow> plain_running q \<and> run_machine race_exec ss p = Some q"
proof (induction ss arbitrary: p)
  case (Cons s ss)
  then obtain p' where p': "\<not> store_races (race_op s) p" "race_exec s p = Some p'" "run_machine unraced_exec ss p' = Some q"
    by (auto simp: bind_Some_iff unraced_exec_Some)
  then have "plain_running p'" using race_allowed Cons.prems(2) by (blast intro: reachable.step dest: race_exec_Some [THEN iffD1])
  with Cons.IH p' show ?case by simp
qed simp

definition before_viewer :: "race_step list" where
  "before_viewer = [Comes, Comes, Acts 0 OtherMessage, Acts 1 OtherMessage, Acts 0 OtherMessage, Acts 0 OtherMessage]"

definition after_viewer :: "race_step list" where
  "after_viewer = [GoesOn False, Acts 1 OtherMessage, GoesOn False, GoesOn True, GoesOn True, GoesOn True]"

definition both_checked :: "tables program" where
  "both_checked = the (run_machine unraced_exec before_viewer (init_program alice_tables))"


lemma race_runs: "run_machine unraced_exec before_viewer (init_program alice_tables) \<noteq> None"
  "run_machine race_exec after_viewer (watched both_checked) \<noteq> None"
  by code_simp+






text \<open>Up to the viewer no store overwrites another; the next one would.\<close>

lemma both_checked_races: "race_fits (Acts 1 OtherMessage) both_checked" "store_races (race_op (Acts 1 OtherMessage)) both_checked"
  by code_simp+

lemma both_checked_running: "plain_running both_checked"
  using unraced_run [OF _ init_running] race_runs(1) by (auto simp: both_checked_def)

section \<open>The store that overwrites\<close>

text \<open>
  C25: When a connection stores its publisher although another connection of the same user has stored its
  own since the check, the step returns, and from then on two connections are on air for that user: the
  later one has its publisher in the table, the earlier one goes on although its publisher is found under
  no identifier any more.
\<close>

theorem overlapping_store_displaces:
  assumes "deployment libs users skeys valid getenv conf" and "running libs valid conf lib fallback p"
    and "program_allowed op p" and "store_races op p"
  shows "\<exists>p' j k c d. program_exec conf libs lib fallback op p = Some p'
    \<and> j \<noteq> k \<and> j < length (bk_conns (pr_backend p')) \<and> k < length (bk_conns (pr_backend p'))
    \<and> c = bk_conns (pr_backend p') ! j \<and> d = bk_conns (pr_backend p') ! k \<and> on_air c \<and> on_air d
    \<and> rs_userID (rc_session c) = rs_userID (rc_session d) \<and> rs_pub (rc_session c) \<noteq> rs_pub (rc_session d)
    \<and> get_publisher (format_uint (rs_userID (rc_session d))) (bk_world (pr_backend p')) = rs_pub (rc_session d)
    \<and> (\<forall>x. get_publisher x (bk_world (pr_backend p')) \<noteq> rs_pub (rc_session c))"
proof -
  obtain k pp perm rtss i where op: "op = Streaming (Conn k pp perm rtss i)"
    and over: "overwrites (Conn k pp perm rtss i) (pr_backend p)"
    using assms(4) by (cases op) (auto elim: overwrites.elims)
  let ?b = "pr_backend p"
  let ?w = "bk_world ?b" and ?d = "bk_conns ?b ! k"
  note D = backend_okD [OF deployment.running_ok(2) [OF assms(1,2)]]
  have k: "k < length (bk_conns ?b)" "rc_pc ?d = Checked" using over by simp_all
  then have mem: "?d \<in> set (bk_conns ?b)" by simp
  then have "conn_ok ?w ?d" using D(6) by (simp add: conns_ok_def)
  then have d: "rs_pub (rc_session ?d) = Some (conn_pub ?d)" "unpublished (conn_pub ?d) ?w" "conn_pub ?d < length (w_pubs ?w)"
    "pub_id (w_pubs ?w ! conn_pub ?d) = format_uint (rs_userID (rc_session ?d))"
    using k(2) by (simp_all add: conn_ok_def publishing_def)
  obtain q where q: "get_publisher (format_uint (rs_userID (rc_session ?d))) ?w = Some q" using over d(4) by auto
  then obtain c where c: "c \<in> set (bk_conns ?b)" "on_air c" "rs_pub (rc_session c) = Some q"
    "format_uint (rs_userID (rc_session ?d)) = format_uint (rs_userID (rc_session c))"
    unfolding table_of_conns [OF D(3,6)] by blast
  obtain j where j: "j < length (bk_conns ?b)" "c = bk_conns ?b ! j" using c(1) by (auto simp: in_set_conv_nth)
  have user: "rs_userID (rc_session c) = rs_userID (rc_session ?d)"
    using c(4) parse_format by (metis option.inject)
  have qd: "q \<noteq> conn_pub ?d" using get_publisher_live [OF q] d(2) by (auto simp: unpublished_def)
  have jk: "j \<noteq> k" using c(2) k(2) j(2) by (auto simp: on_air_def)
  let ?w' = "?w\<lparr>w_chan := AList.update (format_uint (rs_userID (rc_session ?d))) (conn_pub ?d) (w_chan ?w)\<rparr>"
  let ?d' = "?d\<lparr>rc_pc := Added\<rparr>"
  let ?p' = "p\<lparr>pr_backend := ?b\<lparr>bk_server := on_world ?w' (sv_bus (bk_server ?b)) (bk_server ?b), bk_conns := (bk_conns ?b)[k := ?d']\<rparr>\<rparr>"
  have run: "program_exec conf libs lib fallback op p = Some ?p'"
    using k d by (simp add: op conn_step_def store_publisher_def)
  have new: "get_publisher x ?w' = (if x = format_uint (rs_userID (rc_session ?d)) then Some (conn_pub ?d) else get_publisher x ?w)" for x
    by (simp add: get_publisher_def update_conv')
  have gone: "get_publisher x ?w' \<noteq> rs_pub (rc_session c)" for x
  proof (cases "x = format_uint (rs_userID (rc_session ?d))")
    case True
    then show ?thesis using new [of x] qd c(3) by simp
  next
    case False
    have "pub_id (w_pubs ?w ! q) = format_uint (rs_userID (rc_session ?d))" using q get_publisher_iff [OF D(3)] by blast
    then have "get_publisher x ?w \<noteq> Some q" using get_publisher_iff [OF D(3)] False by auto
    then show ?thesis using new [of x] False c(3) by simp
  qed
  have "on_air ?d'" by (simp add: on_air_def)
  with run jk j k c(2,3) user d(1) qd gone new show ?thesis
    by (intro exI [of _ ?p'] exI [of _ j] exI [of _ k] exI [of _ c] exI [of _ ?d'] conjI) simp_all
qed

theorem overlapping_store_displaces_witness:
  "\<exists>p'. plain_exec (race_op (Acts 1 OtherMessage)) both_checked = Some p'
     \<and> (\<exists>c \<in> set (bk_conns (pr_backend p')). on_air c \<and> (\<forall>x. get_publisher x (bk_world (pr_backend p')) \<noteq> rs_pub (rc_session c)))"
proof -
  have al: "program_allowed (race_op (Acts 1 OtherMessage)) both_checked" "store_races (race_op (Acts 1 OtherMessage)) both_checked"
    using race_allowed [of "Acts 1 OtherMessage" both_checked] both_checked_races by simp_all
  from overlapping_store_displaces [OF plain_deployment both_checked_running al] show ?thesis by (metis nth_mem)
qed

section \<open>What it leads to\<close>


end
