(* ===== verification/ProgramAccounts.thy ===== *)
theory ProgramAccounts
  imports ProgramScenario
begin

text \<open>
  The accounts while the whole program runs: who can change them, and what of them stays.
\<close>

section \<open>One step\<close>

text \<open>
  C5: Only a sign-up changes the accounts. Whatever step the program takes, the users and the stream keys
  in the database stay as they are, or the step is a POST to the route of sign-ups whose body is decoded
  and valid: then exactly one user is added, with the name of the request, which nobody had, and the hash
  of its password, together with exactly one key, which is active, made from the random source and that
  user's.
\<close>

theorem accounts_change_by_sign_up:
  assumes "deployment libs users skeys valid getenv conf" and "running libs valid conf lib fallback p"
    and "program_allowed op p" and "program_exec conf libs lib fallback op p = Some p'"
  shows "users (pr_db p') = users (pr_db p) \<and> skeys (pr_db p') = skeys (pr_db p)
    \<or> (\<exists>ora up req c u k. op = Request ora up req \<and> rq_method req = ''POST'' \<and> rq_path req = ''/api/v1/auth/sign-up''
        \<and> hd_decode libs (rq_body req) = Inr (Some c) \<and> sign_up_valid c = []
        \<and> users (pr_db p') = users (pr_db p) @ [u] \<and> skeys (pr_db p') = skeys (pr_db p) @ [k]
        \<and> us_username u = cr_username c \<and> cr_username c \<notin> us_username ` set (users (pr_db p))
        \<and> hd_generate libs (cr_password c) 14 = Inr (us_password u)
        \<and> create_stream_key (ho_random ora) = Inr (sk_key k) \<and> sk_userID k = us_id u \<and> sk_active k)"
proof (cases "users (pr_db p') = users (pr_db p) \<and> skeys (pr_db p') = skeys (pr_db p)")
  case False
  with deployment.step_accounts [OF assms(1,2,4)] obtain ora up req c
    where op: "op = Request ora up req" "asks_account libs req c" "adds_account users skeys libs ora c (pr_db p) (pr_db p')"
    by (auto simp: same_accounts_def)
  have "program_ok skeys valid p'"
    using deployment.running_ok(1) [OF assms(1)] reachable.step [OF assms(2) _ assms(4)] assms(3) op(1) by simp
  then have "distinct (map us_username (users (pr_db p')))"
    using sql_database.users_distinct [OF sql_transactions.axioms(1) [OF deployment.axioms(1) [OF assms(1)]]]
    by (simp add: program_ok_def)
  with op show ?thesis by (auto simp: asks_account_def adds_account_def)
qed simp

text \<open>A request to sign up as alice.\<close>

definition sign_up_request :: request where
  "sign_up_request = null_request\<lparr>rq_body := ''alice''\<rparr>"

theorem accounts_change_by_sign_up_witness:
  "\<exists>p'. plain_exec (Request some_oracle watch_upgrade sign_up_request) (init_program empty_tables) = Some p'
     \<and> (tb_users (pr_db p') = [] \<or> (\<exists>u k. tb_users (pr_db p') = [u] \<and> us_username u = ''alice'' \<and> us_password u = ''$secret''
          \<and> tb_keys (pr_db p') = [k] \<and> sk_key k = sk_key alice_key \<and> sk_userID k = us_id u))"
proof -
  let ?op = "Request some_oracle watch_upgrade sign_up_request"
  have run: "plain_running (init_program empty_tables)" using empty_tables_valid by (blast intro: reachable.start)
  have al: "program_allowed ?op (init_program empty_tables)" by simp
  obtain p' where p': "plain_exec ?op (init_program empty_tables) = Some p'"
    using deployment.running_progress [OF plain_deployment run al] by (auto simp del: program_exec.simps)
  have "hd_decode plain_deps (rq_body sign_up_request) = Inr (Some alice)"
    by (simp add: plain_deps_def sign_up_request_def)
  moreover have "hd_generate plain_deps (cr_password alice) 14 = Inr ''$secret''" "create_stream_key (ho_random some_oracle) = Inr (sk_key alice_key)"
    by code_simp+
  ultimately show ?thesis
    using accounts_change_by_sign_up [OF plain_deployment run al p'] p'
    by (auto simp: init_program_def empty_tables_def alice_def)
qed

section \<open>All steps\<close>

lemma reachable_start_mono: "reachable S al run s \<Longrightarrow> (\<And>s. S s \<Longrightarrow> T s) \<Longrightarrow> reachable T al run s"
  by (induction rule: reachable.induct) (blast intro: reachable.intros)+

definition accounts_extend :: "('s \<Rightarrow> user list) \<Rightarrow> ('s \<Rightarrow> stream_key list) \<Rightarrow> 's \<Rightarrow> 's \<Rightarrow> bool" where
  "accounts_extend users skeys s s' \<longleftrightarrow> prefix (users s) (users s') \<and> prefix (skeys s) (skeys s')
     \<and> (one_key_each (users s) (skeys s) \<longrightarrow> one_key_each (users s') (skeys s'))"

lemma accounts_extendI:
  "same_accounts users skeys s s' \<Longrightarrow> accounts_extend users skeys s s'"
  "adds_account users skeys d ora c s s' \<Longrightarrow> accounts_extend users skeys s s'"
  by (auto simp: same_accounts_def adds_account_def accounts_extend_def intro: one_key_each_snoc)

lemma accounts_extend_trans:
  "accounts_extend users skeys s t \<Longrightarrow> accounts_extend users skeys t u \<Longrightarrow> accounts_extend users skeys s u"
  unfolding accounts_extend_def by (meson prefix_order.trans)

lemma accounts_extended:
  assumes "deployment libs users skeys valid getenv conf" and "valid db"
    and "reachable (\<lambda>p. p = init_program db) unraced (program_exec conf libs lib fallback) p"
  shows "accounts_extend users skeys db (pr_db p)"
  using assms(3)
proof (induction rule: reachable.induct)
  case (start p)
  then show ?case by (simp add: init_program_def accounts_extendI(1))
next
  case (step p op p')
  have "running libs valid conf lib fallback p"
    by (rule reachable_start_mono [OF step.hyps(1)]) (use assms(2) in blast)
  from deployment.step_accounts [OF assms(1) this step.hyps(3)] have "accounts_extend users skeys (pr_db p) (pr_db p')"
    by (elim disjE exE conjE) (erule accounts_extendI)+
  with step.IH show ?case by (rule accounts_extend_trans)
qed

text \<open>
  C4: Accounts last, and each has exactly one stream key. However long the program has run since it
  started on a database (without a store of \<open>AddPublisher\<close> over another), the users and keys of then are still there, unchanged and in their order; and if
  every user had one active key then, so has every user now, the ones that have signed up since included.
\<close>

theorem accounts_persist:
  assumes "deployment libs users skeys valid getenv conf" and "valid db"
    and "reachable (\<lambda>p. p = init_program db) unraced (program_exec conf libs lib fallback) p"
  shows "prefix (users db) (users (pr_db p)) \<and> prefix (skeys db) (skeys (pr_db p))
    \<and> (one_key_each (users db) (skeys db) \<longrightarrow> one_key_each (users (pr_db p)) (skeys (pr_db p)))"
  by (rule accounts_extended [OF assms, unfolded accounts_extend_def])

lemma alice_goes_live: "plain_exec (Incoming alice_connect True) (init_program alice_tables) = Some alice_live"
  unfolding alice_live_def
  using deployment.running_progress [OF plain_deployment init_running, of "Incoming alice_connect True"] by (auto simp del: program_exec.simps)

theorem accounts_persist_witness:
  "prefix [alice_user] (tb_users (pr_db alice_live)) \<and> one_key_each (tb_users (pr_db alice_live)) (tb_keys (pr_db alice_live))"
proof -
  have "reachable (\<lambda>p. p = init_program alice_tables) unraced (program_exec some_config plain_deps short_lib no_page) alice_live"
    by (rule reachable.step [where s = "init_program alice_tables" and op = "Incoming alice_connect True"])
      (simp_all add: alice_goes_live reachable.start del: program_exec.simps)
  then show ?thesis
    using accounts_persist [OF plain_deployment alice_tables_valid, of short_lib no_page alice_live]
    by (simp add: alice_tables_def one_key_each_def alice_user_def alice_key_def)
qed

end
