(* ===== verification/ProgramEvents.thy ===== *)
theory ProgramEvents
  imports EventScenario
begin

text \<open>
  The topic transport while the whole program runs: its maps and its subscriber, what a client is sent, who
  gets an event, and what one client that does not read does to all the others.
\<close>

section \<open>The maps\<close>

text \<open>
  C32: In every state the program can reach, the two maps of the topic transport are inverse to each other,
  only connections that are open are in them, and the transport's subscriber on the bus listens to exactly
  the topics that some connection wants, although the goroutine that forwards events, the publishers and the
  stream service use the same maps and the same bus meanwhile.
\<close>

theorem topic_maps_consistent:
  assumes "deployment libs users skeys valid getenv conf" and "running libs valid conf lib fallback p"
  shows "(\<forall>topic conn. conn \<in> set (conns_at (pr_events p) topic) \<longleftrightarrow> topic \<in> set (topics_at (pr_events p) conn))
    \<and> (\<forall>topic. \<forall>conn \<in> set (conns_at (pr_events p) topic).
        conn < length (wm_conns (pr_events p)) \<and> \<not> mc_closed (wm_conns (pr_events p) ! conn))
    \<and> sub_topics event_subscriber (pr_bus p) = {topic. conns_at (pr_events p) topic \<noteq> []}"
proof -
  have "ws_sys_ok event_subscriber (pr_events p, pr_bus p)"
    using deployment.running_ok(1) [OF assms] by (simp add: program_ok_def)
  then have ok: "ws_ok (pr_events p)" "tidy (sub_topics event_subscriber (pr_bus p)) (pr_events p)" by (simp_all add: ws_sys_ok_def)
  then show ?thesis using ws_okD(1,2) [OF ok(1)] tidy_conns_at [OF ok(2)] by auto
qed

theorem topic_maps_consistent_witness:
  "''stream.1.started'' \<in> set (topics_at (pr_events waiting_client) 0)
     \<and> ''stream.1.started'' \<in> sub_topics event_subscriber (pr_bus waiting_client) \<and> conns_at (pr_events closed_client) ''stream.1.started'' = []"
proof -
  have c: "conns_at (pr_events waiting_client) ''stream.1.started'' = [0]" "map mc_closed (wm_conns (pr_events closed_client)) = [True]"
    by code_simp+
  obtain a where a: "wm_conns (pr_events closed_client) = [a]" "mc_closed a" using c(2) by (auto simp: map_eq_Cons_conv)
  have "\<forall>conn \<in> set (conns_at (pr_events closed_client) ''stream.1.started''). conn = 0 \<and> \<not> mc_closed ([a] ! conn)"
    using topic_maps_consistent [OF plain_deployment closed_client_running] by (simp add: a(1))
  then have "c \<notin> set (conns_at (pr_events closed_client) ''stream.1.started'')" for c
    using a(2) by auto
  then have "conns_at (pr_events closed_client) ''stream.1.started'' = []"
    by (cases "conns_at (pr_events closed_client) ''stream.1.started''") auto
  with topic_maps_consistent [OF plain_deployment clients_running(1)] c(1) show ?thesis by force
qed

section \<open>Steps that hand over nothing\<close>

text \<open>Who was handed \<open>data\<close>, new connections starting from nothing.\<close>

definition sent_to :: "string \<Rightarrow> nat set \<Rightarrow> ws_main \<Rightarrow> ws_main \<Rightarrow> bool" where
  "sent_to data C t t' \<longleftrightarrow> length (wm_conns t) \<le> length (wm_conns t')
     \<and> (\<forall>j < length (wm_conns t'). mc_sent (wm_conns t' ! j)
         = (if j < length (wm_conns t) then mc_sent (wm_conns t ! j) else []) @ (if j \<in> C then [data] else []))"

abbreviation same_sent :: "ws_main \<Rightarrow> ws_main \<Rightarrow> bool" where
  "same_sent \<equiv> sent_to '''' {}"

lemma sent_to_refl [simp]: "sent_to data {} t t"
  by (simp add: sent_to_def)

lemma sent_to_same: "sent_to data C t u \<Longrightarrow> same_sent u v \<Longrightarrow> \<forall>c \<in> C. c < length (wm_conns u) \<Longrightarrow> sent_to data C t v"
  by (auto simp: sent_to_def)

lemma sent_to_more:
  assumes "sent_to data C t u" and "conn < length (wm_conns u)" and "conn \<notin> C"
  shows "sent_to data (insert conn C) t (with_sent data {conn} u)"
  using assms by (auto simp: sent_to_def)

definition quiet :: "(nat \<Rightarrow> bool) \<Rightarrow> 'db program \<Rightarrow> 'db program \<Rightarrow> bool" where
  "quiet W p q \<longleftrightarrow> pr_feed q = pr_feed p \<and> same_sent (pr_events p) (pr_events q)
     \<and> length (pr_writers p) \<le> length (pr_writers q)
     \<and> (\<forall>c < length (pr_writers p). W c \<longrightarrow> pr_writers q ! c = pr_writers p ! c)"

lemma quiet_refl [simp]: "quiet W p p"
  by (simp add: quiet_def)

lemma quiet_trans: "quiet W p q \<Longrightarrow> quiet W q r \<Longrightarrow> quiet W p r"
  by (auto simp: quiet_def intro: sent_to_same)

lemma quiet_mono: "quiet W p q \<Longrightarrow> (\<And>c. V c \<Longrightarrow> W c) \<Longrightarrow> quiet V p q"
  by (simp add: quiet_def)

lemma quiet_opened: "quiet W p q \<Longrightarrow> quiet W p (open_events q)"
proof -
  assume h: "quiet W p q"
  have "quiet W q (open_events q)"
    by (simp add: quiet_def sent_to_def open_events_def new_ws_conn_def nth_append)
  with h show ?thesis by (rule quiet_trans)
qed

interpretation held: program_view skeys valid "\<lambda>q. program_ok skeys valid q \<and> quiet W p q" for skeys valid p W
proof (unfold_locales, goal_cases)
  case (4 q)
  then show ?case by (simp add: quiet_opened)
qed (simp_all add: quiet_def)

context deployment
begin

lemma quiet_step:
  assumes ok: "program_ok skeys valid q" and al: "program_allowed op q" and op: "\<And>yield. op \<noteq> Feed yield"
    and run: "program_exec conf libs lib fallback op q = Some q'"
  shows "quiet (\<lambda>c. \<forall>failed. op \<noteq> Written c failed) q q'"
proof (cases op)
  case (Request ora up req)
  from held.request_view [where lib = lib and fallback = fallback and ora = ora and up = up and req = req,
      OF sql_transactions_axioms origins conjI [OF ok quiet_refl]] run Request
  show ?thesis by simp
next
  case (Incoming connect accepted)
  then show ?thesis using run by (auto simp: bind_Some_iff quiet_def split: prod.splits)
next
  case (Streaming bop)
  then show ?thesis using run by (auto simp: bind_Some_iff quiet_def)
next
  case (Events wop)
  have wal: "ws_allowed event_subscriber wop (pr_events q, pr_bus q)" "goes_on (Events wop)" using al Events by simp_all
  have sys: "ws_sys_ok event_subscriber (pr_events q, pr_bus q)" using ok by (simp add: program_ok_def)
  obtain t b where tb: "ws_exec event_subscriber wop (pr_events q, pr_bus q) = Some (t, b)"
    "q' = with_bus b (q\<lparr>pr_events := t\<rparr>)" using run Events by (auto simp: bind_Some_iff)
  note f = conns_frame [OF ws_exec_frame(2) [OF sys wal(1) tb(1) goes_on_events [OF wal(2)]]]
  have "same_sent (pr_events q) t" using f(1,2) by (simp add: sent_to_def)
  with tb(2) show ?thesis by (simp add: quiet_def with_bus_def)
next
  case (Feed yield)
  with op show ?thesis by blast
next
  case (Written d failed)
  with run show ?thesis by (auto simp: bind_Some_iff quiet_def nth_list_update)
qed

end

section \<open>Nothing is forwarded while a write blocks\<close>

text \<open>The goroutine that forwards is sending to \<open>c\<close>, whose goroutine is writing.\<close>

definition stuck :: "nat \<Rightarrow> 'db program \<Rightarrow> bool" where
  "stuck c p \<longleftrightarrow> sending_to (pr_feed p) = Some c \<and> (\<exists>x. ww_pc (pr_writers p ! c) = WritingOut x)"

lemma sending_bound: "feed_ok t pc \<Longrightarrow> sending_to pc = Some c \<Longrightarrow> c < length (wm_conns t)"
  by (cases pc) auto

context deployment
begin

lemma stuck_step:
  assumes ok: "program_ok skeys valid q" and st: "stuck c q" and al: "program_allowed op q" and op: "\<And>failed. op \<noteq> Written c failed"
    and run: "program_exec conf libs lib fallback op q = Some q'"
  shows "quiet (\<lambda>d. d = c) q q'"
proof (cases "\<exists>yield. op = Feed yield")
  case False
  from quiet_step [OF ok al _ run] False have "quiet (\<lambda>c. \<forall>failed. op \<noteq> Written c failed) q q'" by blast
  then show ?thesis by (rule quiet_mono) (use op in blast)
next
  case True
  then obtain yield where feed: "op = Feed yield" by blast
  have wr: "writers_ok (pr_events q) (pr_writers q)" using ok by (simp add: program_ok_def)
  obtain r old seen data where pc: "pr_feed q = Sending r old seen data c"
    using st by (cases "pr_feed q") (simp_all add: stuck_def)
  obtain x where w: "ww_pc (pr_writers q ! c) = WritingOut x" using st by (auto simp: stuck_def)
  have c: "c < length (wm_conns (pr_events q))" using ok pc by (simp add: program_ok_def)
  have "\<not> sends_on_closed op q" using feeding_panics [OF ok] run by fastforce
  then have "ws_open (pr_events q) c" using feed pc c by (simp add: ws_open_def)
  then have "feed_step (sub_read event_subscriber) yield (pr_feed q) (pr_events q) (pr_writers q) (pr_bus q)
      = Some (pr_feed q, pr_events q, pr_writers q, pr_bus q)" unfolding pc by (rule feed_step_waits [OF wr _ w])
  then have "q' = with_bus (pr_bus q) q" using run feed by (simp add: with_bus_def)
  then show ?thesis by (simp add: with_bus_def quiet_def)
qed

lemma stuck_steps:
  assumes "running libs valid conf lib fallback p" and "stuck c p"
    and "reachable (\<lambda>q. q = p) (\<lambda>op q. unraced op q \<and> (\<forall>failed. op \<noteq> Written c failed)) (program_exec conf libs lib fallback) q"
  shows "running libs valid conf lib fallback q \<and> quiet (\<lambda>d. d = c) p q"
  using assms(3)
proof (induction rule: reachable.induct)
  case (start q)
  with assms(1) show ?case by simp
next
  case (step q op q')
  then have q: "running libs valid conf lib fallback q" "quiet (\<lambda>d. d = c) p q" by simp_all
  have "program_ok skeys valid p" by (rule running_ok(1) [OF assms(1)])
  then have "c < length (pr_writers p)"
    using assms(2) sending_bound writer_okD(1) by (fastforce simp: program_ok_def stuck_def)
  then have "stuck c q" using q(2) assms(2) by (simp add: quiet_def stuck_def)
  from stuck_step [OF running_ok(1) [OF q(1)] this] step.hyps have h: "quiet (\<lambda>d. d = c) q q'" by blast
  have "running libs valid conf lib fallback q'" using reachable.step [OF q(1)] step.hyps by blast
  with quiet_trans [OF q(2) h] show ?case by blast
qed

end

text \<open>
  C26: One client that does not read holds up everybody. As long as the write to it does not return, whatever
  else the program does (requests, streams, other writes, other events, closing connections, that client's
  included), the goroutine that forwards events stays where it is and no client is handed anything. If the
  client's connection has been closed meanwhile, the goroutine's next step panics. If not, once the write
  returns, the next step hands the event over and the round goes on.
\<close>

theorem slow_client_holds_events:
  assumes "deployment libs users skeys valid getenv conf" and "running libs valid conf lib fallback p"
    and "pr_feed p = Sending r old seen data c" and "ww_pc (pr_writers p ! c) = WritingOut x"
    and "reachable (\<lambda>q. q = p) (\<lambda>op q. unraced op q \<and> (\<forall>failed. op \<noteq> Written c failed)) (program_exec conf libs lib fallback) q"
  shows "pr_feed q = pr_feed p \<and> length (wm_conns (pr_events p)) \<le> length (wm_conns (pr_events q))
    \<and> (\<forall>j < length (wm_conns (pr_events q)). mc_sent (wm_conns (pr_events q) ! j)
        = (if j < length (wm_conns (pr_events p)) then mc_sent (wm_conns (pr_events p) ! j) else []))
    \<and> (if mc_closed (wm_conns (pr_events q) ! c) then program_exec conf libs lib fallback (Feed yield) q = None
       else \<exists>q1 q2. program_exec conf libs lib fallback (Written c failed) q = Some q1
        \<and> program_exec conf libs lib fallback (Feed yield) q1 = Some q2
        \<and> pr_feed q2 = Ranging r old (c # seen) data
        \<and> mc_sent (wm_conns (pr_events q2) ! c) = mc_sent (wm_conns (pr_events p) ! c) @ [data]
        \<and> ww_pc (pr_writers q2 ! c) = WritingOut data \<and> ww_done (pr_writers q2 ! c) = ww_done (pr_writers p ! c) @ [(x, failed)])"
proof -
  have "stuck c p" using assms(3,4) by (simp add: stuck_def)
  note h = deployment.stuck_steps [OF assms(1,2) this assms(5)]
  have ok: "program_ok skeys valid p" "program_ok skeys valid q"
    using deployment.running_ok(1) [OF assms(1)] assms(2) h by blast+
  then have c: "c < length (wm_conns (pr_events p))" "c < length (pr_writers p)"
    using assms(3) writer_okD(1) by (fastforce simp: program_ok_def)+
  have feed: "pr_feed q = Sending r old seen data c" and w: "pr_writers q ! c = pr_writers p ! c"
    and cq: "c < length (pr_writers q)" and same: "same_sent (pr_events p) (pr_events q)"
    using h assms(3) c(2) by (auto simp: quiet_def)
  have conn: "c < length (wm_conns (pr_events q))" using same c(1) by (simp add: sent_to_def)
  have sent: "mc_sent (wm_conns (pr_events q) ! c) = mc_sent (wm_conns (pr_events p) ! c)"
    using same c(1) conn by (simp add: sent_to_def)
  have "if mc_closed (wm_conns (pr_events q) ! c) then program_exec conf libs lib fallback (Feed yield) q = None
    else \<exists>q1 q2. program_exec conf libs lib fallback (Written c failed) q = Some q1
        \<and> program_exec conf libs lib fallback (Feed yield) q1 = Some q2
        \<and> pr_feed q2 = Ranging r old (c # seen) data
        \<and> mc_sent (wm_conns (pr_events q2) ! c) = mc_sent (wm_conns (pr_events p) ! c) @ [data]
        \<and> ww_pc (pr_writers q2 ! c) = WritingOut data \<and> ww_done (pr_writers q2 ! c) = ww_done (pr_writers p ! c) @ [(x, failed)]"
  proof (cases "mc_closed (wm_conns (pr_events q) ! c)")
    case True
    then have "sends_on_closed (Feed yield) q" by (simp add: feed)
    from deployment.feeding_panics [OF assms(1) ok(2) this] True show ?thesis by simp
  next
    case False
    then have o: "ws_open (pr_events q) c" using conn by (simp add: ws_open_def)
    let ?w = "(pr_writers q ! c)\<lparr>ww_pc := Waiting, ww_done := ww_done (pr_writers q ! c) @ [(x, failed)]\<rparr>"
    let ?q1 = "q\<lparr>pr_writers := (pr_writers q)[c := ?w]\<rparr>"
    let ?q2 = "with_bus (pr_bus q) (?q1\<lparr>pr_events := with_sent data {c} (pr_events q), pr_feed := Ranging r old (c # seen) data,
      pr_writers := (pr_writers q)[c := ?w\<lparr>ww_pc := WritingOut data\<rparr>]\<rparr>)"
    have one: "program_exec conf libs lib fallback (Written c failed) q = Some ?q1"
      using conn cq assms(4) w by (simp add: read_data_step_def)
    have two: "program_exec conf libs lib fallback (Feed yield) ?q1 = Some ?q2"
      using conn cq feed by (simp add: feed_step_def read_events_step_def ws_send_one [OF o])
    have "pr_feed ?q2 = Ranging r old (c # seen) data
        \<and> mc_sent (wm_conns (pr_events ?q2) ! c) = mc_sent (wm_conns (pr_events p) ! c) @ [data]
        \<and> ww_pc (pr_writers ?q2 ! c) = WritingOut data \<and> ww_done (pr_writers ?q2 ! c) = ww_done (pr_writers p ! c) @ [(x, failed)]"
      using cq conn w sent by (simp add: with_bus_def)
    with one two False show ?thesis by metis
  qed
  with feed assms(3) same show ?thesis by (simp add: sent_to_def)
qed

theorem slow_client_holds_events_witness:
  "(\<exists>q1 q2. plain_exec (Written 0 False) waiting_client = Some q1 \<and> plain_exec (Feed None) q1 = Some q2
     \<and> pr_feed q2 = Ranging 0 [0] [0] started_message
     \<and> ww_done (pr_writers q2 ! 0) = [(started_message, False)])
   \<and> plain_exec (Feed None) closed_client = None"
proof -
  let ?reach = "reachable (\<lambda>q. q = waiting_client) (\<lambda>op q. unraced op q \<and> (\<forall>failed. op \<noteq> Written 0 failed)) plain_exec"
  have first: "?reach waiting_client" by (rule reachable.start) simp
  have closed: "?reach closed_client"
    by (rule reachable.step [OF first _ closed_client_step]) (use waiting_client_open in \<open>simp add: permutes_id\<close>)
  have w: "ww_pc (pr_writers waiting_client ! 0) = WritingOut started_message" "ww_done (pr_writers waiting_client ! 0) = []"
    by (simp_all add: waiting_client_facts)
  have cl: "mc_closed (wm_conns (pr_events closed_client) ! 0)" "\<not> mc_closed (wm_conns (pr_events waiting_client) ! 0)"
    using closed_client_facts(2) waiting_client_open by (cases "wm_conns (pr_events closed_client)"; simp add: ws_open_def)+
  note at = slow_client_holds_events [OF plain_deployment clients_running(1) waiting_client_facts(1) w(1), where yield = None and failed = False]
  show ?thesis using at [OF first] at [OF closed] cl w(2) by (auto simp del: program_exec.simps)
qed

section \<open>What is forwarded\<close>

text \<open>
  C27: What a client of the topic transport gets is events, whole and in order. What its goroutine has
  written, each write noted with whether it failed, followed by what it is writing now, is exactly what was
  handed over for it, and every item is the JSON message of an event; the goroutine ends only after the
  connection was closed.
\<close>

theorem clients_get_events:
  assumes "deployment libs users skeys valid getenv conf" and "running libs valid conf lib fallback p"
    and "c < length (wm_conns (pr_events p))"
  shows "c < length (pr_writers p)
    \<and> map fst (ww_done (pr_writers p ! c)) @ (case ww_pc (pr_writers p ! c) of WritingOut data \<Rightarrow> [data] | _ \<Rightarrow> [])
        = mc_sent (wm_conns (pr_events p) ! c)
    \<and> (\<forall>data \<in> set (mc_sent (wm_conns (pr_events p) ! c)). \<exists>ev. data = encoded_message ev)
    \<and> (ww_pc (pr_writers p ! c) = WriterDone \<longrightarrow> mc_closed (wm_conns (pr_events p) ! c))"
proof -
  have "writers_ok (pr_events p) (pr_writers p)"
    using deployment.running_ok(1) [OF assms(1,2)] by (simp add: program_ok_def)
  from writer_okD(1) [OF this] writer_okD(2) [OF this, of c] assms(3) show ?thesis
    by (cases "ww_pc (pr_writers p ! c)") (auto simp: writer_ok_def list_all_iff is_event_def)
qed

theorem clients_get_events_witness:
  "map fst (ww_done (pr_writers busy_client ! 0)) = [started_message] \<and> ww_pc (pr_writers busy_client ! 0) = WritingOut started_message
     \<and> mc_sent (wm_conns (pr_events busy_client) ! 0) = [started_message, started_message]
     \<and> (\<exists>ev. started_message = encoded_message ev)"
proof -
  note at = clients_get_events [OF plain_deployment busy_client_running, of 0]
  have sent: "mc_sent (wm_conns (pr_events busy_client) ! 0) = [started_message, started_message]" using at busy_client_facts by simp
  then have "\<exists>ev. started_message = encoded_message ev" using at busy_client_facts(2) by simp
  with sent busy_client_facts(1) show ?thesis by simp
qed

section \<open>A round of forwarding\<close>

text \<open>
  Where a round stands that began at \<open>p\<close>: who was handed the event so far, each once, none of \<open>N\<close>. At its
  end that is everybody who was in the map at the start and is in it.
\<close>

definition round_at :: "nat set \<Rightarrow> nat \<Rightarrow> nat list \<Rightarrow> string \<Rightarrow> 'db program \<Rightarrow> 'db program \<Rightarrow> bool" where
  "round_at N r old data p q \<longleftrightarrow> (\<exists>got. sent_to data got (pr_events p) (pr_events q) \<and> (\<forall>c \<in> got. c < length (wm_conns (pr_events q)))
     \<and> got \<inter> N = {}
     \<and> (case pr_feed q of
          Ranging s f seen d \<Rightarrow> (s, f, d) = (r, old, data) \<and> got = set seen
        | Sending s f seen d conn \<Rightarrow> (s, f, d) = (r, old, data) \<and> got = set seen \<and> conn \<notin> set seen \<union> N
        | Reading \<Rightarrow> set old \<inter> set (wm_maps (pr_events q) ! r) \<subseteq> got
        | Ended \<Rightarrow> False))"

context deployment
begin

lemma round_quiet:
  assumes "round_at N r old data p q" and "quiet W q q'" and "pr_feed q \<noteq> Reading"
  shows "round_at N r old data p q'"
proof -
  obtain got where g: "sent_to data got (pr_events p) (pr_events q)" "\<forall>c \<in> got. c < length (wm_conns (pr_events q))" "got \<inter> N = {}"
    "case pr_feed q of Ranging s f seen d \<Rightarrow> (s, f, d) = (r, old, data) \<and> got = set seen
      | Sending s f seen d conn \<Rightarrow> (s, f, d) = (r, old, data) \<and> got = set seen \<and> conn \<notin> set seen \<union> N
      | Reading \<Rightarrow> set old \<inter> set (wm_maps (pr_events q) ! r) \<subseteq> got | Ended \<Rightarrow> False"
    using assms(1) unfolding round_at_def by blast
  have q': "pr_feed q' = pr_feed q" "same_sent (pr_events q) (pr_events q')" using assms(2) by (simp_all add: quiet_def)
  have "sent_to data got (pr_events p) (pr_events q')" by (rule sent_to_same [OF g(1) q'(2) g(2)])
  moreover have "\<forall>c \<in> got. c < length (wm_conns (pr_events q'))" using g(2) q'(2) by (auto simp: sent_to_def)
  ultimately show ?thesis unfolding round_at_def q'(1)
    by (intro exI [of _ got]) (use g(3,4) assms(3) in \<open>simp split: feed_pc.splits\<close>)
qed

lemma round_feed:
  assumes ok: "program_ok skeys valid q" and rd: "round_at N r old data p q" and pc: "pr_feed q \<noteq> Reading"
    and N: "N \<inter> set (wm_maps (pr_events q) ! r) = {}" and al: "program_allowed (Feed yield) q"
    and run: "program_exec conf libs lib fallback (Feed yield) q = Some q'"
  shows "round_at N r old data p q'"
proof -
  obtain got where g: "sent_to data got (pr_events p) (pr_events q)" "\<forall>c \<in> got. c < length (wm_conns (pr_events q))" "got \<inter> N = {}"
    "case pr_feed q of Ranging s f seen d \<Rightarrow> (s, f, d) = (r, old, data) \<and> got = set seen
      | Sending s f seen d conn \<Rightarrow> (s, f, d) = (r, old, data) \<and> got = set seen \<and> conn \<notin> set seen \<union> N
      | Reading \<Rightarrow> set old \<inter> set (wm_maps (pr_events q) ! r) \<subseteq> got | Ended \<Rightarrow> False"
    using rd unfolding round_at_def by blast
  obtain fpc t ws b where st: "feed_step (sub_read event_subscriber) yield (pr_feed q) (pr_events q) (pr_writers q) (pr_bus q) = Some (fpc, t, ws, b)"
    and q': "pr_feed q' = fpc" "pr_events q' = t" using run by (auto simp: bind_Some_iff with_bus_def)
  show ?thesis
  proof (cases "pr_feed q")
    case (Ranging s f seen d)
    then have eq: "s = r" "f = old" "d = data" "got = set seen" using g(4) by simp_all
    have ra: "range_allows yield old seen (wm_maps (pr_events q) ! r)" using al Ranging eq by (simp add: feed_allows_def)
    show ?thesis
    proof (cases yield)
      case None
      with st Ranging have "fpc = Reading" "t = pr_events q" by (simp_all add: feed_step_def read_events_step_def)
      moreover have "set old \<inter> set (wm_maps (pr_events q) ! r) \<subseteq> got" using ra None eq(4) by (auto simp: range_allows_def)
      ultimately show ?thesis unfolding round_at_def q' using g(1-3) by (intro exI [of _ got]) simp
    next
      case (Some conn)
      with st Ranging eq have "fpc = Sending r old seen data conn" "t = pr_events q" by (simp_all add: feed_step_def read_events_step_def)
      moreover have "conn \<notin> set seen \<union> N" using ra Some N by (auto simp: range_allows_def)
      ultimately show ?thesis unfolding round_at_def q' using g(1-3) eq(4) by (intro exI [of _ got]) simp
    qed
  next
    case (Sending s f seen d conn)
    then have eq: "s = r" "f = old" "d = data" "got = set seen" "conn \<notin> set seen \<union> N" using g(4) by simp_all
    have conn: "conn < length (wm_conns (pr_events q))" using ok Sending by (simp add: program_ok_def)
    have "\<not> sends_on_closed (Feed yield) q" using feeding_panics [OF ok] run by fastforce
    then have o: "ws_open (pr_events q) conn" using Sending conn by (simp add: ws_open_def)
    from st have "(fpc, t) = (Sending r old seen data conn, pr_events q) \<or> (fpc, t) = (Ranging r old (conn # seen) data, with_sent data {conn} (pr_events q))"
      unfolding Sending eq(1-3) by (auto simp: feed_step_def read_events_step_def ws_send_one [OF o] bind_Some_iff split: if_splits)
    then show ?thesis
    proof
      assume "(fpc, t) = (Sending r old seen data conn, pr_events q)"
      with g(1-3) eq(4,5) show ?thesis unfolding round_at_def q' by (intro exI [of _ got]) simp
    next
      assume "(fpc, t) = (Ranging r old (conn # seen) data, with_sent data {conn} (pr_events q))"
      with sent_to_more [OF g(1) conn] g(2,3) eq(4,5) conn show ?thesis
        unfolding round_at_def q' by (intro exI [of _ "insert conn got"]) simp
    qed
  qed (use g(4) pc in simp_all)
qed

lemma round_steps:
  assumes "running libs valid conf lib fallback p" and "pr_feed p = Ranging r old [] data"
    and "reachable (\<lambda>q. q = p) (\<lambda>op q. unraced op q \<and> pr_feed q \<noteq> Reading \<and> N \<inter> set (wm_maps (pr_events q) ! r) = {})
      (program_exec conf libs lib fallback) q"
  shows "running libs valid conf lib fallback q \<and> round_at N r old data p q"
  using assms(3)
proof (induction rule: reachable.induct)
  case (start q)
  with assms(1,2) show ?case by (auto simp: round_at_def intro: exI [of _ "{}"])
next
  case (step q op q')
  then have q: "running libs valid conf lib fallback q" "round_at N r old data p q" by simp_all
  note ok = running_ok(1) [OF q(1)]
  have "round_at N r old data p q'"
  proof (cases "\<exists>yield. op = Feed yield")
    case True
    with round_feed [OF ok q(2)] step.hyps show ?thesis by blast
  next
    case False
    with quiet_step [OF ok _ _ step.hyps(3)] step.hyps(2) have "quiet (\<lambda>c. \<forall>failed. op \<noteq> Written c failed) q q'" by blast
    with round_quiet [OF q(2)] step.hyps(2) show ?thesis by blast
  qed
  moreover have "running libs valid conf lib fallback q'" using reachable.step [OF q(1)] step.hyps by blast
  ultimately show ?case by blast
qed

end



end
