(* ===== verification/ViewerPipe.thy ===== *)
theory ViewerPipe
  imports BackendOk
begin

text \<open>
  From the queue of a viewer to the wire, through every step of the streaming side: only the viewer's own
  reading goroutine takes messages, one at a time and from the front, and writes them; everybody else at most
  appends; and the bytes of a message that is still waiting do not change. The part of the RTMP handlers is
  \<open>queues_kept\<close>.
\<close>

section \<open>The pipe\<close>

definition waiting_of :: "media_world \<Rightarrow> consumer_ref \<Rightarrow> (message \<times> byte list) list" where
  "waiting_of w i = map (\<lambda>m. (m, bytes_of w m)) (queue_of w i)"

definition arrived :: "consumer_ref \<Rightarrow> media_world \<Rightarrow> media_world \<Rightarrow> (message \<times> byte list) list" where
  "arrived i w w' = drop (length (queue_of w i)) (waiting_of w' i)"

definition on_wire :: "ws_lib \<Rightarrow> (message \<times> byte list) list \<Rightarrow> byte list" where
  "on_wire lib xs = concat (map (\<lambda>(m, data). wire_bytes lib m data) xs)"

lemma on_wire_append [simp]: "on_wire lib (xs @ ys) = on_wire lib xs @ on_wire lib ys"
  by (simp add: on_wire_def)

lemma on_wire_Nil [simp]: "on_wire lib [] = []"
  by (simp add: on_wire_def)

text \<open>
  Of what waited and of what is \<open>new\<close>, at most \<open>n\<close> messages have gone, from the front; and if the goroutine is
  still writing, they are what was written, provided that nothing was half written before.
\<close>

definition flows :: "ws_lib \<Rightarrow> consumer_ref \<Rightarrow> nat \<Rightarrow> (message \<times> byte list) list \<Rightarrow> media_sys \<Rightarrow> media_sys \<Rightarrow> bool" where
  "flows lib i n new m m' \<longleftrightarrow> i < length (w_cons (ms_world m'))
     \<and> (\<exists>sent. waiting_of (ms_world m) i @ new = sent @ waiting_of (ms_world m') i \<and> length sent \<le> n
         \<and> (ms_pc m' i = Writing \<longrightarrow> ms_pc m i = Writing \<and> (fst (written_of (ms_world m) i) = [] \<longrightarrow>
              written_of (ms_world m') i = ([], snd (written_of (ms_world m) i) @ on_wire lib sent))))"

lemma flows_trans:
  assumes "flows lib i n a m1 m2" and "flows lib i n' b m2 m3"
  shows "flows lib i (n + n') (a @ b) m1 m3"
proof -
  let ?w = "\<lambda>m. waiting_of (ms_world m) i" and ?o = "\<lambda>m. written_of (ms_world m) i"
  obtain s t where s: "?w m1 @ a = s @ ?w m2" "length s \<le> n"
    "ms_pc m2 i = Writing \<longrightarrow> ms_pc m1 i = Writing \<and> (fst (?o m1) = [] \<longrightarrow> ?o m2 = ([], snd (?o m1) @ on_wire lib s))"
    and t: "?w m2 @ b = t @ ?w m3" "length t \<le> n'"
    "ms_pc m3 i = Writing \<longrightarrow> ms_pc m2 i = Writing \<and> (fst (?o m2) = [] \<longrightarrow> ?o m3 = ([], snd (?o m2) @ on_wire lib t))"
    using assms unfolding flows_def by blast
  have "?w m1 @ a @ b = (s @ t) @ ?w m3" using s(1) t(1) by (metis append.assoc)
  then show ?thesis unfolding flows_def using assms(2) s(2,3) t(2,3)
    by (intro conjI exI [of _ "s @ t"]) (simp_all add: flows_def)
qed

text \<open>A step that takes nothing.\<close>

lemma waiting_kept:
  assumes "i < length (w_cons w)" and "queues_kept w w'"
  shows "waiting_of w' i = waiting_of w i @ arrived i w w'"
proof -
  obtain ms where "queue_of w' i = queue_of w i @ ms" "\<forall>m \<in> set (queue_of w i). bytes_of w' m = bytes_of w m"
    using assms by (auto simp: queues_kept_def queue_grows_def)
  then show ?thesis by (simp add: waiting_of_def arrived_def)
qed

lemma flows_kept:
  assumes "i < length (w_cons (ms_world m))" and "queues_kept (ms_world m) (ms_world m')" and "ms_pc m' i = ms_pc m i"
  shows "flows lib i 0 (arrived i (ms_world m) (ms_world m')) m m'"
proof -
  have "written_of (ms_world m') i = written_of (ms_world m) i" "length (w_cons (ms_world m')) = length (w_cons (ms_world m))"
    using assms(1,2) by (auto simp: queues_kept_def queue_grows_def)
  with waiting_kept [OF assms(1,2)] assms(1,3) show ?thesis by (cases "written_of (ms_world m) i") (simp add: flows_def)
qed

lemma queues_kept_same:
  assumes "length (w_cons w') = length (w_cons w)" and "\<And>i. i < length (w_cons w) \<Longrightarrow> queue_grows i w w'"
    and "h_bufs w' = h_bufs w"
  shows "queues_kept w w'"
  using assms by (simp add: queues_kept_def bytes_of_def)

section \<open>The steps of the streaming side\<close>

text \<open>Joining writes nothing.\<close>

lemma send_to_written: "send_to i m w = Some (ok, w') \<Longrightarrow> written_of w' j = written_of w j"
  by (auto simp: send_to_def written_of_def nth_update bind_Some_iff)

lemma stop_consumer_written: "stop_consumer p i w = Some w' \<Longrightarrow> written_of w' j = written_of w j"
  by (auto simp: stop_consumer_def consumer_stop_def stop_consumer_obj_def set_pub_def written_of_def nth_update bind_Some_iff
      split: if_split_asm)

lemma send_message_stop_written:
  assumes "send_message_stop p i m w = Some (ok, w')"
  shows "written_of w' j = written_of w j"
proof -
  have acq: "written_of v j = written_of u j" if "h_acquire a n u = Some v" for a n u v
    using that by (auto simp: h_acquire_def written_of_def bind_Some_iff)
  have rel: "written_of v j = written_of u j" if "h_release a u = Some v" for a u v
    using that by (auto simp: h_release_def written_of_def Let_def bind_Some_iff split: if_splits)
  show ?thesis using assms acq rel send_to_written stop_consumer_written
    by (fastforce simp: send_message_stop_def bind_Some_iff split: if_split_asm)
qed

lemma send_held_written: "send_held p i ty held w = Some (ok, w') \<Longrightarrow> written_of w' j = written_of w j"
  using send_message_stop_written by (auto simp: send_held_def bind_Some_iff split: option.splits)

lemma mc_add_consumer_written:
  assumes "mc_add_consumer i w = Some (e, w')"
  shows "written_of w' j = written_of w j"
proof -
  have "written_of v' j = written_of v j" if "send_initial_data p i v = Some (x, v')" for p v x v'
    using that send_held_written by (fastforce simp: send_initial_data_def bind_Some_iff split: if_split_asm)
  then have "written_of v' j = written_of v j" if "pub_add_consumer p i v = Some (x, v')" for p v x v'
    using that by (fastforce simp: pub_add_consumer_def set_pub_def written_of_def bind_Some_iff split: if_split_asm option.splits)
  then show ?thesis using assms by (fastforce simp: mc_add_consumer_def bind_Some_iff split: option.splits)
qed

text \<open>A consumer that joins was waiting, with an empty queue; the others notice nothing.\<close>

lemma join_kept:
  assumes ok: "media_ok H w" and i: "waiting i w" and room: "\<forall>p \<in> live w. room_for w p"
    and run: "mc_add_consumer i w = Some (e, w')"
  shows "queues_kept w w'"
proof (cases "get_publisher (wc_pubID (w_cons w ! i)) w")
  case None
  have "i < length (w_cons w)" using i by (simp add: waiting_def)
  from mc_add_consumer_none [OF this None] run show ?thesis by simp
next
  case (Some p)
  note p = table_entry(1) [OF ok Some]
  have il: "i < length (w_cons w)" using i by (simp add: waiting_def)
  show ?thesis
  proof (cases "map_of (cons_map w p) (wc_id (w_cons w ! i)) = None")
    case False
    from mc_add_consumer_exists [OF ok il Some False] run show ?thesis by simp
  next
    case True
    have j: "joinable (live w) p i w" using i True by (simp add: joinable_def waiting_def)
    have "sb_count (h_bufs w ! a) + 3 < ref_limit" if "pins (w_pubs w ! p) a" for a
      using room p that by (simp add: room_for_def)
    note join = pub_add_consumer_ok [OF media_okD(1) [OF ok] p j this]
    have "pub_add_consumer p i w = Some (e, w')" using run Some il by (simp add: mc_add_consumer_def)
    with join i have same: "\<forall>k. k \<noteq> i \<longrightarrow> w_cons w' ! k = w_cons w ! k" "\<forall>a < length (h_bufs w). sb_bytes (h_bufs w' ! a) = sb_bytes (h_bufs w ! a)"
      by (auto simp: waiting_def)
    have len: "length (w_cons w') = length (w_cons w)" by (rule mc_add_consumer_cons [OF run])
    have h: "heap_ok H w" using live_okD(1) [OF media_okD(1) [OF ok]] .
    show ?thesis unfolding queues_kept_def
    proof (intro conjI allI impI)
      fix k assume k: "k < length (w_cons w)"
      have "\<exists>ms. queue_of w' k = queue_of w k @ ms"
        using same(1) i by (cases "k = i") (simp_all add: queue_of_def waiting_def)
      then show "queue_grows k w w'" using mc_add_consumer_written [OF run] by (simp add: queue_grows_def)
      show "\<forall>m \<in> set (queue_of w k). bytes_of w' m = bytes_of w m"
        using same(2) heap_ok_queued [OF h queue_data_queued [OF _ k]] by (simp add: bytes_of_def)
    qed (simp add: len)
  qed
qed

text \<open>The reading goroutine gives a reference back only after it has taken the message.\<close>

lemma released_keeps:
  assumes ok: "heap_ok (add_mset (m_data x) H) w" and m: "m \<in> set (queue_of w i)" "i < length (w_cons w)"
  shows "bytes_of (released (m_data x) w) m = bytes_of w m"
proof (cases "m_data m = m_data x")
  case True
  have "m_data x < length (h_bufs w)" using heap_ok_held [OF ok, of "m_data x"] by simp
  from heap_okD(3) [OF ok this] queue_data_queued [OF m] True have "sb_count (h_bufs w ! m_data x) \<noteq> 1" by simp
  from released_bytes [OF this] True show ?thesis by (simp add: bytes_of_def)
qed (simp add: bytes_of_def)

text \<open>The reading goroutine takes a message, writes it and gives its reference back.\<close>

lemma take_message_written: "take_message i w = Some (x, w') \<Longrightarrow> written_of w' j = written_of w j"
  by (auto simp: take_message_def written_of_def nth_update bind_Some_iff split: prod.splits)

lemma write_flow:
  assumes ok: "heap_ok (add_mset (m_data m) H) w" and cs: "consumers_ok w" and j: "j < length (w_cons w)"
    and run: "write_message lib m j w = Some (e, w')"
  obtains v where "w' = released (m_data m) v" "heap_ok (add_mset (m_data m) H) v" "h_bufs v = h_bufs w"
    "length (w_cons v) = length (w_cons w)" "queue_of v i = queue_of w i"
    "i \<noteq> j \<Longrightarrow> written_of v i = written_of w i"
    "e = None \<Longrightarrow> fst (written_of w j) = [] \<Longrightarrow> written_of v j = ([], snd (written_of w j) @ wire_bytes lib m (bytes_of w m))"
proof -
  obtain e' c where wb: "write_body lib m (bytes_of w m) (w_cons w ! j) = Some (e', c)" "wc_messages c = wc_messages (w_cons w ! j)"
    using write_body_ok [OF consumers_okD [OF cs j]] by metis
  let ?v = "w\<lparr>w_cons := (w_cons w)[j := c]\<rparr>"
  have w': "w' = released (m_data m) ?v" "e' = e" using run write_message_eq(1) [OF ok j wb [unfolded bytes_of_def]] by simp_all
  show ?thesis
  proof (rule that [OF w'(1)])
    show "heap_ok (add_mset (m_data m) H) ?v" by (rule heap_ok_same_queue [OF ok j]) (simp add: wb(2))
    show "queue_of ?v i = queue_of w i" using wb(2) j by (cases "i = j") (simp_all add: queue_of_def)
    show "written_of ?v j = ([], snd (written_of w j) @ wire_bytes lib m (bytes_of w m))" if "e = None" "fst (written_of w j) = []"
      using write_body_wire [OF consumers_okD [OF cs j] _ wb(1) [unfolded w'(2) that(1)]] that(2) j by (simp add: written_of_def)
  qed (simp_all add: written_of_def)
qed

lemma flows_silent:
  assumes "i < length (w_cons (ms_world m'))" and "waiting_of (ms_world m') i = waiting_of (ms_world m) i"
    and "ms_pc m' i = Writing \<Longrightarrow> ms_pc m i = Writing \<and> written_of (ms_world m') i = written_of (ms_world m) i"
  shows "flows lib i n [] m m'"
  using assms by (cases "written_of (ms_world m) i") (auto simp: flows_def intro!: exI [of _ "[]"])

lemma read_empty:
  assumes "queue_of w j = []" and "j < length (w_cons w)" and run: "read_messages_step lib j pc w = Some (Stepped pc' w')"
  shows "pc' \<noteq> Writing" and "h_bufs w' = h_bufs w" and "length (w_cons w') = length (w_cons w)" and "queue_grows i w w'"
    and "queue_of w' i = queue_of w i"
proof -
  have t: "take_message j w = Some (if ch_closed (wc_messages (w_cons w ! j)) then Closed else WouldBlock, w)"
    using assms(1,2) by (intro take_message_empty) (simp_all add: queue_of_def)
  have "pc' \<noteq> Writing \<and> (w' = w \<or> close_conn j w = Some w')" using run t by (cases pc) (auto simp: bind_Some_iff split: if_split_asm)
  then show "pc' \<noteq> Writing" "h_bufs w' = h_bufs w" "length (w_cons w') = length (w_cons w)" "queue_grows i w w'" "queue_of w' i = queue_of w i"
    by (auto simp: close_conn_def nth_list_update queue_of_def bind_Some_iff nth_update intro!: queue_grows_same)
qed

lemma read_flow:
  assumes ok: "heap_ok H (ms_world s)" and cs: "consumers_ok (ms_world s)" and j: "j < length (w_cons (ms_world s))"
    and i: "i < length (w_cons (ms_world s))"
    and run: "read_messages_step lib j (ms_pc s j) (ms_world s) = Some (Stepped pc' w')"
  shows "flows lib i (of_bool (i = j)) [] s (s\<lparr>ms_world := w', ms_pc := (ms_pc s)(j := pc')\<rparr>)" (is "flows lib i _ _ s ?s")
proof (cases "queue_of (ms_world s) j")
  case Nil
  note e = read_empty [OF Nil j run]
  show ?thesis
  proof (rule flows_silent)
    show "waiting_of (ms_world ?s) i = waiting_of (ms_world s) i" using e(2,5) by (simp add: waiting_of_def bytes_of_def)
    show "ms_pc s i = Writing \<and> written_of (ms_world ?s) i = written_of (ms_world s) i" if "ms_pc ?s i = Writing"
      using that e(1) e(4) [of i] by (simp add: queue_grows_def split: if_splits)
  qed (use i e(3) in simp)
next
  case (Cons m q)
  let ?w = "ms_world s"
  obtain w1 where w1: "take_message j ?w = Some (Item m, w1)" "heap_ok (add_mset (m_data m) H) w1" "consumers_ok w1"
    "length (w_cons w1) = length (w_cons ?w)" "wc_messages (w_cons w1 ! j) = (wc_messages (w_cons ?w ! j))\<lparr>ch_queue := q\<rparr>"
    "\<forall>k. k \<noteq> j \<longrightarrow> w_cons w1 ! k = w_cons ?w ! k" "h_bufs w1 = h_bufs ?w"
    using take_message_item [OF ok cs j Cons [unfolded queue_of_def]] by metis
  have j1: "j < length (w_cons w1)" and i1: "i < length (w_cons w1)" using i j w1(4) by simp_all
  note wr1 = take_message_written [OF w1(1)]
  have "\<exists>v. w' = released (m_data m) v \<and> heap_ok (add_mset (m_data m) H) v \<and> h_bufs v = h_bufs w1
      \<and> length (w_cons v) = length (w_cons w1) \<and> queue_of v i = queue_of w1 i \<and> (i \<noteq> j \<longrightarrow> written_of v i = written_of w1 i)
      \<and> (pc' = Writing \<longrightarrow> ms_pc s j = Writing \<and> (fst (written_of w1 j) = [] \<longrightarrow>
           written_of v j = ([], snd (written_of w1 j) @ wire_bytes lib m (bytes_of w1 m))))"
  proof (cases "ms_pc s j")
    case Writing
    then obtain e where e: "write_message lib m j w1 = Some (e, w')" "pc' = (if e = None then Writing else Draining)"
      using run w1(1) by (auto simp: bind_Some_iff)
    obtain v where "w' = released (m_data m) v" "heap_ok (add_mset (m_data m) H) v" "h_bufs v = h_bufs w1"
      "length (w_cons v) = length (w_cons w1)" "queue_of v i = queue_of w1 i" "i \<noteq> j \<Longrightarrow> written_of v i = written_of w1 i"
      "e = None \<Longrightarrow> fst (written_of w1 j) = [] \<Longrightarrow> written_of v j = ([], snd (written_of w1 j) @ wire_bytes lib m (bytes_of w1 m))"
      using write_flow [OF w1(2,3) j1 e(1)] by metis
    with e(2) Writing show ?thesis by (intro exI [of _ v]) simp
  next
    case Draining
    then show ?thesis using run w1(1,2) heap_ok_release(1) [OF w1(2)] by (intro exI [of _ w1]) auto
  qed (use run in simp)
  then obtain v where v: "w' = released (m_data m) v" "heap_ok (add_mset (m_data m) H) v" "h_bufs v = h_bufs w1"
    "length (w_cons v) = length (w_cons w1)" "queue_of v i = queue_of w1 i" "i \<noteq> j \<longrightarrow> written_of v i = written_of w1 i"
    "pc' = Writing \<longrightarrow> ms_pc s j = Writing \<and> (fst (written_of w1 j) = [] \<longrightarrow>
       written_of v j = ([], snd (written_of w1 j) @ wire_bytes lib m (bytes_of w1 m)))" by blast
  have w': "w_cons w' = w_cons v" using same_objectsD(1) [OF same_objects_released, of "m_data m" v] v(1) by simp
  have q: "queue_of w' i = drop (of_bool (i = j)) (queue_of ?w i)"
    using w1(5,6) Cons v(5) w' by (cases "i = j") (simp_all add: queue_of_def)
  have "bytes_of w' x = bytes_of ?w x" if "x \<in> set (queue_of w' i)" for x
  proof -
    have "x \<in> set (queue_of v i)" using that w' by (simp add: queue_of_def)
    from released_keeps [OF v(2) this] i1 v(1,3,4) w1(7) show ?thesis by (simp add: bytes_of_def)
  qed
  then have wait: "waiting_of w' i = drop (of_bool (i = j)) (waiting_of ?w i)" by (simp add: waiting_of_def q drop_map)
  have wr: "written_of w' i = written_of v i" using w' by (simp add: written_of_def)
  show ?thesis
  proof (cases "i = j")
    case False
    then show ?thesis using i1 v(4,6) w' wait wr wr1 by (intro flows_silent) simp_all
  next
    case True
    have head: "waiting_of ?w j = (m, bytes_of ?w m) # map (\<lambda>m. (m, bytes_of ?w m)) q" using Cons by (simp add: waiting_of_def)
    have "bytes_of w1 m = bytes_of ?w m" by (simp add: bytes_of_def w1(7))
    then have "pc' = Writing \<longrightarrow> ms_pc s i = Writing \<and> (fst (written_of ?w i) = [] \<longrightarrow>
        written_of w' i = ([], snd (written_of ?w i) @ on_wire lib [(m, bytes_of ?w m)]))"
      using v(7) wr wr1 True by (simp add: on_wire_def)
    then show ?thesis using i1 v(4) w' wait head unfolding True flows_def by (intro conjI exI [of _ "[(m, bytes_of ?w m)]"]) simp_all
  qed
qed

lemma leave_kept:
  assumes ok: "media_ok H w" and i: "i < length (w_cons w)" and run: "mc_remove_consumer i w = Some w'"
  shows "queues_kept w w'"
proof (cases "get_publisher (wc_pubID (w_cons w ! i)) w")
  case None
  with run i show ?thesis by (simp add: mc_remove_consumer_def)
next
  case (Some p)
  have "i \<notin> members w q" if "q \<in> live w" "q \<noteq> p" for q
    using member_of_named [OF ok that(1), of i] Some that(2) by auto
  from stop_consumer_ok(1) [OF media_okD(1) [OF ok] table_entry(1) [OF ok Some] i this] run Some i
  have "w' = after_stop p i w" by (simp add: mc_remove_consumer_def pub_remove_consumer_def)
  then show ?thesis using i by (auto simp: after_stop_def stopped_def nth_list_update intro!: queues_kept_same queue_grows_same)
qed

lemma close_kept: "close_conn i w = Some w' \<Longrightarrow> queues_kept w w'"
  by (auto simp: close_conn_def nth_list_update bind_Some_iff intro!: queues_kept_same queue_grows_same)

lemma session_step_kept:
  assumes ok: "media_ok H w" and i: "i < length (w_cons w)"
    and join: "pc = Joining \<Longrightarrow> waiting i w \<and> (\<forall>p \<in> live w. room_for w p)"
    and run: "session_step publish perm failed i u ip pc (w, ss, b) = Some (pc', w', ss', b')"
  shows "queues_kept w w'"
  using run join join_kept [OF ok] leave_kept [OF ok i] close_kept by (cases pc) (auto simp: bind_Some_iff)

lemma end_kept:
  assumes ok: "media_ok H w" and p: "p \<in> live w" and perm: "permutes_keys perm" and run: "remove_publisher perm p w = Some w'"
  shows "queues_kept w w'"
proof -
  from remove_publisher_ok [OF ok p perm] run have
    "\<forall>i. w_cons w' ! i = (if i \<in> members w p then stopped (w_cons w ! i) else w_cons w ! i)"
    "length (w_cons w') = length (w_cons w)" "h_bufs w' = h_bufs w" by auto
  then show ?thesis by (intro queues_kept_same queue_grows_same) (simp_all add: stopped_def)
qed

lemma store_kept: "store_publisher p w = Some w' \<Longrightarrow> queues_kept w w'"
  by (auto simp: store_publisher_def bind_Some_iff queue_of_def intro!: queues_kept_same queue_grows_same)

lemma accept_kept: "accept_conn get_by_key connect accepted w = (c, w') \<Longrightarrow> queues_kept w w'"
  by (auto simp: accept_conn_def on_connect_def new_publisher_def Let_def queue_of_def
      split: option.splits sum.splits if_splits intro!: queues_kept_same queue_grows_same)

lemma conn_step_kept:
  assumes ok: "backend_ok s" and al: "backend_allowed (Conn k pp perm rtss i) s"
    and run: "conn_step publish pp perm rtss i (bk_conns s ! k) (bk_world s) b = Some (c', w', b')"
  shows "queues_kept (bk_world s) w'"
proof -
  let ?w = "bk_world s" and ?c = "bk_conns s ! k"
  note D = backend_okD [OF ok]
  have mem: "?c \<in> set (bk_conns s)" using al by simp
  then have pub: "publishing (conn_pub ?c) (rc_session ?c)" using D(6) by (simp add: conns_ok_def conn_ok_def)
  then have p: "rs_pub (rc_session ?c) = Some (conn_pub ?c)" by (simp add: publishing_def)
  show ?thesis
  proof (cases "rc_pc ?c")
    case OnAir
    have "conn_pub ?c \<in> live ?w" by (rule on_air_live [OF D(6) mem]) (simp add: on_air_def OnAir)
    from handle_input_ok [where rtss = rtss, OF D(3) this _ _ pub, of i] al obtain g s' u where
      "handle_input rtss i (rc_session ?c) ?w = Some (g, s', u)" "handled {#} (conn_pub ?c) ?w u" by auto
    with run OnAir show ?thesis by (auto simp: conn_step_def handled_def)
  next
    case Ending
    have "conn_pub ?c \<in> live ?w" by (rule on_air_live [OF D(6) mem]) (simp add: on_air_def Ending)
    from end_kept [OF D(3) this] al run Ending p show ?thesis by (auto simp: conn_step_def bind_Some_iff)
  qed (use run p store_kept in \<open>auto simp: conn_step_def bind_Some_iff\<close>)
qed

text \<open>Only the step of a reading goroutine takes a message, and only from its own consumer.\<close>

fun takes_from :: "consumer_ref \<Rightarrow> backend_op \<Rightarrow> bool" where
  "takes_from i (Viewer (MediaOp (Read j))) = (i = j)"
| "takes_from i _ = False"

abbreviation bk_media :: "backend \<Rightarrow> media_sys" where
  "bk_media s \<equiv> sv_media (bk_server s)"

text \<open>A new session adds a consumer whose goroutine has nothing half written.\<close>

definition extends :: "media_sys \<Rightarrow> media_sys \<Rightarrow> bool" where
  "extends m m' \<longleftrightarrow> length (w_cons (ms_world m)) \<le> length (w_cons (ms_world m')) \<and> h_bufs (ms_world m') = h_bufs (ms_world m)
     \<and> (\<forall>i < length (w_cons (ms_world m)). w_cons (ms_world m') ! i = w_cons (ms_world m) ! i \<and> ms_pc m' i = ms_pc m i)
     \<and> (\<forall>i < length (w_cons (ms_world m')). length (w_cons (ms_world m)) \<le> i \<longrightarrow> fst (written_of (ms_world m') i) = [])"

lemma extends_refl [simp]: "extends m m"
  by (simp add: extends_def)

lemma extends_trans:
  assumes "extends a b" and "extends b c"
  shows "extends a c"
proof -
  have "fst (written_of (ms_world c) i) = []" if "i < length (w_cons (ms_world c))" "length (w_cons (ms_world a)) \<le> i" for i
    using assms that by (cases "i < length (w_cons (ms_world b))") (simp_all add: extends_def written_of_def)
  with assms show ?thesis by (simp add: extends_def)
qed

lemma extends_flows:
  assumes "extends m m'" and "i < length (w_cons (ms_world m))"
  shows "flows lib i n [] m m'" and "arrived i (ms_world m) (ms_world m') = []"
proof -
  have "waiting_of (ms_world m') i = waiting_of (ms_world m) i"
    using assms by (simp add: extends_def waiting_of_def queue_of_def bytes_of_def)
  then show "flows lib i n [] m m'" "arrived i (ms_world m) (ms_world m') = []"
    using assms by (auto simp: extends_def written_of_def arrived_def waiting_of_def intro!: flows_silent)
qed

lemma serve_extends:
  assumes "serve_http lib upgraded path uuid addr m = Some (v, m')"
  shows "extends m m'"
  using assms by (cases rule: serve_http_cases) (auto simp: extends_def add_cons_obj_def nth_append written_of_def new_ws_consumer_def)

lemma served_extends:
  "backend_exec lib (Viewer (Serve upgraded path uuid addr)) s = Some s' \<Longrightarrow> extends (bk_media s) (bk_media s')"
  using serve_extends by (fastforce simp: bind_Some_iff)

text \<open>Nothing is half written while a goroutine goes on writing.\<close>

definition writes_whole :: "media_sys \<Rightarrow> bool" where
  "writes_whole m \<longleftrightarrow> (\<forall>i < length (w_cons (ms_world m)). ms_pc m i = Writing \<longrightarrow> fst (written_of (ms_world m) i) = [])"

definition pipes_go_on :: "ws_lib \<Rightarrow> (consumer_ref \<Rightarrow> bool) \<Rightarrow> media_sys \<Rightarrow> media_sys \<Rightarrow> bool" where
  "pipes_go_on lib taken m m' \<longleftrightarrow> (\<forall>i < length (w_cons (ms_world m)).
       flows lib i (of_bool (taken i)) (arrived i (ms_world m) (ms_world m')) m m')
     \<and> (extends m m' \<or> length (w_cons (ms_world m')) = length (w_cons (ms_world m)))"

lemma pipes_go_onI:
  assumes "queues_kept (ms_world m) (ms_world m')" and "ms_pc m' = ms_pc m"
  shows "pipes_go_on lib (\<lambda>_. False) m m'"
  using flows_kept [OF _ assms(1)] assms by (simp add: pipes_go_on_def queues_kept_def)

lemma pipes_go_on_extends: "extends m m' \<Longrightarrow> pipes_go_on lib (\<lambda>_. False) m m'"
  using extends_flows by (simp add: pipes_go_on_def)

lemma pipes_go_on_whole:
  assumes "pipes_go_on lib taken m m'" and "writes_whole m"
  shows "writes_whole m'"
  unfolding writes_whole_def
proof (intro allI impI)
  fix i assume i: "i < length (w_cons (ms_world m'))" and pc: "ms_pc m' i = Writing"
  show "fst (written_of (ms_world m') i) = []"
  proof (cases "i < length (w_cons (ms_world m))")
    case True
    then have "flows lib i (of_bool (taken i)) (arrived i (ms_world m) (ms_world m')) m m'" using assms(1) by (simp add: pipes_go_on_def)
    with pc assms(2) True show ?thesis by (auto simp: flows_def writes_whole_def)
  next
    case False
    then show ?thesis using i assms(1) by (auto simp: pipes_go_on_def extends_def)
  qed
qed

lemma advance_pipes:
  assumes ok: "backend_ok s" and al: "backend_allowed (Viewer (Advance perm failed k)) s"
    and run: "backend_exec lib (Viewer (Advance perm failed k)) s = Some s'"
  shows "pipes_go_on lib (\<lambda>_. False) (bk_media s) (bk_media s')"
proof -
  let ?y = "sv_sessions (bk_server s) ! k"
  note D = backend_okD [OF ok]
  from run obtain pc w ss b where
    step: "session_step bus_publish perm failed (vs_consumer ?y) (vs_user ?y) (vs_addr ?y) (vs_pc ?y)
      (bk_world s, sv_viewers (bk_server s), sv_bus (bk_server s)) = Some (pc, w, ss, b)"
    and s': "bk_media s' = (bk_media s)\<lparr>ms_world := w\<rparr>" by (auto simp: bind_Some_iff)
  have k: "k < length (sv_sessions (bk_server s))" "\<forall>p \<in> live (bk_world s). room_for (bk_world s) p" using al by simp_all
  have "view_ok (bk_world s) ?y" using D(7) k(1) by (simp add: views_ok_def)
  then have "queues_kept (bk_world s) w"
    using k(2) by (intro session_step_kept [OF D(3) server_okD(4) [OF D(1) k(1)] _ step]) (simp add: view_ok_def)
  then show ?thesis by (intro pipes_go_onI) (simp_all add: s')
qed

lemma read_pipes:
  assumes ok: "backend_ok s" and j: "j < length (w_cons (bk_world s))" and run: "backend_exec lib (Viewer (MediaOp (Read j))) s = Some s'"
  shows "pipes_go_on lib (\<lambda>i. i = j) (bk_media s) (bk_media s')"
proof -
  let ?m = "bk_media s"
  note L = live_okD [OF media_okD(1) [OF backend_okD(3) [OF ok]]]
  from run obtain r where r: "read_messages_step lib j (ms_pc ?m j) (bk_world s) = Some r" by (auto simp: exec_def bind_Some_iff)
  show ?thesis
  proof (cases r)
    case Blocked
    then have "bk_media s' = ?m" using r run by (auto simp: exec_def)
    with extends_flows [OF extends_refl] show ?thesis by (simp add: pipes_go_on_def)
  next
    case (Stepped pc w)
    then have s': "bk_media s' = ?m\<lparr>ms_world := w, ms_pc := (ms_pc ?m)(j := pc)\<rparr>" using r run by (auto simp: exec_def)
    note fl = read_flow [OF L(1,2) j _ r [unfolded Stepped], folded s']
    have "arrived i (bk_world s) (bk_world s') = []" if "i < length (w_cons (bk_world s))" for i
    proof -
      have "length (waiting_of (bk_world s') i) \<le> length (waiting_of (bk_world s) i)" using fl [OF that] by (auto simp: flows_def)
      then show ?thesis by (simp add: arrived_def waiting_of_def)
    qed
    moreover have "length (w_cons w) = length (w_cons (bk_world s))"
      using read_messages_step_ok [OF L(1,2) j, of lib "ms_pc ?m j"] r Stepped by auto
    ultimately show ?thesis using fl by (simp add: pipes_go_on_def s')
  qed
qed

lemma conn_pipes:
  assumes ok: "backend_ok s" and al: "backend_allowed (Conn k pp perm rtss x) s" and run: "backend_exec lib (Conn k pp perm rtss x) s = Some s'"
  shows "pipes_go_on lib (\<lambda>_. False) (bk_media s) (bk_media s')"
proof -
  from run obtain c w b where "conn_step bus_publish pp perm rtss x (bk_conns s ! k) (bk_world s) (sv_bus (bk_server s)) = Some (c, w, b)"
    and s': "bk_media s' = (bk_media s)\<lparr>ms_world := w\<rparr>" by (auto simp: on_world_def bind_Some_iff)
  from conn_step_kept [OF ok al this(1)] show ?thesis by (intro pipes_go_onI) (simp_all add: s')
qed

lemma backend_pipes:
  assumes ok: "backend_ok s" and al: "backend_allowed op s" and run: "backend_exec lib op s = Some s'"
  shows "pipes_go_on lib (\<lambda>i. takes_from i op) (bk_media s) (bk_media s')"
proof (cases op)
  case (Viewer vop)
  show ?thesis
  proof (cases vop)
    case (Serve upgraded path uuid addr)
    have "extends (bk_media s) (bk_media s')" by (rule served_extends) (use run Viewer Serve in blast)
    with Viewer Serve show ?thesis by (simp add: pipes_go_on_extends)
  next
    case (Advance perm failed k)
    note op = Viewer [unfolded Advance]
    from advance_pipes [OF ok al [unfolded op] run [unfolded op]] show ?thesis by (simp add: op)
  next
    case (MediaOp mop)
    with al Viewer obtain j where j: "op = Viewer (MediaOp (Read j))" "j < length (w_cons (bk_world s))" by (cases mop) simp_all
    from read_pipes [OF ok j(2) run [unfolded j(1)]] show ?thesis by (simp add: j(1))
  next
    case (BusOp bop)
    then have "bk_media s' = bk_media s" using run Viewer by (auto simp: bind_Some_iff)
    with Viewer BusOp show ?thesis by (simp add: pipes_go_on_extends)
  qed (use al Viewer in simp)
next
  case (Accept f connect accepted)
  from run Accept obtain c w where "accept_conn f connect accepted (bk_world s) = (c, w)" "bk_media s' = (bk_media s)\<lparr>ms_world := w\<rparr>"
    by (auto simp: on_world_def split: prod.splits)
  with accept_kept [of f connect accepted "bk_world s" c w] Accept show ?thesis by (simp add: pipes_go_onI)
next
  case (Conn k pp perm rtss x)
  from conn_pipes [OF ok al [unfolded Conn] run [unfolded Conn]] show ?thesis by (simp add: Conn)
qed

end
