(* ===== verification/ProgramViewers.thy ===== *)
theory ProgramViewers
  imports ViewerPipe ProgramScenario
begin

text \<open>
  From the queue of a viewer to the wire, through any run of the whole program.
\<close>

abbreviation pr_media :: "'db program \<Rightarrow> media_sys" where
  "pr_media p \<equiv> bk_media (pr_backend p)"

abbreviation pr_world :: "'db program \<Rightarrow> media_world" where
  "pr_world p \<equiv> bk_world (pr_backend p)"

section \<open>Steps\<close>

text \<open>A request adds at most a session.\<close>

interpretation requests: program_view skeys valid "\<lambda>q. program_ok skeys valid q \<and> extends m (pr_media q)" for skeys valid m
proof (unfold_locales, goal_cases)
  case (3 q lib upgraded path uuid addr b)
  then show ?case using extends_trans [OF _ served_extends [OF 3(2)]] by simp
qed (simp_all add: open_events_def)

fun viewer_reads :: "consumer_ref \<Rightarrow> program_op \<Rightarrow> bool" where
  "viewer_reads i (Streaming op) = takes_from i op"
| "viewer_reads i _ = False"

text \<open>What is appended to a viewer's queue in a run, with the bytes it has then.\<close>

fun arrivals :: "(program_op \<Rightarrow> 'db program \<Rightarrow> 'db program option) \<Rightarrow> consumer_ref \<Rightarrow> program_op list \<Rightarrow> 'db program \<Rightarrow> (message \<times> byte list) list" where
  "arrivals step i [] p = []"
| "arrivals step i (op # ops) p =
     (case step op p of
        None \<Rightarrow> []
      | Some q \<Rightarrow> arrived i (pr_world p) (pr_world q) @ arrivals step i ops q)"

context deployment
begin

lemma step_pipes:
  assumes ok: "program_ok skeys valid p" and al: "program_allowed op p" and run: "program_exec conf libs lib fallback op p = Some p'"
  shows "pipes_go_on lib (\<lambda>i. viewer_reads i op) (pr_media p) (pr_media p')"
proof -
  have b: "backend_ok (pr_backend p)" using ok by (simp add: program_ok_def)
  show ?thesis
  proof (cases op)
    case (Request ora up req)
    have "program_ok skeys valid p \<and> extends (pr_media p) (pr_media p)" using ok by simp
    from requests.request_view [where lib = lib and fallback = fallback and ora = ora and up = up and req = req,
        OF sql_transactions_axioms origins this] run Request
    show ?thesis by (simp add: pipes_go_on_extends)
  next
    case (Incoming connect accepted)
    from run Incoming obtain key b' where "backend_exec lib (Accept (\<lambda>_. key) connect accepted) (pr_backend p) = Some b'"
      and p': "pr_backend p' = b'" by (auto simp: bind_Some_iff simp del: backend_exec.simps split: prod.splits)
    from backend_pipes [OF b _ this(1)] p' Incoming show ?thesis by simp
  next
    case (Streaming bop)
    from run Streaming obtain b' where "backend_exec lib bop (pr_backend p) = Some b'" and p': "pr_backend p' = b'"
      by (auto simp: bind_Some_iff)
    from backend_pipes [OF b _ this(1)] al p' Streaming show ?thesis by simp
  qed (use run in \<open>auto simp: bind_Some_iff with_bus_def on_world_def pipes_go_on_extends\<close>)
qed

lemma running_whole:
  assumes "running libs valid conf lib fallback p"
  shows "writes_whole (pr_media p)"
  using assms
proof (induction rule: reachable.induct)
  case (start p)
  then show ?case by (auto simp: init_program_def init_server_def init_sys_def writes_whole_def empty_world_def)
next
  case (step p op p')
  from pipes_go_on_whole [OF step_pipes [OF running_ok(1) [OF step.hyps(1)] conjunct1 [OF step.hyps(2)] step.hyps(3)] step.IH] show ?case .
qed

lemma run_flows:
  assumes "program_ok skeys valid p" and "all_allowed (\<lambda>op p. unraced op p \<and> \<not> sends_on_closed op p) (program_exec conf libs lib fallback) ops p"
    and "i < length (w_cons (pr_world p))"
  shows "\<exists>p'. run_machine (program_exec conf libs lib fallback) ops p = Some p'
    \<and> flows lib i (length (filter (viewer_reads i) ops)) (arrivals (program_exec conf libs lib fallback) i ops p) (pr_media p) (pr_media p')"
  using assms
proof (induction ops arbitrary: p)
  case Nil
  then show ?case by (simp add: extends_flows(1))
next
  case (Cons op ops)
  have al: "program_allowed op p" "\<not> store_races op p \<and> \<not> sends_on_closed op p" using Cons.prems(2) by simp_all
  from machine.progress [OF Cons.prems(1) conjI [OF al]] obtain q where
    q: "program_exec conf libs lib fallback op p = Some q" "program_ok skeys valid q" by blast
  have st: "flows lib i (of_bool (viewer_reads i op)) (arrived i (pr_world p) (pr_world q)) (pr_media p) (pr_media q)"
    using step_pipes [OF Cons.prems(1) al(1) q(1)] Cons.prems(3) by (simp add: pipes_go_on_def)
  have "all_allowed (\<lambda>op p. unraced op p \<and> \<not> sends_on_closed op p) (program_exec conf libs lib fallback) ops q" using Cons.prems(2) q(1) by simp
  moreover have "i < length (w_cons (pr_world q))" using st by (simp add: flows_def)
  ultimately obtain p' where p': "run_machine (program_exec conf libs lib fallback) ops q = Some p'"
    "flows lib i (length (filter (viewer_reads i) ops)) (arrivals (program_exec conf libs lib fallback) i ops q) (pr_media q) (pr_media p')"
    using Cons.IH [OF q(2)] by blast
  with flows_trans [OF st p'(2)] q(1) show ?case by (cases "viewer_reads i op") simp_all
qed

end

text \<open>
  C6: A viewer is sent what was queued for it. Take any run from a state the program can reach, without a
  store of \<open>AddPublisher\<close> over another and without the send to a closed connection that ends the program, and a
  viewer's consumer: what waited in its queue at the start and what arrived during the run, each message
  with the bytes it had when it was queued, is a first part that its own goroutine has taken, at most one
  with each of its steps, and the rest, which waits in the queue unchanged. As long as the goroutine is
  writing, the frames of the first part, in order and with nothing between them, are exactly what was
  written to the connection in the run. Nothing is lost, overwritten, reordered or sent twice, although the
  buffers are shared with other viewers and come from pools that the publishers reuse.
\<close>

theorem viewer_is_sent_its_queue:
  assumes "deployment libs users skeys valid getenv conf" and "running libs valid conf lib fallback p"
    and "i < length (w_cons (pr_world p))"
    and "all_allowed (\<lambda>op p. unraced op p \<and> \<not> sends_on_closed op p) (program_exec conf libs lib fallback) ops p"
  shows "\<exists>p' sent. run_machine (program_exec conf libs lib fallback) ops p = Some p'
    \<and> waiting_of (pr_world p) i @ arrivals (program_exec conf libs lib fallback) i ops p = sent @ waiting_of (pr_world p') i
    \<and> length sent \<le> length (filter (viewer_reads i) ops)
    \<and> (ms_pc (pr_media p') i = Writing \<longrightarrow>
        cn_out (wc_conn (w_cons (pr_world p') ! i)) = cn_out (wc_conn (w_cons (pr_world p) ! i)) @ on_wire lib sent)"
proof -
  note ok = deployment.running_ok(1) [OF assms(1,2)]
  have "fst (written_of (pr_world p) i) = []" if "ms_pc (pr_media p) i = Writing"
    using deployment.running_whole [OF assms(1,2)] assms(3) that by (simp add: writes_whole_def)
  with deployment.run_flows [OF assms(1) ok assms(4,3)] show ?thesis by (fastforce simp: flows_def written_of_def)
qed

definition first_read :: program_op where
  "first_read = Streaming (Viewer (MediaOp (Read 0)))"

definition viewer_read :: "tables program" where
  "viewer_read = the (plain_exec first_read viewer_joined)"

lemma viewer_read_facts: "ms_pc (pr_media viewer_read) 0 = Writing" "queue_of (pr_world viewer_read) 0 = []"
  "cn_out (wc_conn (w_cons (pr_world viewer_joined) ! 0)) = []"
  by code_simp+

theorem viewer_is_sent_its_queue_witness:
  "cn_out (wc_conn (w_cons (pr_world viewer_read) ! 0)) = on_wire short_lib (waiting_of (pr_world viewer_joined) 0)
     \<and> waiting_of (pr_world viewer_joined) 0 \<noteq> []"
proof -
  have al: "unraced first_read viewer_joined" "\<not> sends_on_closed first_read viewer_joined" by (simp_all add: first_read_def viewer_joined_facts)
  then have run: "plain_exec first_read viewer_joined = Some viewer_read"
    using deployment.running_progress [OF plain_deployment viewer_joined_running, of first_read] by (simp add: viewer_read_def)
  have none: "waiting_of (pr_world viewer_read) 0 = []" by (simp add: waiting_of_def viewer_read_facts)
  then have "arrivals plain_exec 0 [first_read] viewer_joined = []" by (simp add: run arrived_def del: program_exec.simps)
  moreover have "all_allowed (\<lambda>op p. unraced op p \<and> \<not> sends_on_closed op p) plain_exec [first_read] viewer_joined" using al run by simp
  ultimately have "cn_out (wc_conn (w_cons (pr_world viewer_read) ! 0)) = on_wire short_lib (waiting_of (pr_world viewer_joined) 0)"
    using viewer_is_sent_its_queue [OF plain_deployment viewer_joined_running, of 0 "[first_read]"] run none
    by (simp add: viewer_joined_facts viewer_read_facts del: program_exec.simps)
  then show ?thesis by (simp add: waiting_of_def viewer_joined_facts)
qed

end
