(* ===== verification/MediaProps.thy ===== *)
theory MediaProps
  imports Scenario
begin

text \<open>
  The properties of the media pipeline: buffers, publishers, consumers and the table of publishers.
\<close>

lemma held_count_pos:
  assumes "heap_ok H w" and "a \<in># H"
  shows "0 < sb_count (h_bufs w ! a)"
  using heap_okD(3) [OF assms(1) heap_ok_held [OF assms]] assms(2)
  by (simp add: Suc_le_eq flip: count_greater_zero_iff)

section \<open>The pipeline as a whole\<close>

text \<open>
  C7: No operation of the media pipeline panics in a reachable state, whatever publishers,
  consumers and reading goroutines did before and in whatever order: no nil or out-of-range
  access, no send on a closed channel, no double close, no reference count below zero. This holds
  as long as the callers use it as \<open>allowed\<close> says, before and in the step: they fill, send and
  release only buffers they hold, send through and remove only publishers that are in the table,
  store a publisher once and while its identifier is free (the second critical section of
  \<open>AddPublisher\<close> is a step of its own), let a consumer join once, iterate in some permutation of the
  keys, and keep fewer than \<open>2^31\<close> references to a buffer. Sending through a publisher that was removed
  does panic, as a theorem below shows.
\<close>

theorem pipeline_never_panics:
  assumes "reachable (\<lambda>s. s = init_sys) allowed (exec lib) s" and "allowed op s"
  shows "exec lib op s \<noteq> None"
  by (rule media.reachable_progress [OF assms])

theorem pipeline_never_panics_witness: "exec short_lib (Take (\<lambda>_. Some 0) VideoPool 0) pooled_sys \<noteq> None"
  by (rule pipeline_never_panics [OF pooled_reachable]) (simp add: pooled_sys_def)

text \<open>
  C10: In every reachable state a buffer that is in a pool is free: no session holds it, it is in
  no consumer's channel, no publisher keeps it for late joiners, it is empty and has the size its
  pool allocates. So a buffer is never recycled while somebody can still read it.
\<close>

theorem pooled_buffer_is_free:
  assumes "reachable (\<lambda>s. s = init_sys) allowed (exec lib) s" and "a \<in> set (h_pools (ms_world s) pr)"
  shows "a \<notin># ms_held s
    \<and> (\<forall>i < length (w_cons (ms_world s)). \<forall>m \<in> set (queue_of (ms_world s) i). m_data m \<noteq> a)
    \<and> (\<forall>p \<in> set (w_pubs (ms_world s)). pub_videoSeqHdr p \<noteq> Some a \<and> pub_audioSeqHdr p \<noteq> Some a
        \<and> pub_meta p \<noteq> Some a)
    \<and> sb_len (h_bufs (ms_world s) ! a) = 0
    \<and> length (sb_buf (h_bufs (ms_world s) ! a)) = pool_cap (snd pr)"
proof (intro conjI)
  have h: "heap_ok (ms_held s) (ms_world s)"
    using media.reachable_inv [OF assms(1)] live_okD(1) [OF media_okD(1)] by (auto simp: sys_ok_def)
  note free = pooled_unreferenced [OF h assms(2)]
  show "a \<notin># ms_held s" using free(1) by (simp add: count_eq_zero_iff)
  show "\<forall>i < length (w_cons (ms_world s)). \<forall>m \<in> set (queue_of (ms_world s) i). m_data m \<noteq> a"
    using free(2) queue_data_queued by fastforce
  show "\<forall>p \<in> set (w_pubs (ms_world s)). pub_videoSeqHdr p \<noteq> Some a \<and> pub_audioSeqHdr p \<noteq> Some a
      \<and> pub_meta p \<noteq> Some a"
    using free(3) by (auto simp: pinned_def pins_def list_ex_iff)
  show "sb_len (h_bufs (ms_world s) ! a) = 0"
    using heap_ok_pool [OF h, of pr] assms(2) by (auto simp: pool_ok_def)
  show "length (sb_buf (h_bufs (ms_world s) ! a)) = pool_cap (snd pr)" by (rule free(4))
qed

theorem pooled_buffer_is_free_witness: "0 \<notin># ms_held pooled_sys \<and> sb_len (h_bufs (ms_world pooled_sys) ! 0) = 0"
  using pooled_buffer_is_free [OF pooled_reachable, of 0 "(0, VideoPool)"] by (simp add: pooled_sys_def)

section \<open>Publishers\<close>

text \<open>
  C8: \<open>SendMessage\<close> on a live publisher returns and keeps the invariant. Each consumer in the
  map is either skipped (video before its first key frame), or is sent the message (and marked
  after a key frame), or, when its channel is full, is stopped and taken out of the map. Nobody
  else is touched.
\<close>

theorem send_message_fans_out:
  assumes "media_ok H w" and "p \<in> live w" and "m_data m \<in># H" and "permutes_keys perm"
    and "sb_count (h_bufs w ! m_data m) + length (cons_map w p) < ref_limit"
  shows "\<exists>w'. send_message perm p m w = Some w' \<and> media_ok H w'
    \<and> cons_map w' p = map (\<lambda>(x, d). (x, data_out m d (w_cons w ! cd_consumer d)))
        (filter (\<lambda>(x, d). \<not> overflows m d (w_cons w ! cd_consumer d)) (cons_map w p))
    \<and> (\<forall>i. w_cons w' ! i = (case entry w p i of
          None \<Rightarrow> w_cons w ! i
        | Some d \<Rightarrow> if overflows m d (w_cons w ! i) then stopped (w_cons w ! i)
            else if skips m d then w_cons w ! i else push_message m (w_cons w ! i)))"
proof -
  note h = live_okD(1) [OF media_okD(1) [OF assms(1)]]
  have a: "m_data m < length (h_bufs w)" by (rule heap_ok_held [OF h assms(3)])
  have pos: "0 < sb_count (h_bufs w ! m_data m)"
    by (rule held_count_pos [OF h assms(3)])
  from send_message_media [OF assms(1,2) a pos assms(5,4)] obtain w' where
    w': "send_message perm p m w = Some w'" "media_ok H w'" "send_outcome p m w w'" by blast
  moreover have "sent_cons p m w i = (case entry w p i of None \<Rightarrow> w_cons w ! i
      | Some d \<Rightarrow> if overflows m d (w_cons w ! i) then stopped (w_cons w ! i)
          else if skips m d then w_cons w ! i else push_message m (w_cons w ! i))" for i
    by (auto simp: sent_cons_def cons_out_def takes_def overflows_def split: option.splits)
  ultimately show ?thesis by (auto simp: send_outcome_def fanned_def)
qed

definition key_message :: message where
  "key_message = \<lparr>m_type = MesgVideo, m_flags = FlagKeyFrame, m_timestamp = 0, m_length = 3, m_data = 0\<rparr>"

theorem send_message_fans_out_witness:
  "\<exists>w'. send_message id 0 key_message world7 = Some w' \<and> media_ok {#0#} w'"
  using send_message_fans_out [OF world7_ok, of 0 key_message id]
  by (auto simp: key_message_def permutes_id ref_limit_def)

text \<open>
  The outcome of \<open>SendMessage\<close> for the consumers, their entries and the buffers does not
  depend on the order in which Go iterates over the map of consumers.
\<close>

theorem send_message_order_irrelevant:
  assumes "media_ok H w" and "p \<in> live w" and "m_data m \<in># H"
    and "sb_count (h_bufs w ! m_data m) + length (cons_map w p) < ref_limit"
    and "permutes_keys perm" and "permutes_keys perm'"
    and "send_message perm p m w = Some u" and "send_message perm' p m w = Some v"
  shows "w_cons u = w_cons v
    \<and> cons_map u p = cons_map v p
    \<and> h_bufs u = h_bufs v"
proof (intro conjI)
  note h = live_okD(1) [OF media_okD(1) [OF assms(1)]]
  have a: "m_data m < length (h_bufs w)" by (rule heap_ok_held [OF h assms(3)])
  have pos: "0 < sb_count (h_bufs w ! m_data m)"
    by (rule held_count_pos [OF h assms(3)])
  have u: "send_outcome p m w u" using send_message_media [OF assms(1,2) a pos assms(4,5)] assms(7) by auto
  have v: "send_outcome p m w v" using send_message_media [OF assms(1,2) a pos assms(4,6)] assms(8) by auto
  show "w_cons u = w_cons v"
    by (rule nth_equalityI) (use u v in \<open>auto simp: send_outcome_def\<close>)
  show "cons_map u p = cons_map v p" "h_bufs u = h_bufs v" using u v by (simp_all add: send_outcome_def)
qed

theorem send_message_order_irrelevant_witness:
  "\<exists>u v. send_message id 0 key_message world7 = Some u \<and> send_message rev 0 key_message world7 = Some v
     \<and> w_cons u = w_cons v"
proof -
  have perm: "permutes_keys rev" by (simp add: permutes_keys_def)
  have pre: "0 \<in> live world7" "m_data key_message \<in># {#0#}" "m_data key_message < length (h_bufs world7)"
    "0 < sb_count (h_bufs world7 ! m_data key_message)"
    "sb_count (h_bufs world7 ! m_data key_message) + length (cons_map world7 0) < ref_limit"
    by (simp_all add: key_message_def ref_limit_def)
  from send_message_media [OF world7_ok pre(1,3-5) permutes_id] send_message_media [OF world7_ok pre(1,3-5) perm]
  obtain u v where "send_message id 0 key_message world7 = Some u" "send_message rev 0 key_message world7 = Some v"
    by blast
  with send_message_order_irrelevant [OF world7_ok pre(1,2,5) permutes_id perm] show ?thesis by blast
qed

text \<open>
  C19: What \<open>SendMessage\<close> does to the reference count of the buffer: it grows by one for each
  consumer that took the message and by one for each consumer whose channel was full. The latter
  is stopped with its queue unchanged, so nobody will ever release that reference and the buffer
  never returns to its pool.
\<close>

theorem send_message_leaks_on_overflow:
  assumes "media_ok H w" and "p \<in> live w" and "m_data m \<in># H" and "permutes_keys perm"
    and "sb_count (h_bufs w ! m_data m) + length (cons_map w p) < ref_limit"
    and "send_message perm p m w = Some w'"
  shows "sb_count (h_bufs w' ! m_data m) = sb_count (h_bufs w ! m_data m)
        + length (filter (\<lambda>(x, d). takes m d (w_cons w ! cd_consumer d)) (cons_map w p))
        + length (filter (\<lambda>(x, d). overflows m d (w_cons w ! cd_consumer d)) (cons_map w p))
    \<and> (\<forall>i d. entry w p i = Some d \<and> overflows m d (w_cons w ! i)
        \<longrightarrow> queue_of w' i = queue_of w i \<and> closed_of w' i)"
proof (intro conjI)
  note h = live_okD(1) [OF media_okD(1) [OF assms(1)]]
  have a: "m_data m < length (h_bufs w)" by (rule heap_ok_held [OF h assms(3)])
  have pos: "0 < sb_count (h_bufs w ! m_data m)" by (rule held_count_pos [OF h assms(3)])
  have out: "send_outcome p m w w'" using send_message_media [OF assms(1,2) a pos assms(5,4)] assms(6) by auto
  show "sb_count (h_bufs w' ! m_data m) = sb_count (h_bufs w ! m_data m)
      + length (filter (\<lambda>(x, d). takes m d (w_cons w ! cd_consumer d)) (cons_map w p))
      + length (filter (\<lambda>(x, d). overflows m d (w_cons w ! cd_consumer d)) (cons_map w p))"
    using send_outcome_count(1) [OF out a assms(5)] by (simp add: kept_refs_split)
  have "queue_of w' i = queue_of w i \<and> closed_of w' i" if "entry w p i = Some d" "overflows m d (w_cons w ! i)" for i d
  proof -
    have c: "w_cons w' ! i = stopped (w_cons w ! i)" using out that by (simp add: send_outcome_def sent_cons_def)
    have "i < length (w_cons w)"
      by (rule entry_bound [OF live_okD(3) [OF media_okD(1) [OF assms(1)] assms(2)] that(1)])
    then have "cons_ok (w_cons w ! i)" by (rule consumers_okD [OF live_okD(2) [OF media_okD(1) [OF assms(1)]]])
    then show ?thesis using stopped_ok c by (simp add: queue_of_def closed_of_def)
  qed
  then show "\<forall>i d. entry w p i = Some d \<and> overflows m d (w_cons w ! i)
      \<longrightarrow> queue_of w' i = queue_of w i \<and> closed_of w' i" by blast
qed

theorem send_message_leaks_on_overflow_witness:
  "\<exists>w'. send_message id 0 key_message world7 = Some w' \<and> sb_count (h_bufs w' ! 0) = 3"
proof -
  have pre: "0 \<in> live world7" "m_data key_message \<in># {#0#}" "m_data key_message < length (h_bufs world7)"
    "0 < sb_count (h_bufs world7 ! m_data key_message)"
    "sb_count (h_bufs world7 ! m_data key_message) + length (cons_map world7 0) < ref_limit"
    by (simp_all add: key_message_def ref_limit_def)
  from send_message_media [OF world7_ok pre(1,3-5) permutes_id] obtain u where
    u: "send_message id 0 key_message world7 = Some u" by blast
  have "takes key_message \<lparr>cd_consumer = 0, cd_sentVideoKeyFrame = False\<rparr> (viewer ''c0'' 2)"
    by (simp add: takes_def skips_def key_message_def is_key_frame_def is_continuation_def mesg_flags)
  then have "sb_count (h_bufs u ! m_data key_message) = 3"
    using send_message_leaks_on_overflow [OF world7_ok pre(1,2) permutes_id pre(5) u, THEN conjunct1]
    by (simp add: takes_def overflows_def key_message_def)
  with u show ?thesis by (simp add: key_message_def)
qed

text \<open>
  C11: A consumer that joins a live publisher is queued the meta data, the video sequence header and
  the audio sequence header the publisher keeps, in this order and before any later message; it
  is then in the map, with no key frame sent yet.
\<close>

theorem joining_consumer_gets_headers_first:
  assumes "media_ok H w" and "waiting i w" and "get_publisher (wc_pubID (w_cons w ! i)) w = Some p"
    and "map_of (cons_map w p) (wc_id (w_cons w ! i)) = None" and "room_for w p"
  shows "\<exists>w'. mc_add_consumer i w = Some (None, w') \<and> media_ok H w' \<and> i \<in> members w' p
    \<and> queue_of w' i = held_message w MesgMetaData (pub_meta (w_pubs w ! p))
        @ held_message w MesgVideoSeqHdr (pub_videoSeqHdr (w_pubs w ! p))
        @ held_message w MesgAudioSeqHdr (pub_audioSeqHdr (w_pubs w ! p))"
  using mc_add_consumer_ok [OF assms(1-4)] assms(5) unfolding room_for_def initial_messages_def by blast

theorem joining_consumer_gets_headers_first_witness:
  "\<exists>w'. mc_add_consumer 1 world7 = Some (None, w')
     \<and> queue_of w' 1 = [\<lparr>m_type = MesgMetaData, m_flags = 0, m_timestamp = 0, m_length = 2, m_data = 1\<rparr>]"
proof -
  have pre: "waiting 1 world7" "get_publisher (wc_pubID (w_cons world7 ! 1)) world7 = Some 0"
    "map_of (cons_map world7 0) (wc_id (w_cons world7 ! 1)) = None"
    by (simp_all add: waiting_def get_publisher_def)
  have "room_for world7 0" by (auto simp: room_for_def pins_def pub7_def ref_limit_def)
  from joining_consumer_gets_headers_first [OF world7_ok pre this] show ?thesis
    by (auto simp: held_message_def pub7_def) (auto simp: world7_def)
qed

text \<open>
  C14: \<open>RemovePublisher\<close> frees the identifier and stops exactly the publisher's consumers: their
  channels are closed, with what is queued still to be delivered.
\<close>

theorem remove_publisher_stops_consumers:
  assumes "media_ok H w" and "p \<in> live w" and "permutes_keys perm"
  shows "\<exists>w'. remove_publisher perm p w = Some w' \<and> media_ok H w'
    \<and> get_publisher (pub_id (w_pubs w ! p)) w' = None
    \<and> (\<forall>i < length (w_cons w). closed_of w' i \<longleftrightarrow> closed_of w i \<or> i \<in> members w p)
    \<and> (\<forall>i. queue_of w' i = queue_of w i)"
proof -
  from remove_publisher_ok [OF assms] obtain w' where
    w': "remove_publisher perm p w = Some w'" "media_ok H w'" "get_publisher (pub_id (w_pubs w ! p)) w' = None"
    "\<forall>i. w_cons w' ! i = (if i \<in> members w p then stopped (w_cons w ! i) else w_cons w ! i)" by blast
  have "closed_of w' i \<longleftrightarrow> closed_of w i \<or> i \<in> members w p" if "i < length (w_cons w)" for i
    using w'(4) stopped_ok [OF consumers_okD [OF live_okD(2) [OF media_okD(1) [OF assms(1)]] that]]
    by (simp add: closed_of_def)
  moreover have "queue_of w' i = queue_of w i" for i using w'(4) by (simp add: queue_of_def)
  ultimately show ?thesis using w' by blast
qed

theorem remove_publisher_stops_consumers_witness:
  "\<exists>w'. remove_publisher id 0 world7 = Some w' \<and> closed_of w' 0 \<and> \<not> closed_of w' 1"
proof -
  have "0 \<in> live world7" by simp
  from remove_publisher_stops_consumers [OF world7_ok this permutes_id] obtain w' where
    "remove_publisher id 0 world7 = Some w'"
    "\<forall>i < length (w_cons world7). closed_of w' i \<longleftrightarrow> closed_of world7 i \<or> i \<in> members world7 0" by blast
  then show ?thesis by auto
qed

text \<open>
  A second publisher cannot take an identifier that is in use, and \<open>AddPublisher\<close> then
  changes nothing; a publisher with a free identifier is found under it afterwards.
\<close>

theorem add_publisher_exclusive:
  assumes "media_ok H w" and "unpublished p w"
  shows "(get_publisher (pub_id (w_pubs w ! p)) w \<noteq> None
        \<longrightarrow> add_publisher p w = Some (Some ErrPublisherExists, w))
    \<and> (get_publisher (pub_id (w_pubs w ! p)) w = None
        \<longrightarrow> (\<exists>w'. add_publisher p w = Some (None, w') \<and> media_ok H w' \<and> live w' = insert p (live w)
              \<and> get_publisher (pub_id (w_pubs w ! p)) w' = Some p))"
proof (intro conjI)
  have pl: "p < length (w_pubs w)" using assms(2) by (simp add: unpublished_def)
  show "get_publisher (pub_id (w_pubs w ! p)) w \<noteq> None
      \<longrightarrow> add_publisher p w = Some (Some ErrPublisherExists, w)"
    using add_publisher_exists [OF pl] by simp
  show "get_publisher (pub_id (w_pubs w ! p)) w = None
      \<longrightarrow> (\<exists>w'. add_publisher p w = Some (None, w') \<and> media_ok H w' \<and> live w' = insert p (live w)
            \<and> get_publisher (pub_id (w_pubs w ! p)) w' = Some p)"
    using add_publisher_new [OF assms] by (auto simp: get_publisher_def map_add_Some_iff)
qed

theorem add_publisher_exclusive_witness:
  "add_publisher 1 (snd (new_publisher ''7'' world7)) = Some (Some ErrPublisherExists, snd (new_publisher ''7'' world7))"
proof -
  note n = new_publisher_ok [OF world7_ok, of "''7''"]
  have one: "fst (new_publisher ''7'' world7) = 1" by (simp add: new_publisher_def Let_def)
  have "get_publisher ''7'' (snd (new_publisher ''7'' world7)) \<noteq> None"
    by (simp add: get_publisher_def n(4))
  then show ?thesis
    using add_publisher_exclusive [OF n(1,2), THEN conjunct1] n(3) one by simp
qed

section \<open>Consumers\<close>

text \<open>
  C15: The goroutine of a stopped consumer ends: within two steps more than there are queued
  messages it has taken every message off the channel and closed the connection, whatever the
  connection does, and all references stay accounted for.
\<close>

theorem stopped_reader_terminates:
  assumes "heap_ok H w" and "consumers_ok w" and "i < length (w_cons w)" and "closed_of w i"
    and "pc \<noteq> Finished" and "length (queue_of w i) + 2 \<le> n"
  shows "\<exists>w'. run_reader lib i n pc w = Some (Finished, w') \<and> heap_ok H w'
    \<and> queue_of w' i = [] \<and> cn_closed (wc_conn (w_cons w' ! i))"
proof -
  have "pc_rank pc \<le> 2" by (cases pc) simp_all
  with assms(6) have "length (queue_of w i) + pc_rank pc \<le> n" by simp
  from run_reader_finishes [OF assms(1-5) this] show ?thesis by blast
qed

definition closed_world :: media_world where
  "closed_world = world7\<lparr>w_cons := (w_cons world7)[0 := stopped (w_cons world7 ! 0)]\<rparr>"

lemma closed_world_ok: "heap_ok {#0#} closed_world" "consumers_ok closed_world" "closed_of closed_world 0"
  "queue_of closed_world 0 = []"
proof -
  show "heap_ok {#0#} closed_world"
    unfolding closed_world_def by (rule heap_ok_same_queue [OF world7_heap]) simp_all
  show "consumers_ok closed_world" "closed_of closed_world 0" "queue_of closed_world 0 = []"
    using stopped_ok [of "viewer ''c0'' 2"]
    by (simp_all add: closed_world_def consumers_ok_def closed_of_def queue_of_def)
qed

theorem stopped_reader_terminates_witness:
  "\<exists>w'. run_reader short_lib 0 2 Writing closed_world = Some (Finished, w') \<and> cn_closed (wc_conn (w_cons w' ! 0))"
proof -
  have "0 < length (w_cons closed_world)" by (simp add: closed_world_def)
  from stopped_reader_terminates [OF closed_world_ok(1,2) this closed_world_ok(3), of Writing 2 short_lib]
  show ?thesis by (auto simp: closed_world_ok(4))
qed

text \<open>
  A consumer that joins while no publisher has its identifier is turned away with
  \<open>ErrNoPublisher\<close> and nothing changes; its goroutine is already reading from a channel that is
  never closed, so it stays blocked however long it runs.
\<close>

theorem rejected_consumer_blocks_forever:
  assumes "waiting i w" and "get_publisher (wc_pubID (w_cons w ! i)) w = None"
  shows "mc_add_consumer i w = Some (Some ErrNoPublisher, w)
    \<and> (\<forall>n. run_reader lib i n Writing w = Some (Writing, w))"
proof (intro conjI)
  show "mc_add_consumer i w = Some (Some ErrNoPublisher, w)"
    by (rule mc_add_consumer_none) (use assms in \<open>simp_all add: waiting_def\<close>)
  show "\<forall>n. run_reader lib i n Writing w = Some (Writing, w)"
    using run_reader_blocked [of i w Writing] assms(1) by (simp add: waiting_def)
qed

definition lonely_world :: media_world where
  "lonely_world = world7\<lparr>w_chan := []\<rparr>"

theorem rejected_consumer_blocks_forever_witness:
  "mc_add_consumer 1 lonely_world = Some (Some ErrNoPublisher, lonely_world)
     \<and> run_reader short_lib 1 1000 Writing lonely_world = Some (Writing, lonely_world)"
proof -
  have "waiting 1 lonely_world" "get_publisher (wc_pubID (w_cons lonely_world ! 1)) lonely_world = None"
    by (simp_all add: lonely_world_def waiting_def closed_of_def queue_of_def live_def get_publisher_def)
  from rejected_consumer_blocks_forever [OF this] show ?thesis by blast
qed

text \<open>
  C17: What a consumer writes. When the writes of a list of messages succeed, the bytes that reach
  the peer are, message by message, the frame header for header and announced length, the message
  header, and the bytes the buffers held at the start (a continuation only adds its bytes): no
  buffer is recycled under a message that is still to be written.
\<close>

theorem written_frames:
  assumes "heap_ok (mset (map m_data ms) + H) w" and "consumers_ok w" and "i < length (w_cons w)"
    and "wc_bufs (w_cons w ! i) = []" and "write_all lib i ms w = Some (None, w')"
  shows "cn_out (wc_conn (w_cons w' ! i)) = cn_out (wc_conn (w_cons w ! i))
    @ concat (map (\<lambda>m. if is_continuation m then bytes_of w m
        else (case ws_header_bytes lib (uint (m_length m + of_nat mesgHdrLen)) of Inl _ \<Rightarrow> [] | Inr bs \<Rightarrow> bs)
          @ mesg_header_layout m @ bytes_of w m) ms)"
  using write_all_wire [OF assms] by (simp add: wire_bytes_def)

theorem written_frames_witness:
  "\<exists>w'. write_all short_lib 0 [key_message] world7 = Some (None, w')
     \<and> cn_out (wc_conn (w_cons w' ! 0)) = [130, 9, 0, 1, 0, 0, 0, 0, 1, 2, 3]"
proof -
  have pre: "heap_ok (mset (map m_data [key_message]) + {#}) world7" "consumers_ok world7"
    "0 < length (w_cons world7)" "wc_bufs (w_cons world7 ! 0) = []"
    using world7_heap by (simp_all add: key_message_def consumers_ok_def)
  have w: "\<exists>w'. write_all short_lib 0 [key_message] world7 = Some (None, w')"
    by (simp add: world7_def key_message_def write_message_def write_body_def is_continuation_def mesg_flags
        ws_header_encode_def ws_header_write_def short_lib_def viewer_def mesgHdrLen_def blit_def
        mesg_header_encode_def put_at_def flush_bufs_def buffers_write_to.simps conn_write_def idle_conn_def
        h_release_def sb_release_def Let_def be_u32_def)
  then obtain w' where "write_all short_lib 0 [key_message] world7 = Some (None, w')" by blast
  from written_frames [OF pre this] this show ?thesis
    by (auto simp: key_message_def is_continuation_def mesg_flags short_lib_def mesgHdrLen_def
        mesg_header_layout_def mesg_types be_u32_def bytes_of_def sb_bytes_def idle_conn_def)
       (simp add: world7_def)
qed

section \<open>Buffers\<close>

text \<open>
  C16: A run of \<open>Acquire\<close> and \<open>Release\<close> calls on a buffer follows its running balance as long
  as fewer than \<open>2^31\<close> references exist: it panics exactly when a release would take the balance
  below zero, and otherwise ends with the count the balance says, having put the buffer into its
  pool exactly as often as the balance dropped to zero.
\<close>

theorem refcount_follows_balance:
  assumes "peak (sb_count b) ops < ref_limit"
  shows "(case balance (sb_count b) ops of
      None \<Rightarrow> run_ref_ops sb_acquire sb_release ops b = None
    | Some k \<Rightarrow> \<exists>b'. run_ref_ops sb_acquire sb_release ops b = Some (zeros (sb_count b) ops, b') \<and> sb_count b' = k)"
  by (rule refs.run_balance [OF assms])

theorem refcount_follows_balance_witness:
  "\<exists>b'. run_ref_ops sb_acquire sb_release [Acquire 2, Release, Release] (fresh_buf (0, AudioPool)) = Some (1, b')
     \<and> sb_count b' = 0"
  using refcount_follows_balance [of "fresh_buf (0, AudioPool)" "[Acquire 2, Release, Release]"]
  by (simp add: ref_limit_def)

text \<open>
  \<open>ReadN\<close> on any reader: it appends a prefix of what the reader delivers, never more than
  asked for or than there is room for, and loses nothing of the rest; it returns no error exactly
  when it read as much as it could hold of what was asked for.
\<close>

theorem read_n_appends_prefix:
  assumes "sb_ok b" and "sb_read_n r toRead b = (n, e, b', r')"
  shows "content r = take n (content r) @ content r'
    \<and> sb_bytes b' = sb_bytes b @ take n (content r)
    \<and> n \<le> min toRead (length (sb_buf b) - sb_len b)
    \<and> (e = None \<longleftrightarrow> n = min toRead (length (sb_buf b) - sb_len b))
    \<and> sb_ok b'
    \<and> sb_refs b' = sb_refs b"
proof (intro conjI)
  obtain got where got: "content r = got @ content r'" "n = length got" "n \<le> min toRead (length (sb_buf b) - sb_len b)"
    "sb_bytes b' = sb_bytes b @ got" "sb_ok b'" "e = None \<longleftrightarrow> n = min toRead (length (sb_buf b) - sb_len b)"
    "sb_refs b' = sb_refs b"
    using sb_read_n_spec [OF assms] by blast
  then have t: "take n (content r) = got" by simp
  show "content r = take n (content r) @ content r'" using got(1) t by simp
  show "sb_bytes b' = sb_bytes b @ take n (content r)" using got(4) t by simp
  show "n \<le> min toRead (length (sb_buf b) - sb_len b)"
    and "e = None \<longleftrightarrow> n = min toRead (length (sb_buf b) - sb_len b)" and "sb_ok b'" and "sb_refs b' = sb_refs b"
    by (rule got)+
qed

theorem read_n_appends_prefix_witness:
  "\<exists>b' r'. sb_read_n [([1], None), ([2, 3, 4], None)] 3
       \<lparr>sb_pool = (0, AudioPool), sb_buf = [0, 0, 0, 0], sb_refs = 1, sb_len = 1\<rparr> = (3, None, b', r')
     \<and> sb_bytes b' = [0, 1, 2, 3]"
proof -
  let ?b = "\<lparr>sb_pool = (0, AudioPool), sb_buf = [0, 0, 0, 0], sb_refs = 1, sb_len = 1\<rparr> :: shared_buffer"
  let ?r = "[([1], None), ([2, 3, 4], None)] :: reader"
  have ok: "sb_ok ?b" by (simp add: sb_ok_def)
  obtain n e b' r' where run: "sb_read_n ?r 3 ?b = (n, e, b', r')" by (metis prod_cases4)
  have "e = None" using sb_read_n_plain [OF ok _ _ run] by simp
  then show ?thesis using run read_n_appends_prefix [OF ok run] by (simp add: sb_bytes_def)
qed

section \<open>Encodings\<close>

text \<open>
  C18: \<open>MetaData.Encode\<close> never panics: a buffer of fewer than fourteen bytes is refused with
  \<open>io.ErrShortBuffer\<close>; on any other it writes a layout from which all seven fields can be read
  back, and leaves the bytes behind it alone.
\<close>

theorem meta_data_round_trip:
  shows "(length buf < metaDataEncodedSize \<longrightarrow> meta_encode m buf = Some (Inl ErrShortBuffer))
    \<and> (metaDataEncodedSize \<le> length buf \<longrightarrow> (\<exists>out. meta_encode m buf = Some (Inr out) \<and> length out = length buf
        \<and> meta_decode out = m \<and> drop metaDataEncodedSize out = drop metaDataEncodedSize buf))"
  by (auto simp: meta_encode_layout meta_decode_layout) (simp add: meta_encode_def)

definition sample_meta :: meta_data where
  "sample_meta = \<lparr>md_videoFrameRate = 30, md_videoDataRate = 2500, md_videoWidth = 1280, md_videoHeight = 720,
     md_audioChannels = 2, md_audioDataRate = 160, md_audioSampleRate = 48000\<rparr>"

theorem meta_data_round_trip_witness:
  "meta_encode sample_meta (replicate 13 0) = Some (Inl ErrShortBuffer)
     \<and> (\<exists>out. meta_encode sample_meta (replicate 14 0) = Some (Inr out) \<and> meta_decode out = sample_meta)"
  using meta_data_round_trip [of "replicate 13 0" sample_meta] meta_data_round_trip [of "replicate 14 0" sample_meta]
  by (simp add: metaDataEncodedSize_def) blast

text \<open>
  \<open>Packet.Encode\<close> refuses a buffer that is too short and otherwise writes a packet from
  which type (seven bits of it), time stamp, key-frame flag and payload can be read back; it returns
  the number of bytes written.
\<close>

theorem packet_round_trip:
  shows "(length buf < length (pk_data p) + packHdrSize \<longrightarrow> packet_encode p buf = Some (Inl ErrBufferTooShort))
    \<and> (length (pk_data p) + packHdrSize \<le> length buf \<and> pk_type p < 128 \<longrightarrow>
        (\<exists>n out. packet_encode p buf = Some (Inr (n, out)) \<and> n = length (pk_data p) + packHdrSize
          \<and> packet_decode (take n out) = p))"
proof (intro conjI)
  show "length buf < length (pk_data p) + packHdrSize \<longrightarrow> packet_encode p buf = Some (Inl ErrBufferTooShort)"
    by (simp add: packet_encode_def Let_def)
  show "length (pk_data p) + packHdrSize \<le> length buf \<and> pk_type p < 128 \<longrightarrow>
      (\<exists>n out. packet_encode p buf = Some (Inr (n, out)) \<and> n = length (pk_data p) + packHdrSize
        \<and> packet_decode (take n out) = p)"
  proof
    assume a: "length (pk_data p) + packHdrSize \<le> length buf \<and> pk_type p < 128"
    let ?first = "push_bit 1 (pk_type p AND 0b01111111) OR bool_to_u8 (pk_isKeyFrame p)"
    let ?n = "length (pk_data p) + packHdrSize"
    let ?out = "[?first] @ be_u32 (pk_timestamp p) @ pk_data p @ drop ?n buf"
    have enc: "packet_encode p buf = Some (Inr (?n, ?out))" using packet_encode_layout a by blast
    have cut: "take (length d + packHdrSize) ([f] @ be_u32 ts @ d @ rest) = [f] @ be_u32 ts @ d"
      for f :: byte and ts and d rest :: "byte list"
      by (rule trans [OF _ append_eq_conv_conj [THEN iffD1, OF refl, THEN conjunct1, symmetric,
          of "[f] @ be_u32 ts @ d" rest]]) (simp add: packHdrSize_def add.commute)
    have "take ?n ?out = [?first] @ be_u32 (pk_timestamp p) @ pk_data p" by (rule cut)
    then have "packet_decode (take ?n ?out) = p"
      using packet_first_byte [of "pk_type p" "pk_isKeyFrame p"] a
      by (simp add: packet_decode_def del: push_bit_of_1 push_bit_Suc)
    with enc show "\<exists>n out. packet_encode p buf = Some (Inr (n, out)) \<and> n = ?n \<and> packet_decode (take n out) = p"
      by blast
  qed
qed

definition sample_packet :: packet where
  "sample_packet = \<lparr>pk_type = 2, pk_timestamp = 1000, pk_isKeyFrame = True, pk_data = [1, 2]\<rparr>"

theorem packet_round_trip_witness:
  "packet_encode sample_packet [0, 0, 0, 0, 0, 0] = Some (Inl ErrBufferTooShort)
     \<and> (\<exists>n out. packet_encode sample_packet (replicate 9 0) = Some (Inr (n, out)) \<and> n = 7
       \<and> packet_decode (take n out) = sample_packet)"
  using packet_round_trip [where buf = "[0, 0, 0, 0, 0, 0]" and p = sample_packet]
    packet_round_trip [where buf = "replicate 9 0" and p = sample_packet]
  by (simp add: sample_packet_def packHdrSize_def)

section \<open>What goes wrong between two calls\<close>

text \<open>
  C20: \<open>AddPublisher\<close> looks the identifier up and stores the publisher in two critical sections.
  When a second publisher with the same identifier does its lookup in between, both calls succeed
  and the first publisher is gone from the table although it was accepted; and when that one is
  removed, it takes the second one out of the table.
\<close>

theorem add_publisher_race:
  assumes "media_ok H w" and "unpublished p w" and "unpublished q w" and "p \<noteq> q"
    and "pub_id (w_pubs w ! p) = x" and "pub_id (w_pubs w ! q) = x" and "get_publisher x w = None"
    and "permutes_keys perm"
  shows "\<exists>u v. store_publisher p w = Some u \<and> store_publisher q u = Some v
    \<and> get_publisher x v = Some q \<and> p \<notin> live v
    \<and> (\<forall>z. remove_publisher perm p v = Some z \<longrightarrow> get_publisher x z = None)"
proof -
  have pl: "p < length (w_pubs w)" "q < length (w_pubs w)" "p \<notin> live w"
    using assms(2,3) by (simp_all add: unpublished_def)
  let ?u = "w\<lparr>w_chan := AList.update x p (w_chan w)\<rparr>"
  let ?v = "w\<lparr>w_chan := AList.update x q (AList.update x p (w_chan w))\<rparr>"
  have u: "store_publisher p w = Some ?u" using pl(1) assms(5) by (simp add: store_publisher_def)
  have v: "store_publisher q ?u = Some ?v" using pl(2) assms(6) by (simp add: store_publisher_def)
  have none: "map_of (w_chan w) x = None" using assms(7) by (simp add: get_publisher_def)
  have "AList.update x q (AList.update x p (w_chan w)) = w_chan w @ [(x, q)]"
  proof -
    have "AList.update x q (m @ [(x, p)]) = m @ [(x, q)]" if "map_of m x = None" for m :: "(string \<times> nat) list"
      using that by (induction m) (auto split: if_splits)
    with none show ?thesis by (simp add: update_new)
  qed
  then have "p \<notin> live ?v" using pl(3) assms(4) by (auto simp: live_def)
  moreover have "get_publisher x ?v = Some q" by (simp add: get_publisher_def update_conv')
  moreover have "get_publisher x z = None" if rm: "remove_publisher perm p ?v = Some z" for z
  proof -
    have "stop_each cs cids w1 = Some w2 \<Longrightarrow> w_chan w2 = w_chan w1" for cs cids w1 w2
    proof (induction cs cids w1 rule: stop_each.induct)
      case (2 cs cid cids w1)
      then show ?case by (auto simp: consumer_stop_def bind_Some_iff split: option.splits)
    qed simp
    then have "w_chan z = AList.delete x (w_chan ?v)"
      using rm assms(5) pl(1) by (auto simp: remove_publisher_def pub_stop_def bind_Some_iff)
    then show ?thesis by (simp add: get_publisher_def delete_conv)
  qed
  ultimately show ?thesis using u v by blast
qed

definition two_new :: media_world where
  "two_new = snd (new_publisher ''8'' (snd (new_publisher ''8'' world7)))"

theorem add_publisher_race_witness:
  "\<exists>u v. store_publisher 1 two_new = Some u \<and> store_publisher 2 u = Some v \<and> get_publisher ''8'' v = Some 2
     \<and> 1 \<notin> live v"
proof -
  let ?w = "snd (new_publisher ''8'' world7)"
  note n1 = new_publisher_ok [OF world7_ok, of "''8''"]
  note n2 = new_publisher_ok [OF n1(1), of "''8''", folded two_new_def]
  have f: "unpublished 1 two_new" "unpublished 2 two_new" "pub_id (w_pubs two_new ! 1) = ''8''"
    "pub_id (w_pubs two_new ! 2) = ''8''" "get_publisher ''8'' two_new = None"
    by (simp_all add: two_new_def new_publisher_def Let_def unpublished_def live_def get_publisher_def nth_append)
  from add_publisher_race [OF n2(1) f(1,2) _ f(3-5) permutes_id] show ?thesis by auto
qed

lemma fan_out_closed:
  assumes "\<forall>(x, d) \<in> set (cons_map w p). cd_consumer d < length (w_cons w) \<and> closed_of w (cd_consumer d)"
    and "p < length (w_pubs w)" and "cid \<in> set cids" and "map_of (cons_map w p) cid = Some d" and "\<not> skips m d"
  shows "fan_out p m cids removed w = None"
  using assms
proof (induction cids arbitrary: w removed)
  case (Cons c cids)
  show ?case
  proof (cases "map_of (cons_map w p) c")
    case None
    with Cons.prems have "cid \<in> set cids" by auto
    with Cons.IH [OF Cons.prems(1,2) this Cons.prems(4,5)] None Cons.prems(2) show ?thesis by simp
  next
    case (Some e)
    show ?thesis
    proof (cases "skips m e")
      case True
      with Cons.prems Some have mem: "cid \<in> set cids" by auto
      show ?thesis
      proof (cases "h_release (m_data m) w")
        case None
        then show ?thesis using Some True Cons.prems(2) by simp
      next
        case rel: (Some v)
        have v: "w_pubs v = w_pubs w" "w_cons v = w_cons w"
          using rel by (auto simp: h_release_def bind_Some_iff Let_def split: if_splits)
        have "fan_out p m cids removed v = None"
          by (rule Cons.IH) (use Cons.prems mem v in \<open>simp_all add: closed_of_def\<close>)
        then show ?thesis using Some True rel Cons.prems(2) by simp
      qed
    next
      case False
      have "cd_consumer e < length (w_cons w)" "closed_of w (cd_consumer e)"
        using Cons.prems(1) map_of_SomeD [OF Some] by auto
      then have "send_to (cd_consumer e) m w = None" by (simp add: send_to_def try_send_def closed_of_def)
      then show ?thesis using Some False Cons.prems(2) by simp
    qed
  qed
qed simp

text \<open>
  After \<open>Stop\<close> the publisher still lists its stopped consumers, so a later \<open>SendMessage\<close>
  that does not skip one of them sends on a closed channel and panics: nothing may use a
  publisher after \<open>RemovePublisher\<close>.
\<close>

theorem send_after_stop_panics:
  assumes "media_ok H w" and "p \<in> live w" and "permutes_keys perm" and "permutes_keys perm'"
    and "map_of (cons_map w p) cid = Some d" and "\<not> skips m d" and "\<not> is_seq_header m"
    and "remove_publisher perm p w = Some w'"
  shows "send_message perm' p m w' = None"
proof -
  note po = live_okD(3) [OF media_okD(1) [OF assms(1)] assms(2)]
  from remove_publisher_ok [OF assms(1-3)] assms(8) have
    w': "\<forall>i. w_cons w' ! i = (if i \<in> members w p then stopped (w_cons w ! i) else w_cons w ! i)"
    "length (w_cons w') = length (w_cons w)" "w_pubs w' = w_pubs w" by auto
  have st: "store_seq_header p m w' = Some w'"
    using assms(7) by (auto simp: store_seq_header_def is_seq_header_def)
  have closed: "cd_consumer e < length (w_cons w) \<and> closed_of w' (cd_consumer e)"
    if "(x, e) \<in> set (cons_map w p)" for x e
  proof -
    have i: "cd_consumer e < length (w_cons w)" using pub_okD(4) [OF po that] by (simp add: entry_ok_def)
    have "cd_consumer e \<in> members w p" using that by (force simp: members_def)
    then show ?thesis
      using i w'(1) stopped_ok [OF consumers_okD [OF live_okD(2) [OF media_okD(1) [OF assms(1)]] i]]
      by (simp add: closed_of_def)
  qed
  have cid: "cid \<in> set (perm' (keys (cons_map w p)))"
    using assms(5) permutes_keysD(1) [OF assms(4)] by (auto simp: map_of_keys_Some)
  have "fan_out p m (perm' (keys (cons_map w p))) [] v = None"
    if "h_acquire (m_data m) n w' = Some v" for n v
  proof -
    have v: "w_pubs v = w_pubs w" "w_cons v = w_cons w'"
      using that w'(3) by (auto simp: h_acquire_def bind_Some_iff)
    show ?thesis
      by (rule fan_out_closed [where cid = cid and d = d])
        (use v w'(2) closed cid assms(5,6) pub_okD(1) [OF po] in \<open>auto simp: closed_of_def\<close>)
  qed
  then show ?thesis
    using st pub_okD(1) [OF po] w'(3)
    by (auto simp: send_message_def bind_eq_None_conv split: option.splits)
qed

theorem send_after_stop_panics_witness:
  "\<exists>w'. remove_publisher id 0 world7 = Some w' \<and> send_message id 0 key_message w' = None"
proof -
  have z: "0 \<in> live world7" by simp
  from remove_publisher_ok [OF world7_ok z permutes_id] obtain w' where
    w': "remove_publisher id 0 world7 = Some w'" by blast
  have "map_of (cons_map world7 0) ''c0'' = Some \<lparr>cd_consumer = 0, cd_sentVideoKeyFrame = False\<rparr>"
    "\<not> skips key_message \<lparr>cd_consumer = 0, cd_sentVideoKeyFrame = False\<rparr>" "\<not> is_seq_header key_message"
    by (simp_all add: skips_def key_message_def is_key_frame_def is_continuation_def mesg_flags is_seq_header_def mesg_types)
  from send_after_stop_panics [OF world7_ok z permutes_id permutes_id this w'] w' show ?thesis by blast
qed

end
