(* ===== verification/RtmpProps.thy ===== *)
theory RtmpProps
  imports Scenario
begin

text \<open>
  The properties of the RTMP side: what a session makes of the messages of its peer.
\<close>

section \<open>Handlers return\<close>

text \<open>
  C12: Whatever a peer sends in a video message, and however the payload is delivered,
  \<open>onVideoMessage\<close> returns, panics nowhere and leaves the pipeline well-formed with the same held
  references as before.
\<close>

theorem video_handler_total:
  assumes "media_ok H w" and "p \<in> live w" and "publishing p s" and "\<And>j. fair (rtss j)"
    and "Suc (length (cons_map w p)) < ref_limit"
  shows "\<exists>e s' w'. on_video_message rtss m s w = Some (e, s', w') \<and> media_ok H w' \<and> live w' = live w
    \<and> publishing p s'"
  using on_video_message_ok [where rtss = rtss and m = m, OF assms(1,2,5,4,3)] unfolding handled_def by blast

definition idr_payload :: reader where
  "idr_payload = [([0x17, 1, 0, 0, 0], None), ([0, 0, 0, 4, 0x65], None), ([7, 7], None), ([7], None)]"

theorem video_handler_total_witness:
  "\<exists>e s' w'. on_video_message (\<lambda>_ _. plain_runtime) \<lparr>av_timestamp = 40, av_length = 13, av_data = idr_payload\<rparr>
     session7 world7 = Some (e, s', w') \<and> media_ok {#0#} w'"
  using video_handler_total [where rtss = "\<lambda>_ _. plain_runtime" and m = "\<lparr>av_timestamp = 40, av_length = 13, av_data = idr_payload\<rparr>",
      OF world7_ok _ session7_publishing plain_runtime_fair]
  by (auto simp: ref_limit_def)

text \<open>
  The same for audio messages.
\<close>

theorem audio_handler_total:
  assumes "media_ok H w" and "p \<in> live w" and "publishing p s" and "fair rts"
    and "Suc (length (cons_map w p)) < ref_limit"
  shows "\<exists>e w'. on_audio_message rts m s w = Some (e, s, w') \<and> media_ok H w' \<and> live w' = live w"
  using on_audio_message_ok [OF assms(1,2,5,4,3)] unfolding handled_def by blast

theorem audio_handler_total_witness:
  "\<exists>e w'. on_audio_message (\<lambda>_. plain_runtime) \<lparr>av_timestamp = 40, av_length = 4, av_data = [([0xAF, 1, 5, 6], None)]\<rparr>
     session7 world7 = Some (e, session7, w') \<and> media_ok {#0#} w'"
  using audio_handler_total [where m = "\<lparr>av_timestamp = 40, av_length = 4, av_data = [([0xAF, 1, 5, 6], None)]\<rparr>",
      OF world7_ok _ session7_publishing plain_runtime_fair]
  by (auto simp: ref_limit_def)

section \<open>Frames\<close>

text \<open>
  One NALU of a video message reaches every consumer that keeps up (it has had a key frame or
  is sent one now, and its channel has room for the pieces) as its five-byte header and its
  payload, byte for byte, however the payload is cut into reads; all pieces announce the same total
  length, only the first is not a continuation, and the next NALU is read from where this one ends.
\<close>

theorem nalu_reaches_consumers:
  assumes "media_ok H w" and "p \<in> live w" and "Suc (length (cons_map w p)) < ref_limit"
    and "fair rts" and "publishing p s"
    and "plain r" and "content r = hdr @ data @ rest" and "length hdr = naluHdrSize" and "media_nalu hdr"
    and "length data = unat (nalu_len hdr)" and "data \<noteq> []"
    and "entry w p i = Some d" and "cd_sentVideoKeyFrame d \<or> nalu_key hdr"
    and "length (queue_of w i) + pieces (video_cap w p) (naluHdrSize + length data)
      \<le> ch_cap (wc_messages (w_cons w ! i))"
  shows "\<exists>r' s' w' ms. send_video_data rts ts r s w = Some ((False, None), r', s', w')
    \<and> content r' = rest \<and> queue_of w' i = queue_of w i @ ms
    \<and> concat (map (bytes_of w') ms) = hdr @ data
    \<and> (\<forall>m \<in> set (queue_of w i). bytes_of w' m = bytes_of w m)
    \<and> framed MesgVideo (if nalu_key hdr then FlagKeyFrame else 0) ts (of_nat naluHdrSize + nalu_len hdr) True ms"
proof -
  from send_video_data_frames [where ts = ts, OF assms(1-11)] obtain r' w' where
    run: "send_video_data rts ts r s w = Some ((False, None), r', s\<lparr>rs_naluHdr := hdr\<rparr>, w')" "content r' = rest"
    and del: "\<exists>ms. sees i w w' ms (hdr @ data)
      \<and> framed MesgVideo (if nalu_key hdr then FlagKeyFrame else 0) ts (of_nat naluHdrSize + nalu_len hdr) True ms"
    using assms(12-14) by blast
  then show ?thesis unfolding sees_def by blast
qed

lemma idr_facts: "media_nalu [0, 0, 0, 4, 0x65]" "nalu_key [0, 0, 0, 4, 0x65]" "nalu_len [0, 0, 0, 4, 0x65] = 3"
  by (simp_all add: media_nalu_def nalu_key_def nalu_len_def naluTypeIDR_def of_be_u32_def)

theorem nalu_reaches_consumers_witness:
  "\<exists>r' s' w' ms. send_video_data (\<lambda>_. plain_runtime) 40 [([0, 0, 0], None), ([4, 0x65, 7, 7], None), ([7], None)]
     session7 world7 = Some ((False, None), r', s', w')
     \<and> concat (map (bytes_of w') (queue_of w' 0)) = [0, 0, 0, 4, 0x65, 7, 7, 7]"
proof -
  let ?r = "[([0, 0, 0], None), ([4, 0x65, 7, 7], None), ([7], None)] :: reader"
  have pre: "0 \<in> live world7" "Suc (length (cons_map world7 0)) < ref_limit" "plain ?r"
    "content ?r = [0, 0, 0, 4, 0x65] @ [7, 7, 7] @ []" "length [0, 0, 0, 4, 0x65 :: byte] = naluHdrSize"
    "length [7, 7, 7 :: byte] = unat (nalu_len [0, 0, 0, 4, 0x65])" "[7, 7, 7 :: byte] \<noteq> []"
    by (simp_all add: ref_limit_def naluHdrSize_def idr_facts)
  have cap: "length (queue_of world7 0) + pieces (video_cap world7 0) (naluHdrSize + length [7, 7, 7 :: byte])
      \<le> ch_cap (wc_messages (w_cons world7 ! 0))"
    by (simp add: pub7_def pieces_def naluHdrSize_def video_cap_def)
  have key: "cd_sentVideoKeyFrame \<lparr>cd_consumer = 0, cd_sentVideoKeyFrame = False\<rparr> \<or> nalu_key [0, 0, 0, 4, 0x65]"
    by (simp add: idr_facts)
  from nalu_reaches_consumers [where ts = 40, OF world7_ok pre(1,2) plain_runtime_fair session7_publishing pre(3-5)
      idr_facts(1) pre(6,7) world7_entry key cap]
  show ?thesis by auto
qed

text \<open>
  C9: A whole video message: after the tag header, its NALUs reach every consumer that has had a
  key frame and keeps up, one after the other and complete, without the NALUs of other types (SPS,
  SEI, ...), which are skipped exactly.
\<close>

theorem video_message_reaches_consumers:
  assumes "media_ok H w" and "p \<in> live w" and "Suc (length (cons_map w p)) < ref_limit"
    and "\<And>j. fair (rtss j)" and "publishing p s"
    and "plain (av_data m)" and "content (av_data m) = tag @ nalu_bytes ns" and "length tag = VideoTagHeaderSize"
    and "video_tag_codec tag = VideoCodecH264" and "video_tag_packet_type tag = PacketData"
    and "\<forall>n \<in> set ns. whole_nalu n"
    and "entry w p i = Some d" and "cd_sentVideoKeyFrame d"
    and "length (queue_of w i) + nalu_pieces (video_cap w p) ns \<le> ch_cap (wc_messages (w_cons w ! i))"
  shows "\<exists>s' w' ms. on_video_message rtss m s w = Some (None, s', w') \<and> media_ok H w'
    \<and> queue_of w' i = queue_of w i @ ms
    \<and> concat (map (bytes_of w') ms) = nalu_bytes (filter (\<lambda>(hdr, data). media_nalu hdr) ns)"
proof -
  from on_video_message_frames [where rtss = rtss, OF assms(1-11)] obtain s' w' where
    run: "on_video_message rtss m s w = Some (None, s', w')" "handled H p w w'"
    and del: "\<exists>ms. sees i w w' ms (nalu_bytes (media_nalus ns))"
    using assms(12-14) by blast
  then show ?thesis unfolding sees_def media_nalus_def handled_def by blast
qed

definition tuned_world :: media_world where
  "tuned_world = world7\<lparr>w_pubs := [pub7\<lparr>pub_consumers :=
     Some [(''c0'', \<lparr>cd_consumer = 0, cd_sentVideoKeyFrame = True\<rparr>)]\<rparr>]\<rparr>"

lemma tuned_world_ok: "media_ok {#0#} tuned_world" "live tuned_world = {0}"
  "entry tuned_world 0 0 = Some \<lparr>cd_consumer = 0, cd_sentVideoKeyFrame = True\<rparr>"
proof -
  have h: "heap_ok {#0#} tuned_world"
    using heap_ok_pub_consumers [OF world7_heap, of 0 "pub7\<lparr>pub_consumers :=
      Some [(''c0'', \<lparr>cd_consumer = 0, cd_sentVideoKeyFrame = True\<rparr>)]\<rparr>"]
    by (simp add: tuned_world_def)
  show live: "live tuned_world = {0}" by (simp add: tuned_world_def live_def)
  have "pub_ok tuned_world 0"
    by (simp add: pub_ok_def keys_def entry_ok_def closed_of_def tuned_world_def consumers_of_def)
  then have "live_ok {#0#} (live tuned_world) tuned_world"
    using h live by (simp add: live_ok_def consumers_ok_def) (simp add: tuned_world_def)
  then show "media_ok {#0#} tuned_world"
    by (simp add: media_ok_def table_ok_def keys_def live)
      (simp add: tuned_world_def pub7_def members_def consumers_of_def)
  show "entry tuned_world 0 0 = Some \<lparr>cd_consumer = 0, cd_sentVideoKeyFrame = True\<rparr>"
    by (simp add: entry_def tuned_world_def consumers_of_def)
qed

definition two_nalus :: "nalu list" where
  "two_nalus = [([0, 0, 0, 2, 6], [9]), ([0, 0, 0, 3, 0x41], [7, 8])]"

lemma two_nalus_facts: "\<forall>n \<in> set two_nalus. whole_nalu n" "nalu_bytes (filter (\<lambda>(hdr, data). media_nalu hdr) two_nalus)
    = [0, 0, 0, 3, 0x41, 7, 8]" "nalu_bytes two_nalus = [0, 0, 0, 2, 6, 9, 0, 0, 0, 3, 0x41, 7, 8]"
  "nalu_pieces 65536 two_nalus = 1"
  by (simp_all add: two_nalus_def whole_nalu_def nalu_len_def media_nalu_def naluHdrSize_def of_be_u32_def
      naluTypeIDR_def naluTypeNonIDR_def pieces_def)

theorem video_message_reaches_consumers_witness:
  "\<exists>s' w'. on_video_message (\<lambda>_ _. plain_runtime) \<lparr>av_timestamp = 40, av_length = 18,
       av_data = [([0x27, 1, 0, 0, 0, 0, 0, 0, 2, 6, 9, 0, 0, 0, 3, 0x41, 7, 8], None)]\<rparr> session7 tuned_world
     = Some (None, s', w') \<and> concat (map (bytes_of w') (queue_of w' 0)) = [0, 0, 0, 3, 0x41, 7, 8]"
proof -
  let ?m = "\<lparr>av_timestamp = 40, av_length = 18,
       av_data = [([0x27, 1, 0, 0, 0, 0, 0, 0, 2, 6, 9, 0, 0, 0, 3, 0x41, 7, 8], None)]\<rparr> :: av_message"
  have pre: "0 \<in> live tuned_world" "Suc (length (cons_map tuned_world 0)) < ref_limit" "plain (av_data ?m)"
    "content (av_data ?m) = [0x27, 1, 0, 0, 0] @ nalu_bytes two_nalus"
    "length [0x27, 1, 0, 0, 0 :: byte] = VideoTagHeaderSize"
    "video_tag_codec [0x27, 1, 0, 0, 0] = VideoCodecH264" "video_tag_packet_type [0x27, 1, 0, 0, 0] = PacketData"
    by (simp_all add: tuned_world_ok two_nalus_facts ref_limit_def flv_consts video_tag_codec_def
        video_tag_packet_type_def) (simp add: tuned_world_def consumers_of_def)
  have q: "queue_of tuned_world 0 = []" by (simp add: tuned_world_def queue_of_def)
  have cap: "length (queue_of tuned_world 0) + nalu_pieces (video_cap tuned_world 0) two_nalus
      \<le> ch_cap (wc_messages (w_cons tuned_world ! 0))"
    using two_nalus_facts(4) q by (simp add: tuned_world_def video_cap_def pub7_def)
  have sent: "cd_sentVideoKeyFrame \<lparr>cd_consumer = 0, cd_sentVideoKeyFrame = True\<rparr>" by simp
  from video_message_reaches_consumers [where rtss = "\<lambda>_ _. plain_runtime", OF tuned_world_ok(1) pre(1,2)
      plain_runtime_fair session7_publishing pre(3-7) two_nalus_facts(1) tuned_world_ok(3) sent cap]
  show ?thesis by (auto simp: two_nalus_facts(2) q)
qed

text \<open>
  C13: The payload of an audio message reaches every consumer whose channel has room, byte for
  byte, in fragments of one frame.
\<close>

theorem audio_message_reaches_consumers:
  assumes "media_ok H w" and "p \<in> live w" and "Suc (length (cons_map w p)) < ref_limit"
    and "fair rts" and "publishing p s"
    and "plain (av_data m)" and "content (av_data m) = tag @ data" and "length tag = AudioTagHeaderSize"
    and "length data = unat (av_length m - of_nat AudioTagHeaderSize)"
    and "audio_tag_codec tag = AudioCodecAAC" and "audio_tag_packet_type tag = PacketData"
    and "entry w p i = Some d"
    and "length (queue_of w i) + pieces (pool_cap (snd (pub_audioPool (w_pubs w ! p)))) (length data)
      \<le> ch_cap (wc_messages (w_cons w ! i))"
  shows "\<exists>w' ms. on_audio_message rts m s w = Some (None, s, w') \<and> media_ok H w'
    \<and> queue_of w' i = queue_of w i @ ms \<and> concat (map (bytes_of w') ms) = data
    \<and> framed MesgAudio 0 (av_timestamp m) (av_length m - of_nat AudioTagHeaderSize) True ms"
proof -
  from on_audio_message_frames [OF assms(1-11)] obtain w' where
    run: "on_audio_message rts m s w = Some (None, s, w')" "handled H p w w'"
    and del: "\<exists>ms. sees i w w' ms data
      \<and> framed MesgAudio 0 (av_timestamp m) (av_length m - of_nat AudioTagHeaderSize) True ms"
    using assms(12,13) by blast
  then show ?thesis unfolding sees_def handled_def by blast
qed

theorem audio_message_reaches_consumers_witness:
  "\<exists>w'. on_audio_message (\<lambda>_. plain_runtime) \<lparr>av_timestamp = 40, av_length = 4,
       av_data = [([0xAF], None), ([1, 5], None), ([6], None)]\<rparr> session7 world7 = Some (None, session7, w')
     \<and> concat (map (bytes_of w') (queue_of w' 0)) = [5, 6]"
proof -
  let ?m = "\<lparr>av_timestamp = 40, av_length = 4, av_data = [([0xAF], None), ([1, 5], None), ([6], None)]\<rparr> :: av_message"
  have pre: "0 \<in> live world7" "Suc (length (cons_map world7 0)) < ref_limit" "plain (av_data ?m)"
    "content (av_data ?m) = [0xAF, 1] @ [5, 6]" "length [0xAF, 1 :: byte] = AudioTagHeaderSize"
    "length [5, 6 :: byte] = unat (av_length ?m - of_nat AudioTagHeaderSize)"
    "audio_tag_codec [0xAF, 1] = AudioCodecAAC" "audio_tag_packet_type [0xAF, 1] = PacketData"
    by (simp_all add: ref_limit_def flv_consts audio_tag_codec_def audio_tag_packet_type_def)
  have cap: "length (queue_of world7 0) + pieces (pool_cap (snd (pub_audioPool (w_pubs world7 ! 0)))) (length [5, 6 :: byte])
      \<le> ch_cap (wc_messages (w_cons world7 ! 0))" by (simp add: pub7_def pieces_def)
  from audio_message_reaches_consumers [OF world7_ok pre(1,2) plain_runtime_fair session7_publishing pre(3-8)
      world7_entry cap]
  show ?thesis by auto
qed

section \<open>Sequence headers\<close>

text \<open>
  A sequence header that fits an audio buffer is kept by the publisher as an exact copy of the
  payload, so that consumers joining later get the same bytes.
\<close>

theorem seq_header_kept_exactly:
  assumes "media_ok H w" and "p \<in> live w" and "Suc (length (cons_map w p)) < ref_limit"
    and "permutes_keys (rt_perm rt)" and "rs_pub s = Some p"
    and "ty = MesgVideoSeqHdr \<or> ty = MesgAudioSeqHdr"
    and "plain r" and "unat toRead \<le> length (content r)"
    and "unat toRead \<le> pool_cap (snd (pub_audioPool (w_pubs w ! p)))"
  shows "\<exists>r' w' x. send_seq_header rt ty r toRead s w = Some (None, r', w') \<and> media_ok H w'
    \<and> kept_header ty (w_pubs w' ! p) = Some x \<and> sb_bytes (h_bufs w' ! x) = take (unat toRead) (content r)"
  using send_seq_header_kept [OF assms] unfolding handled_def by blast

theorem seq_header_kept_exactly_witness:
  "\<exists>r' w' x. send_seq_header plain_runtime MesgVideoSeqHdr [([1, 100, 0], None), ([31], None)] 4 session7 world7
     = Some (None, r', w') \<and> pub_videoSeqHdr (w_pubs w' ! 0) = Some x \<and> sb_bytes (h_bufs w' ! x) = [1, 100, 0, 31]"
proof -
  let ?r = "[([1, 100, 0], None), ([31], None)] :: reader"
  have pre: "0 \<in> live world7" "Suc (length (cons_map world7 0)) < ref_limit" "permutes_keys (rt_perm plain_runtime)"
    "rs_pub session7 = Some 0" "MesgVideoSeqHdr = MesgVideoSeqHdr \<or> MesgVideoSeqHdr = MesgAudioSeqHdr"
    "plain ?r" "unat (4 :: u32) \<le> length (content ?r)"
    "unat (4 :: u32) \<le> pool_cap (snd (pub_audioPool (w_pubs world7 ! 0)))"
    by (simp_all add: ref_limit_def plain_runtime_def permutes_id session7_def pub7_def)
  from seq_header_kept_exactly [OF world7_ok pre] show ?thesis by (auto simp: kept_header_def)
qed

text \<open>
  A sequence header longer than an audio buffer is refused with an error, whatever its kind: it
  is neither truncated nor sent, and no publisher, consumer or table entry changes.
\<close>

theorem long_seq_header_refused:
  assumes "media_ok H w" and "p \<in> live w" and "rs_pub s = Some p"
    and "pool_cap (snd (pub_audioPool (w_pubs w ! p))) < unat toRead"
  shows "\<exists>e r' w'. send_seq_header rt ty r toRead s w = Some (Some e, r', w') \<and> media_ok H w'
    \<and> w_cons w' = w_cons w \<and> w_pubs w' = w_pubs w \<and> w_chan w' = w_chan w"
  using send_seq_header_refused [OF assms] unfolding same_objects_def by blast

theorem long_seq_header_refused_witness:
  "\<exists>e r' w'. send_seq_header plain_runtime MesgAudioSeqHdr [] 513 session7 world7 = Some (Some e, r', w')
     \<and> w_pubs w' = w_pubs world7"
proof -
  have pre: "0 \<in> live world7" "rs_pub session7 = Some 0"
    "pool_cap (snd (pub_audioPool (w_pubs world7 ! 0))) < unat (513 :: u32)"
    by (simp_all add: session7_def pub7_def)
  from long_seq_header_refused [OF world7_ok pre] show ?thesis by blast
qed

section \<open>An empty NALU\<close>

text \<open>
  A NALU of a sent type whose length field is one acquires a buffer that is neither sent nor
  released: the handler returns without an error, the buffer keeps one reference, and it is in no
  pool and in no channel.
\<close>

theorem empty_nalu_leaks_buffer:
  assumes "media_ok H w" and "p \<in> live w" and "publishing p s"
    and "read_full naluHdrSize [] r = (hdr, None, r1)" and "media_nalu hdr" and "nalu_len hdr = 0"
  shows "\<exists>a s' w'. send_video_data rts ts r s w = Some ((False, None), r1, s', w')
    \<and> a < length (h_bufs w') \<and> sb_count (h_bufs w' ! a) = 1 \<and> (\<forall>pr. a \<notin> set (h_pools w' pr))
    \<and> (\<forall>i < length (w_cons w'). \<forall>m \<in> set (queue_of w' i). m_data m \<noteq> a)"
  using empty_nalu_leaks [OF assms] by blast

theorem empty_nalu_leaks_buffer_witness:
  "\<exists>a s' w'. send_video_data (\<lambda>_. plain_runtime) 40 [([0, 0, 0, 1, 0x65], None)] session7 world7
     = Some ((False, None), [], s', w') \<and> sb_count (h_bufs w' ! a) = 1"
proof -
  have rd: "read_full naluHdrSize [] [([0, 0, 0, 1, 0x65], None)] = ([0, 0, 0, 1, 0x65], None, [])"
    by (simp add: read_full.simps naluHdrSize_def)
  have "0 \<in> live world7" "media_nalu [0, 0, 0, 1, 0x65]" "nalu_len [0, 0, 0, 1, 0x65] = 0"
    by (simp_all add: media_nalu_def nalu_len_def naluTypeIDR_def of_be_u32_def)
  from empty_nalu_leaks_buffer [OF world7_ok this(1) session7_publishing rd this(2,3)] show ?thesis by blast
qed

end
