(* ===== verification/EventProps.thy ===== *)
theory EventProps
  imports WsMainOk
begin

text \<open>
  The properties of the event side: the bus and the viewer counts. The connections that subscribe to
  topics are in \<open>ProgramEvents\<close>.
\<close>

section \<open>The event bus\<close>

text \<open>
  C29: No operation of the event bus panics in a reachable state, as long as nobody subscribes with or
  closes a subscriber that is closed already; and in every reachable state the bus knows a subscriber
  under a topic exactly when the subscriber lists it, a closed subscriber under none.
\<close>

theorem bus_never_panics:
  assumes "reachable (\<lambda>b. b = new_bus) bus_allowed bus_exec b"
  shows "(bus_allowed op b \<longrightarrow> bus_exec op b \<noteq> None)
    \<and> (\<forall>t s. s \<in> set (subs_at b t) \<longleftrightarrow> s < length (eb_subs b) \<and> t \<in> set (es_topics (eb_subs b ! s)))
    \<and> (\<forall>t s. s \<in> set (subs_at b t) \<longrightarrow> \<not> ch_closed (es_events (eb_subs b ! s)))"
  using bus.reachable_progress [OF assms] bus.reachable_inv [OF assms] bus_okD(3) subscribed_open by blast

definition bus1 :: event_bus where
  "bus1 = snd (new_subscriber new_bus)"

lemma bus1_ok: "bus_ok bus1" "sub_open bus1 0" "sub_topics 0 bus1 = {}" "length (eb_subs bus1) = 1"
  using new_subscriber_ok [OF new_bus_ok]
  by (simp_all add: bus1_def) (simp_all add: new_subscriber_def new_bus_def sub_open_def make_chan_def sub_topics_def)

lemma bus1_reachable: "reachable (\<lambda>b. b = new_bus) bus_allowed bus_exec bus1"
  unfolding bus1_def
  by (rule reachable.step [where op = NewSubscriber and s = new_bus]) (simp_all add: reachable.start)

theorem bus_never_panics_witness:
  "bus_exec (CloseSubscriber id 0) bus1 \<noteq> None \<and> (\<forall>t. 1 \<notin> set (subs_at bus1 t))"
  using bus_never_panics [OF bus1_reachable, of "CloseSubscriber id 0"] bus1_ok
  by (simp add: permutes_keys_def)

text \<open>
  C30: \<open>Publish\<close> returns and offers the event to each subscriber once for each of its topics that is
  the event's topic or a dotted prefix of it; what does not fit into the subscriber's channel is
  lost, and nothing else changes.
\<close>

theorem publish_delivers:
  assumes "bus_ok b" and "\<And>sec. permutes_keys (perm sec)" and "s < length (eb_subs b)"
  shows "\<exists>b'. bus_publish perm ev b = Some b' \<and> bus_ok b' \<and> subs_at b' = subs_at b
    \<and> ch_queue (es_events (eb_subs b' ! s)) = ch_queue (es_events (eb_subs b ! s))
      @ replicate (min (card {t \<in> set (es_topics (eb_subs b ! s)). t = event_topic ev \<or> prefix (t @ ''.'') (event_topic ev)})
          (ch_cap (es_events (eb_subs b ! s)) - length (ch_queue (es_events (eb_subs b ! s))))) ev"
proof -
  let ?secs = "sections (event_topic ev)"
  let ?b = "on_subs (\<lambda>i. offered ev ^^ hits b ?secs i) b"
  have "hits b ?secs s = card (set (filter (\<lambda>sec. s \<in> set (subs_at b sec)) ?secs))"
    unfolding hits_def by (rule distinct_card [symmetric]) (simp add: distinct_sections)
  also have "set (filter (\<lambda>sec. s \<in> set (subs_at b sec)) ?secs)
      = {t \<in> set (es_topics (eb_subs b ! s)). t = event_topic ev \<or> prefix (t @ ''.'') (event_topic ev)}"
    using bus_okD(3) [OF assms(1)] assms(3) by (auto simp: sections_spec)
  finally have hits: "hits b ?secs s = card {t \<in> set (es_topics (eb_subs b ! s)).
      t = event_topic ev \<or> prefix (t @ ''.'') (event_topic ev)}" .
  have "chan_ok (es_events (eb_subs b ! s))" using bus_okD(1) [OF assms(1,3)] by (simp add: sub_ok_def)
  then show ?thesis
    using bus_publish_ok [OF assms(1,2)] assms(3) by (intro exI [of _ ?b]) (simp add: funpow_offered_queue hits)
qed

definition bus7 :: event_bus where
  "bus7 = the (sub_subscribe 0 ''stream.7'' bus1)"

lemma bus7_ok: "bus_ok bus7" "eb_subs bus7 = [\<lparr>es_events = make_chan 16, es_topics = [''stream.7'']\<rparr>]"
proof -
  have z: "0 < length (eb_subs bus1)" "\<not> ch_closed (es_events (eb_subs bus1 ! 0))"
    using bus1_ok by (simp_all add: sub_open_def)
  obtain b' where "sub_subscribe 0 ''stream.7'' bus1 = Some b'" "bus_ok b'"
    "eb_subs b' = (eb_subs bus1)[0 := (eb_subs bus1 ! 0)\<lparr>es_topics := List.insert ''stream.7'' (es_topics (eb_subs bus1 ! 0))\<rparr>]"
    using sub_subscribe_ok [OF bus1_ok(1) z] by blast
  then show "bus_ok bus7" "eb_subs bus7 = [\<lparr>es_events = make_chan 16, es_topics = [''stream.7'']\<rparr>]"
    by (simp_all add: bus7_def) (simp add: bus1_def new_subscriber_def new_bus_def subEventsMaxBuf_def)
qed

lemma topic7: "event_topic (StreamViewers 7 n) = ''stream.7.viewers''" "event_topic (StreamStarted 7) = ''stream.7.started''"
  by (simp_all add: format_uint_def decimal.simps)

theorem publish_delivers_witness:
  "\<exists>b'. bus_publish (\<lambda>_. id) (StreamViewers 7 3) bus7 = Some b'
     \<and> ch_queue (es_events (eb_subs b' ! 0)) = [StreamViewers 7 3]"
proof -
  have "{t. t = ''stream.7'' \<and> (t = ''stream.7.viewers'' \<or> prefix (t @ ''.'') ''stream.7.viewers'')} = {''stream.7''}"
    by auto
  then have one: "card {t \<in> set (es_topics (eb_subs bus7 ! 0)). t = event_topic (StreamViewers 7 3)
      \<or> prefix (t @ ''.'') (event_topic (StreamViewers 7 3))} = 1"
    by (simp only: topic7) (simp add: bus7_ok(2))
  have perm: "permutes_keys ((\<lambda>_ :: string. id :: nat list \<Rightarrow> nat list) sec)" for sec by (simp add: permutes_keys_def)
  have z: "0 < length (eb_subs bus7)" by (simp add: bus7_ok(2))
  from publish_delivers [OF bus7_ok(1) perm z, where ev = "StreamViewers 7 3"] show ?thesis
    unfolding one by (auto simp: bus7_ok(2) make_chan_def)
qed

lemma offer_all_closed:
  "s \<in> set ss \<Longrightarrow> s < length (eb_subs b) \<Longrightarrow> ch_closed (es_events (eb_subs b ! s)) \<Longrightarrow> offer_all ev ss b = None"
proof (induction ss arbitrary: b)
  case (Cons x ss)
  have keep: "s < length (eb_subs b') \<and> ch_closed (es_events (eb_subs b' ! s))" if "offer ev x b = Some b'" for b'
    using that Cons.prems by (auto simp: offer_def bind_Some_iff try_send_def nth_list_update split: if_splits)
  show ?case
  proof (cases "x = s")
    case True
    then show ?thesis using Cons.prems by (simp add: offer_def try_send_def)
  next
    case False
    then have mem: "s \<in> set ss" using Cons.prems(1) by simp
    show ?thesis
    proof (cases "offer ev x b")
      case (Some b')
      then show ?thesis using Cons.IH [OF mem] keep by simp
    qed simp
  qed
qed simp

lemma publish_sections_closed:
  assumes "t \<in> set secs" and "s \<in> set (subs_at b t)" and "s < length (eb_subs b)"
    and "ch_closed (es_events (eb_subs b ! s))" and "\<And>sec. permutes_keys (perm sec)"
  shows "publish_sections perm ev secs b = None"
  using assms(1-4)
proof (induction secs arbitrary: b)
  case (Cons x secs)
  show ?case
  proof (cases "offer_all ev (perm x (subs_at b x)) b")
    case (Some b')
    have keep: "eb_topicSubs b2 = eb_topicSubs b1 \<and> (s < length (eb_subs b1) \<and> ch_closed (es_events (eb_subs b1 ! s))
        \<longrightarrow> s < length (eb_subs b2) \<and> ch_closed (es_events (eb_subs b2 ! s)))"
      if "offer_all ev ss b1 = Some b2" for ss b1 b2
      using that
    proof (induction ss arbitrary: b1)
      case (Cons y ss)
      then show ?case
        by (fastforce simp: offer_def bind_Some_iff try_send_def nth_list_update split: if_splits)
    qed simp
    have "x \<noteq> t"
    proof
      assume "x = t"
      then have "s \<in> set (perm x (subs_at b x))" using Cons.prems(2) permutes_keysD(1) [OF assms(5)] by simp
      then show False using offer_all_closed Cons.prems(3,4) Some by fastforce
    qed
    then have "t \<in> set secs" using Cons.prems(1) by simp
    moreover have "subs_at b' = subs_at b" using keep [OF Some] by (intro subs_at_cong) simp
    ultimately have "publish_sections perm ev secs b' = None"
      using Cons.IH [of b'] Cons.prems(2-4) keep [OF Some] by simp
    then show ?thesis using Some by simp
  qed simp
qed simp

text \<open>
  \<open>Subscribe\<close> enters the subscriber into the bus before it notes the topic for \<open>Close\<close>. When
  \<open>Close\<close> runs in between, the closed subscriber stays in the bus, and the next event for that
  topic panics, in whatever order the subscribers are served.
\<close>

theorem subscribe_close_race:
  assumes "bus_ok b" and "sub_open b s" and "topic \<notin> set (es_topics (eb_subs b ! s))"
    and "permutes_keys p" and "\<And>sec. permutes_keys (perm sec)"
    and "topic = event_topic ev \<or> prefix (topic @ ''.'') (event_topic ev)"
  shows "\<exists>b'. sub_close p s (bus_subscribe topic s b) = Some b' \<and> bus_publish perm ev b' = None"
proof -
  let ?sub = "eb_subs b ! s"
  let ?c = "unsubscribe_all s (p (es_topics ?sub)) (bus_subscribe topic s b)"
  let ?b = "?c\<lparr>eb_subs := (eb_subs b)[s := ?sub\<lparr>es_events := es_events ?sub\<lparr>ch_closed := True\<rparr>, es_topics := []\<rparr>]\<rparr>"
  have s: "s < length (eb_subs b)" "\<not> ch_closed (es_events ?sub)" using assms(2) by (simp_all add: sub_open_def)
  have run: "sub_close p s (bus_subscribe topic s b) = Some ?b"
    using s by (simp add: sub_close_def close_chan_def Let_def)
  have "s \<in> set (subs_at ?b topic)"
    using assms(3) permutes_keysD(1) [OF assms(4)] by (simp add: subs_at_subscribe)
  then have "bus_publish perm ev ?b = None"
    unfolding bus_publish_def
    by (rule publish_sections_closed [rotated]) (use assms(5,6) s in \<open>simp_all add: sections_spec\<close>)
  with run show ?thesis by blast
qed

theorem subscribe_close_race_witness:
  "\<exists>b'. sub_close id 0 (bus_subscribe ''stream.7'' 0 bus1) = Some b'
     \<and> bus_publish (\<lambda>_. id) (StreamStarted 7) b' = None"
proof -
  have "''stream.7'' \<notin> set (es_topics (eb_subs bus1 ! 0))" using bus1_ok(3) by (simp add: sub_topics_def)
  moreover have "permutes_keys (id :: string list \<Rightarrow> string list)" "\<And>sec :: string. permutes_keys (id :: nat list \<Rightarrow> nat list)"
    by (simp_all add: permutes_keys_def)
  moreover have "''stream.7'' = event_topic (StreamStarted 7) \<or> prefix (''stream.7'' @ ''.'') (event_topic (StreamStarted 7))"
    unfolding topic7 by simp
  ultimately show ?thesis by (rule subscribe_close_race [OF bus1_ok(1,2)])
qed

section \<open>Viewers\<close>

text \<open>
  C31: However viewers come and go, with whatever publishing orders, \<open>AddViewer\<close> and
  \<open>RemoveViewer\<close> on the in-memory bus return, and the service's counters are exactly the multiset
  of the connections that are open; removing an unknown viewer changes nothing.
\<close>

theorem viewers_session:
  assumes "bus_ok b" and "\<forall>(p, op) \<in> set ops. \<forall>sec. permutes_keys (p sec)"
  shows "\<exists>ss b'. run_machine (viewer_exec bus_publish) ops (new_stream, b) = Some (ss, b') \<and> bus_ok b'
    \<and> represents ss (open_connections (map snd ops) {#})"
  by (rule bus_sink.viewers_run_ok [OF new_stream_represents assms])

theorem viewers_session_witness:
  "\<exists>ss b'. run_machine (viewer_exec bus_publish) [(\<lambda>_. id, AddViewer 7 ''a''), (\<lambda>_. id, AddViewer 7 ''a''),
      (\<lambda>_. id, RemoveViewer 7 ''b''), (\<lambda>_. id, RemoveViewer 7 ''a'')] (new_stream, bus7) = Some (ss, b')
     \<and> viewer_count ss 7 ''a'' = 1"
proof -
  let ?ops = "[(\<lambda>_. id, AddViewer 7 ''a''), (\<lambda>_. id, AddViewer 7 ''a''), (\<lambda>_. id, RemoveViewer 7 ''b''),
    (\<lambda>_. id, RemoveViewer 7 ''a'')] :: ((string \<Rightarrow> nat list \<Rightarrow> nat list) \<times> viewer_op) list"
  have legal: "\<forall>(p, op) \<in> set ?ops. \<forall>sec. permutes_keys (p sec)" by (simp add: permutes_keys_def)
  obtain ss b' where run: "run_machine (viewer_exec bus_publish) ?ops (new_stream, bus7) = Some (ss, b')"
    "represents ss (open_connections (map snd ?ops) {#})"
    using viewers_session [OF bus7_ok(1) legal] by blast
  have "viewer_count ss 7 ''a'' = 1" using representsD(2) [OF run(2), of 7 "''a''"] by simp
  with run(1) show ?thesis by blast
qed

text \<open>
  What is published: \<open>AddViewer\<close> publishes the number of distinct viewers of the stream after
  it, and fails only if publishing does; \<open>RemoveViewer\<close> publishes that number too, unless the stream
  has no viewers or the viewer has another connection open. Both refine the multiset of connections.
\<close>

theorem viewer_events:
  assumes "represents ss M"
  shows "(\<exists>ss'. add_viewer publish p u ip ss b = map_option (Pair ss')
          (publish p (StreamViewers u (int (card (viewers_of (add_mset (u, ip) M) u)))) b)
        \<and> represents ss' (add_mset (u, ip) M))
    \<and> (\<exists>ss'. remove_viewer publish p u ip ss b =
          (if viewers_of M u = {} \<or> 1 < count M (u, ip) then Some (ss', b)
           else map_option (Pair ss')
             (publish p (StreamViewers u (int (card (viewers_of (M - {#(u, ip)#}) u)))) b))
        \<and> represents ss' (M - {#(u, ip)#}))"
  using add_viewer_refines [OF assms] remove_viewer_refines [OF assms] by (intro conjI)

text \<open>A publisher that records the events.\<close>

definition record_event :: "unit \<Rightarrow> event \<Rightarrow> event list \<Rightarrow> event list option" where
  "record_event p ev evs = Some (evs @ [ev])"

theorem viewer_events_witness:
  "\<exists>ss. add_viewer record_event () 7 ''a'' new_stream [] = Some (ss, [StreamViewers 7 1])"
proof -
  have "viewers_of (add_mset (7, ''a'') {#}) 7 = {''a''}" by (auto simp: viewers_of_def)
  then show ?thesis
    using viewer_events [OF new_stream_represents, of record_event "()" 7 "''a''" "[]"]
    by (auto simp: record_event_def)
qed

end
