(* ===== verification/ServerProps.thy ===== *)
theory ServerProps
  imports Scenario ViewerServer RtmpSession EventProps
begin

text \<open>
  The properties of whole sessions: viewers, publishing connections, and how the two find each other.
\<close>

section \<open>Viewers\<close>





text \<open>
  C35: When reading from a viewer's connection has failed, the session's remaining steps return: the
  viewer is taken off the counter, the consumer is in no publisher's map any more, and the connection is
  closed. If a publisher with the consumer's identifier is still in the table, the consumer's channel is
  closed too, so that its goroutine ends; without one nothing stops it here.
\<close>

theorem leaving_session_cleans_up:
  assumes "media_ok H w" and "bus_ok b" and "represents ss (add_mset (u, ip) M)" and "i < length (w_cons w)"
    and "\<forall>sec. permutes_keys (perm sec)"
  shows "\<exists>ss' b' w2 w3. session_step bus_publish perm f i u ip Uncounting (w, ss, b) = Some (Leaving, w, ss', b')
    \<and> session_step bus_publish perm f i u ip Leaving (w, ss', b') = Some (Closing, w2, ss', b')
    \<and> session_step bus_publish perm f i u ip Closing (w2, ss', b') = Some (Returned, w3, ss', b')
    \<and> media_ok H w3 \<and> bus_ok b' \<and> represents ss' M
    \<and> cn_closed (wc_conn (w_cons w3 ! i)) \<and> (\<forall>p \<in> live w3. i \<notin> members w3 p)
    \<and> (get_publisher (wc_pubID (w_cons w ! i)) w \<noteq> None \<longrightarrow> closed_of w3 i)"
proof -
  obtain ss' b' where v: "viewer_exec bus_publish (perm, RemoveViewer u ip) (ss, b) = Some (ss', b')" "bus_ok b'"
    "represents ss' (open_connections [RemoveViewer u ip] (add_mset (u, ip) M))"
    using bus_sink.viewer_exec_ok [OF assms(3,2,5)] by blast
  obtain w2 where w2: "mc_remove_consumer i w = Some w2" "media_ok H w2" "\<forall>p \<in> live w. i \<notin> members w2 p" "live w2 = live w"
    "get_publisher (wc_pubID (w_cons w ! i)) w \<noteq> None \<longrightarrow> closed_of w2 i" "length (w_cons w2) = length (w_cons w)"
    using mc_remove_consumer_ok [OF assms(1,4)] by blast
  have i2: "i < length (w_cons w2)" using w2(6) assms(4) by simp
  obtain w3 where w3: "close_conn i w2 = Some w3" "media_ok H w3" "closed_of w3 = closed_of w2"
    using close_conn_media [OF w2(2) i2] by blast
  have c: "cn_closed (wc_conn (w_cons w3 ! i))" "live w3 = live w2" "members w3 p = members w2 p" for p
  proof -
    have "w_pubs w3 = w_pubs w2 \<and> w_chan w3 = w_chan w2 \<and> cn_closed (wc_conn (w_cons w3 ! i))"
      using w3(1) i2 by (auto simp: close_conn_def)
    then show "cn_closed (wc_conn (w_cons w3 ! i))" "live w3 = live w2" "members w3 p = members w2 p" for p
      by (simp_all add: live_def members_def)
  qed
  show ?thesis
    by (rule exI [of _ ss'], rule exI [of _ b'], rule exI [of _ w2], rule exI [of _ w3]) (use v w2 w3 c in simp)
qed

theorem leaving_session_cleans_up_witness:
  "\<exists>ss' b' w2. session_step bus_publish (\<lambda>_. id) True 0 7 ''a'' Leaving (world7, ss', b') = Some (Closing, w2, ss', b')
     \<and> (\<exists>w3. session_step bus_publish (\<lambda>_. id) True 0 7 ''a'' Closing (w2, ss', b') = Some (Returned, w3, ss', b')
       \<and> cn_closed (wc_conn (w_cons w3 ! 0)) \<and> closed_of w3 0)"
proof -
  obtain ss where ss: "represents ss (add_mset (7, ''a'') {#})"
    using add_viewer_refines [OF new_stream_represents] by metis
  have "\<forall>sec :: string. permutes_keys ((\<lambda>_ :: string. id :: nat list \<Rightarrow> nat list) sec)" "0 < length (w_cons world7)"
    by (simp_all add: permutes_keys_def)
  moreover have "get_publisher (wc_pubID (w_cons world7 ! 0)) world7 \<noteq> None" by (simp add: get_publisher_def)
  ultimately show ?thesis using leaving_session_cleans_up [OF world7_ok bus1_ok(1) ss, of 0 "\<lambda>_. id" True] by metis
qed

section \<open>Publishing connections\<close>

text \<open>
  A connection with a valid stream key never makes the server panic, whatever its peer sends. It is
  refused with \<open>ErrPublisherExists\<close> exactly when the user is streaming already; otherwise the user's
  publisher is in the table while the connection streams, and when it ends the table holds the same
  publishers as before.
\<close>

theorem publishing_connection:
  assumes "media_ok H w" and "bus_ok b" and "\<forall>sec. permutes_keys (pp sec)" and "permutes_keys perm"
    and "\<And>n j. fair (rt n j)" and "get_by_key key = Inr u"
  shows "\<exists>st w' b'. on_conn get_by_key bus_publish pp perm rt (Some (''live/'' @ key)) True ins w b = Some (st, w', b')
    \<and> media_ok H w' \<and> bus_ok b'
    \<and> (case st of
         NotAccepted \<Rightarrow> False
       | Refused e \<Rightarrow> e = ErrPublisherExists \<and> get_publisher (format_uint u) w \<noteq> None \<and> w_chan w' = w_chan w
       | Streaming s \<Rightarrow> get_publisher (format_uint u) w = None
           \<and> get_publisher (format_uint u) w' = Some (length (w_pubs w)) \<and> publishing (length (w_pubs w)) s
       | Over \<Rightarrow> get_publisher (format_uint u) w = None \<and> get_publisher (format_uint u) w' = None \<and> live w' = live w)"
  by (rule bus_sink.on_conn_ok [where get_by_key = get_by_key and key = key and rt = rt and pp = pp and perm = perm, OF assms])

definition one_key :: "string \<Rightarrow> string + u64" where
  "one_key key = (if key = ''sk_1'' then Inr 9 else Inl ''entity not found'')"

lemma runtime9: "\<And>n j. fair ((\<lambda>n j k. plain_runtime) n j)"
  by (rule plain_runtime_fair)

theorem publishing_connection_witness:
  "\<exists>st w' b'. on_conn one_key bus_publish (\<lambda>_. id) id (\<lambda>_ _ _. plain_runtime) (Some ''live/sk_1'') True
     [UnsupportedMessage, CloseStream] world7 bus1 = Some (st, w', b') \<and> media_ok {#0#} w'"
proof -
  have pre: "\<forall>sec :: string. permutes_keys ((\<lambda>_ :: string. id :: nat list \<Rightarrow> nat list) sec)"
    "permutes_keys (id :: string list \<Rightarrow> string list)" "one_key ''sk_1'' = Inr 9"
    by (simp_all add: permutes_keys_def one_key_def)
  from publishing_connection [where get_by_key = one_key and key = "''sk_1''" and pp = "\<lambda>_. id" and perm = id and rt = "\<lambda>_ _ _. plain_runtime", OF world7_ok bus1_ok(1) pre(1,2) runtime9 pre(3), of "[UnsupportedMessage, CloseStream]"]
  show ?thesis by auto
qed

text \<open>
  The two sides agree on identifiers: while a user's connection streams, a viewer who asks for
  \<open>/ws/streams/<user id>\<close> with the identifier in decimal is led to that connection's publisher and
  counted for that user; and whoever is led to it is counted for that user.
\<close>

theorem viewer_finds_publisher:
  assumes "media_ok H w" and "bus_ok b" and "\<forall>sec. permutes_keys (pp sec)" and "permutes_keys perm"
    and "\<And>n j. fair (rt n j)" and "get_by_key key = Inr u"
    and "on_conn get_by_key bus_publish pp perm rt (Some (''live/'' @ key)) True ins w b = Some (Streaming s, w', b')"
  shows "get_publisher_id (''/ws/streams/'' @ format_uint u) = Inr (format_uint u, u)
    \<and> get_publisher (format_uint u) w' = rs_pub s
    \<and> (\<forall>url v. get_publisher_id url = Inr (format_uint u, v) \<longrightarrow> v = u)"
proof -
  have "get_publisher (format_uint u) w' = rs_pub s"
    using bus_sink.on_conn_ok [where get_by_key = get_by_key and key = key and rt = rt and pp = pp and perm = perm, OF assms(1-6), of ins] assms(7) by (auto simp: publishing_def)
  moreover have "v = u" if "get_publisher_id url = Inr (format_uint u, v)" for url v
    using get_publisher_id_sound [OF that] by simp
  ultimately show ?thesis using get_publisher_id_streams by blast
qed

theorem viewer_finds_publisher_witness:
  "\<exists>s w' b'. on_conn one_key bus_publish (\<lambda>_. id) id (\<lambda>_ _ _. plain_runtime) (Some ''live/sk_1'') True [] world7 bus1
      = Some (Streaming s, w', b') \<and> get_publisher_id ''/ws/streams/9'' = Inr (''9'', 9)
      \<and> get_publisher ''9'' w' = rs_pub s"
proof -
  have pre: "\<forall>sec :: string. permutes_keys ((\<lambda>_ :: string. id :: nat list \<Rightarrow> nat list) sec)"
    "permutes_keys (id :: string list \<Rightarrow> string list)" "one_key ''sk_1'' = Inr 9"
    by (simp_all add: permutes_keys_def one_key_def)
  have nine: "format_uint 9 = ''9''" by (simp add: format_uint_def decimal.simps)
  have free: "get_publisher (format_uint 9) world7 = None"
    unfolding nine by (simp add: get_publisher_def)
  let ?run = "on_conn one_key bus_publish (\<lambda>_. id) id (\<lambda>_ _ _. plain_runtime) (Some (''live/'' @ ''sk_1'')) True [] world7 bus1"
  obtain s w' b' where run: "?run = Some (Streaming s, w', b')"
  proof -
    from bus_sink.on_conn_ok [where get_by_key = one_key and key = "''sk_1''" and pp = "\<lambda>_. id" and perm = id
        and rt = "\<lambda>_ _ _. plain_runtime", OF world7_ok bus1_ok(1) pre(1,2) runtime9 pre(3), of "[]"]
    obtain st w' b' where ok: "?run = Some (st, w', b')" "st \<noteq> NotAccepted" "\<forall>e. st \<noteq> Refused e"
      using free by (elim exE conjE) (auto split: conn_state.splits)
    have "st \<noteq> Over" using ok(1) by (auto simp: on_conn_def bind_Some_iff split: prod.splits option.splits if_splits)
    with ok(2,3) obtain s where "st = Streaming s" by (cases st) auto
    with ok(1) that show ?thesis by blast
  qed
  from viewer_finds_publisher [where get_by_key = one_key and key = "''sk_1''" and pp = "\<lambda>_. id" and perm = id and rt = "\<lambda>_ _ _. plain_runtime", OF world7_ok bus1_ok(1) pre(1,2) runtime9 pre(3) run] run show ?thesis
    unfolding nine by auto
qed

end
