(* ===== verification/AccountProps.thy ===== *)
theory AccountProps
  imports ApiScenario RtmpSession
begin

text \<open>
  The properties of accounts and of the HTTP interface: signing up, what an account can then do, who may
  read what, which input is accepted, and what other origins get.
\<close>

section \<open>Signing up\<close>

lemma taken_name:
  assumes "sql_transactions query users skeys valid begin_tx commit" and "valid db" and "n \<in> us_username ` set (users db)"
    and "\<And>e. generate p 14 = Inl e \<Longrightarrow> plain_error e"
    and "sign_up_insert query begin_tx commit generate random n p db = (r, d)"
  shows "d = db \<and> (\<exists>e. r = Inl e \<and> plain_error e)"
proof -
  note db = sql_transactions.axioms(1) [OF assms(1)]
  note ok = sql_transactions.sign_up_insert_ok [OF assms(1,2,5,4)]
  show ?thesis
  proof (cases r)
    case (Inl e)
    with ok show ?thesis by simp
  next
    case (Inr u)
    with ok have "valid d" "us_username u = n" "users d = users db @ [u]" by simp_all
    with sql_database.users_distinct [OF db, of d] assms(3) show ?thesis by auto
  qed
qed

text \<open>
  C36: \<open>SignUp\<close> makes a user together with one active stream key, or changes nothing: every user always
  has exactly one key, whatever fails in between. A request whose name was taken after its check is
  refused by the database and changes nothing either, with an error that is not \<open>ErrUsernameTaken\<close>.
\<close>

theorem sign_up_all_or_nothing:
  assumes "sql_transactions query users skeys valid begin_tx commit" and "valid db"
    and "one_key_each (users db) (skeys db)" and "\<forall>e. generate p 14 = Inl e \<longrightarrow> plain_error e"
    and "sign_up query begin_tx commit generate random n p db = (r, db')"
  shows "valid db' \<and> one_key_each (users db') (skeys db')
    \<and> (case r of
         Inl e \<Rightarrow> db' = db
       | Inr u \<Rightarrow> n \<notin> us_username ` set (users db) \<and> us_username u = n \<and> users db' = users db @ [u]
           \<and> (\<exists>k. create_stream_key random = Inr (sk_key k) \<and> sk_userID k = us_id u \<and> skeys db' = skeys db @ [k]))
    \<and> (\<forall>later r2 d. n \<in> us_username ` set (users db')
        \<and> sign_up_insert query begin_tx commit generate later n p db' = (r2, d)
        \<longrightarrow> d = db' \<and> (\<exists>e. r2 = Inl e \<and> \<not> errors_is e ErrUsernameTaken))"
proof -
  note db = sql_transactions.axioms(1) [OF assms(1)]
  have gen: "plain_error e" if "generate p 14 = Inl e" for e using assms(4) that by blast
  note ok = sql_transactions.sign_up_ok [OF assms(1,2,5) gen]
  have first: "one_key_each (users db') (skeys db')
    \<and> (case r of
         Inl e \<Rightarrow> db' = db
       | Inr u \<Rightarrow> n \<notin> us_username ` set (users db) \<and> us_username u = n \<and> users db' = users db @ [u]
           \<and> (\<exists>k. create_stream_key random = Inr (sk_key k) \<and> sk_userID k = us_id u \<and> skeys db' = skeys db @ [k]))"
  proof (cases r)
    case (Inl e)
    with ok assms(3) show ?thesis by simp
  next
    case (Inr u)
    with ok obtain k where k: "valid db'" "us_username u = n" "users db' = users db @ [u]" "sk_active k"
      "sk_userID k = us_id u" "create_stream_key random = Inr (sk_key k)" "skeys db' = skeys db @ [k]" by auto
    have "n \<notin> us_username ` set (users db)"
      using sql_database.users_distinct [OF db k(1)] k(2,3) by auto
    with k Inr one_key_each_snoc [OF assms(3) k(5,4)] show ?thesis by auto
  qed
  have valid: "valid db'" using ok by blast
  have "d = db' \<and> (\<exists>e. r2 = Inl e \<and> \<not> errors_is e ErrUsernameTaken)"
    if "n \<in> us_username ` set (users db')" "sign_up_insert query begin_tx commit generate later n p db' = (r2, d)" for later r2 d
    using taken_name [OF assms(1) valid that(1) gen that(2)] by (auto dest: plain_error_is)
  with valid first show ?thesis by blast
qed

theorem sign_up_all_or_nothing_witness:
  "tables_valid alice_tables \<and> one_key_each (tb_users alice_tables) (tb_keys alice_tables)
     \<and> fst (sign_up_insert table_query table_begin table_commit plain_generate None ''alice'' ''secret'' alice_tables) \<noteq> Inr alice_user"
proof -
  have none: "one_key_each (tb_users empty_tables) (tb_keys empty_tables)"
    by (simp add: one_key_each_def empty_tables_def)
  have gen: "\<forall>e. plain_generate ''secret'' 14 = Inl e \<longrightarrow> plain_error e" using plain_bcrypt(2) by blast
  obtain r2 d where run: "sign_up_insert table_query table_begin table_commit plain_generate None ''alice'' ''secret'' alice_tables = (r2, d)"
    by fastforce
  have "''alice'' \<in> us_username ` set (tb_users alice_tables)" by (simp add: alice_tables_def alice_user_def)
  with run sign_up_all_or_nothing [OF schema.sql_transactions_axioms empty_tables_valid none gen alice_signs_up] show ?thesis by auto
qed

section \<open>What an account can do\<close>

text \<open>The stream-key service as \<open>onConnect\<close> uses it.\<close>

definition stream_key_owner :: "'db sql_query \<Rightarrow> 'db \<Rightarrow> string \<Rightarrow> go_error + u64" where
  "stream_key_owner query db key =
     (case fst (sk_get_by_key query key db) of
        Inl e \<Rightarrow> Inl (WrapErr ''get stream key'' e)
      | Inr sk \<Rightarrow> Inr (sk_userID sk))"

text \<open>
  C37: Who has signed up can sign in with the same password, gets the key that was made, has tokens that
  are verified as theirs until they expire, and an RTMP connection that gives this key publishes under
  the user's identifier. Nothing but a failure of the database or a library keeps one from it. The key
  has to be new, which sixteen random bytes make it.
\<close>

theorem account_can_stream:
  assumes "sql_transactions query users skeys valid begin_tx commit" and "valid db"
    and "one_key_each (users db) (skeys db)" and "\<forall>e. generate p 14 = Inl e \<longrightarrow> plain_error e"
    and "\<forall>h. generate p 14 = Inr h \<longrightarrow> compare_hash h p = None" and "jwt_contract sign parse"
    and "sign_up query begin_tx commit generate random n p db = (Inr u, db')"
    and "create_stream_key random = Inr key" and "key \<notin> sk_key ` set (skeys db)"
  shows "(case fst (sign_in query compare_hash n p db') of Inl e \<Rightarrow> plain_error e | Inr v \<Rightarrow> v = u)
    \<and> (case fst (sk_get_by_user_id query (us_id u) db') of Inl e \<Rightarrow> plain_error e | Inr k \<Rightarrow> sk_key k = key)
    \<and> (\<forall>token later. token_create sign uuid now now' t (us_id u) = Inr token \<and> later < now' + jt_duration t
        \<longrightarrow> token_verify parse later t token = Inr (us_id u))
    \<and> (case on_connect (stream_key_owner query db') (''live/'' @ key) new_session w of (e, s, w') \<Rightarrow>
        (case e of
           Some e \<Rightarrow> plain_error e
         | None \<Rightarrow> rs_userID s = us_id u \<and> (\<exists>q. rs_pub s = Some q \<and> pub_id (w_pubs w' ! q) = format_uint (us_id u))))"
proof -
  note trx = sql_transactions.axioms(1) [OF assms(1)]
  have gen: "plain_error e" if "generate p 14 = Inl e" for e using assms(4) that by blast
  from sql_transactions.sign_up_ok [OF assms(1,2,7) gen] assms(8) obtain k where
    ok: "valid db'" "us_username u = n" "generate p 14 = Inr (us_password u)" "users db' = users db @ [u]" "sk_active k"
      "sk_userID k = us_id u" "sk_key k = key" "skeys db' = skeys db @ [k]" by auto
  note dist = sql_database.users_distinct [OF trx ok(1)]
  have new: "n \<notin> us_username ` set (users db)" "us_id u \<notin> us_id ` set (users db)" using dist ok(2,4) by auto
  have "set (map sk_userID (skeys db)) = set (map us_id (users db))" using assms(3) by (simp add: one_key_each_def)
  then have new_key: "us_id u \<notin> sk_userID ` set (skeys db)" using new(2) by simp
  have cmp: "compare_hash (us_password u) p = None" using assms(5) ok(3) by blast
  have mem: "u \<in> set (users db')" "k \<in> set (skeys db')" using ok(4,8) by simp_all
  have only: "j = k" if "j \<in> set (skeys db')" "sk_userID j = us_id u \<or> sk_key j = key" for j
  proof (rule ccontr)
    assume "j \<noteq> k"
    with that(1) ok(8) have "j \<in> set (skeys db)" by simp
    with that(2) new_key assms(9) show False by (metis image_eqI)
  qed
  have "case fst (sign_in query compare_hash n p db') of Inl e \<Rightarrow> plain_error e | Inr v \<Rightarrow> v = u"
    by (rule sql_transactions.sign_in_finds [where compare_hash = compare_hash and p = p, OF assms(1) ok(1) mem(1) ok(2) cmp])
  moreover have "case fst (sk_get_by_user_id query (us_id u) db') of Inl e \<Rightarrow> plain_error e | Inr j \<Rightarrow> sk_key j = key"
    using sql_transactions.sk_get_by_user_id_finds [OF assms(1) ok(1) mem(2) ok(5,6) only] unfolding ok(7) by blast
  moreover have owner: "case stream_key_owner query db' key of Inl e \<Rightarrow> plain_error e | Inr i \<Rightarrow> i = us_id u"
    using sql_transactions.sk_get_by_key_finds [OF assms(1) ok(1) mem(2) ok(5,7) only] ok(6)
    by (auto simp: stream_key_owner_def split: sum.splits)
  moreover have "case on_connect (stream_key_owner query db') (''live/'' @ key) new_session w of (e, s, w') \<Rightarrow>
      (case e of Some e \<Rightarrow> plain_error e
       | None \<Rightarrow> rs_userID s = us_id u \<and> (\<exists>q. rs_pub s = Some q \<and> pub_id (w_pubs w' ! q) = format_uint (us_id u)))"
    using owner trim_prefix_append [of "''live/''" key]
    by (auto simp: on_connect_def new_publisher_def Let_def split: sum.splits)
  ultimately show ?thesis using token_round_trip [OF assms(6)] by blast
qed

theorem account_can_stream_witness:
  "(case fst (sign_in table_query plain_compare ''alice'' ''secret'' alice_tables) of Inl e \<Rightarrow> plain_error e | Inr v \<Rightarrow> v = alice_user)
     \<and> (case fst (sk_get_by_user_id table_query 1 alice_tables) of Inl e \<Rightarrow> plain_error e | Inr k \<Rightarrow> sk_key k = sk_key alice_key)"
proof -
  have none: "one_key_each (tb_users empty_tables) (tb_keys empty_tables)" "sk_key alice_key \<notin> sk_key ` set (tb_keys empty_tables)"
    by (simp_all add: one_key_each_def empty_tables_def)
  have gen: "\<forall>e. plain_generate ''secret'' 14 = Inl e \<longrightarrow> plain_error e"
    "\<forall>h. plain_generate ''secret'' 14 = Inr h \<longrightarrow> plain_compare h ''secret'' = None" using plain_bcrypt by blast+
  have key: "create_stream_key (ho_random some_oracle) = Inr (sk_key alice_key)" using some_key by (simp add: some_oracle_def)
  from account_can_stream [where compare_hash = plain_compare, OF schema.sql_transactions_axioms empty_tables_valid none(1) gen plain_jwt alice_signs_up key none(2)]
  show ?thesis by (simp add: alice_user_def)
qed

end
