(* ===== verification/ApiProps.thy ===== *)
theory ApiProps
  imports ApiScenario HandlerContracts
begin

text \<open>
  The properties of the HTTP interface as it is served: which input is accepted, who may read what, and
  what other origins get.
\<close>

section \<open>Accepted input\<close>

text \<open>
  C39: What the sign-up handler accepts. It panics exactly on a body that is the JSON document \<open>null\<close>;
  the database only changes when the body has a user name of 4 to 40 allowed characters and a password
  of 6 to 100 bytes; every other decoded body is answered with 400 and leaves the database alone.
\<close>

theorem sign_up_limits:
  assumes "fresh w"
  shows "(sign_up_handler d ora req (w, db) = None \<longleftrightarrow> hd_decode d (rq_body req) = Inr None)
    \<and> (\<forall>w' db'. sign_up_handler d ora req (w, db) = Some (w', db') \<and> db' \<noteq> db \<longrightarrow>
        (\<exists>c. hd_decode d (rq_body req) = Inr (Some c) \<and> length (cr_username c) \<in> {4..40}
          \<and> list_all username_char (cr_username c) \<and> length (cr_password c) \<in> {6..100}))
    \<and> (\<forall>c. hd_decode d (rq_body req) = Inr (Some c)
          \<and> (length (cr_username c) \<notin> {4..40} \<or> \<not> list_all username_char (cr_username c) \<or> length (cr_password c) \<notin> {6..100})
        \<longrightarrow> (\<exists>w'. sign_up_handler d ora req (w, db) = Some (w', db) \<and> wr_status w' = Some 400))"
proof (cases "hd_decode d (rq_body req) = Inr None")
  case True
  then show ?thesis by (simp add: sign_up_handler_def decode_body_def)
next
  case False
  from decode_body_cases [OF assms False, of "hd_json d" sign_up_valid] obtain b w' where
    dec: "decode_body (hd_json d) (hd_decode d) sign_up_valid req w = Some (b, w')"
    and b: "case b of None \<Rightarrow> wr_status w' = Some 400
        | Some c \<Rightarrow> w' = w \<and> hd_decode d (rq_body req) = Inr (Some c) \<and> sign_up_valid c = []" by blast
  show ?thesis
  proof (cases b)
    case None
    then have "sign_up_handler d ora req (w, db) = Some (w', db)" using dec by (simp add: sign_up_handler_def)
    with None b False show ?thesis by auto
  next
    case (Some c)
    then have c: "hd_decode d (rq_body req) = Inr (Some c)" "sign_up_valid c = []" using b by simp_all
    have "sign_up_handler d ora req (w, db) \<noteq> None"
      using dec Some by (simp add: sign_up_handler_def split: prod.splits sum.splits)
    with c sign_up_valid_iff [of c] show ?thesis by auto
  qed
qed

theorem sign_up_limits_witness:
  "sign_up_handler plain_deps some_oracle null_request (new_writer, empty_tables) = None
     \<and> sign_up_handler (plain_deps\<lparr>hd_decode := \<lambda>_. Inr (Some \<lparr>cr_username = ''bob'', cr_password = ''secret''\<rparr>)\<rparr>)
         some_oracle null_request (new_writer, empty_tables) \<noteq> None"
  using sign_up_limits [OF new_writer_fresh, of plain_deps some_oracle null_request empty_tables]
    sign_up_limits [OF new_writer_fresh,
      of "plain_deps\<lparr>hd_decode := \<lambda>_. Inr (Some \<lparr>cr_username = ''bob'', cr_password = ''secret''\<rparr>)\<rparr>" some_oracle
        null_request empty_tables]
  by (simp add: null_request_def plain_deps_def)

section \<open>The routes\<close>

lemma cors_cases:
  assumes "cc_origins cfg \<noteq> []"
  shows "(\<exists>w'. wr_body w' = wr_body w \<and> cors h cfg req (w, s) = Some (w', s))
    \<or> (\<exists>w'. wr_body w' = wr_body w \<and> wr_status w' = wr_status w \<and> cors h cfg req (w, s) = h req (w', s))"
proof -
  define Q where "Q r \<longleftrightarrow> (\<exists>w'. wr_body w' = wr_body w \<and> r = Some (w', s))
    \<or> (\<exists>w'. wr_body w' = wr_body w \<and> wr_status w' = wr_status w \<and> r = h req (w', s))" for r
  have headers: "wr_body (cors_headers cfg' p org w) = wr_body w" "wr_status (cors_headers cfg' p org w) = wr_status w" for cfg' p org
    by (simp_all add: cors_headers_def set_header_def Let_def)
  have body: "wr_body (write_header c v) = wr_body v" for c v by (simp add: write_header_def)
  have answered: "Q (Some (w', s))" if "wr_body w' = wr_body w" for w' using that unfolding Q_def by blast
  have passed: "Q (h req (w', s))" if "wr_body w' = wr_body w" "wr_status w' = wr_status w" for w'
    using that unfolding Q_def by blast
  have "Q (cors h cfg req (w, s))" using assms
    by (simp add: cors_def Let_def answered passed headers body)
  then show ?thesis by (simp add: Q_def)
qed

lemma clean_paths:
  "clean_path ''/api/v1/users/current''" "clean_path ''/api/v1/stream-keys/current''"
  by (code_simp)+

lemma current_user_route:
  assumes "rq_path req = ''/api/v1/users/current''" and "rq_method req = ''GET''"
  shows "serve_mux (routes d ora hs) fallback req ws
    = auth_wrap (hd_parse d) (ho_now ora) (hd_token d) (get_current d) req ws"
  using clean_paths assms
  by (simp add: serve_mux_def routes_def path_fits_def method_fits_def usernames_prefix_def has_prefix_def Let_def)

lemma stream_key_route:
  assumes "rq_path req = ''/api/v1/stream-keys/current''" and "rq_method req = ''GET''"
  shows "serve_mux (routes d ora hs) fallback req ws
    = auth_wrap (hd_parse d) (ho_now ora) (hd_token d) (get_of_current_user d) req ws"
  using clean_paths assms
  by (simp add: serve_mux_def routes_def path_fits_def method_fits_def usernames_prefix_def has_prefix_def Let_def)

section \<open>Who may read what\<close>

lemma current_user_answer:
  assumes "sql_database (hd_query d) users skeys valid" and "valid db" and "fresh w"
  shows "\<exists>w'. auth_wrap p now t (get_current d) req (w, db) = Some (w', db) \<and> (wr_body w' = newline
    \<or> (\<exists>v \<in> set (users db). token_verify p now t (get_bearer_token req) = Inr (us_id v)
        \<and> wr_body w' = user_res (hd_json d) v @ newline))"
  using auth_wrap_cases [OF assms(3), of p now t req "get_current d" db]
proof (elim disjE exE conjE)
  fix u assume v: "token_verify p now t (get_bearer_token req) = Inr u"
    and run: "auth_wrap p now t (get_current d) req (w, db) = get_current d (req\<lparr>rq_user := Some u\<rparr>) (w, db)"
  obtain r db' where get: "users_get_by_id (hd_query d) u db = (r, db')" by fastforce
  from sql_database.users_get_by_id_ok [OF assms(1,2) get] v run get assms(3) show ?thesis
    by (cases r) (auto simp: get_current_def get_user_def send_http_error_def driver_error_def)
qed auto

lemma current_key_answer:
  assumes "sql_transactions (hd_query d) users skeys valid begin_tx commit" and "valid db" and "fresh w"
  shows "\<exists>w'. auth_wrap p now t (get_of_current_user d) req (w, db) = Some (w', db) \<and> (wr_body w' = newline
    \<or> (\<exists>k \<in> set (skeys db). token_verify p now t (get_bearer_token req) = Inr (sk_userID k) \<and> sk_active k
        \<and> wr_body w' = stream_key_res (hd_json d) k @ newline))"
  using auth_wrap_cases [OF assms(3), of p now t req "get_of_current_user d" db]
proof (elim disjE exE conjE)
  fix u assume v: "token_verify p now t (get_bearer_token req) = Inr u"
    and run: "auth_wrap p now t (get_of_current_user d) req (w, db) = get_of_current_user d (req\<lparr>rq_user := Some u\<rparr>) (w, db)"
  obtain r db' where get: "sk_get_by_user_id (hd_query d) u db = (r, db')" by fastforce
  from sql_transactions.sk_get_by_user_id_ok [OF assms(1,2) get] v run get assms(3) show ?thesis
    by (cases r) (auto simp: get_of_current_user_def get_user_def send_http_error_def stream_key_res_def)
qed auto

text \<open>A request that is passed on has an empty response so far; one that is answered has sent no body.\<close>

lemma run_server_cases:
  assumes "origins \<noteq> []"
  shows "(\<exists>w'. wr_body w' = '''' \<and> run_server d ora hs fallback origins req (new_writer, db) = Some (w', db))
    \<or> (\<exists>w'. fresh w' \<and> run_server d ora hs fallback origins req (new_writer, db)
        = serve_mux (routes d ora hs) fallback (req\<lparr>rq_remoteAddr := get_real_ip req\<rparr>) (w', db))"
  using cors_cases [of "cors_settings origins" new_writer "serve_mux (routes d ora hs) fallback"
      "req\<lparr>rq_remoteAddr := get_real_ip req\<rparr>" db] assms
  by (auto simp: run_server_def real_ip_def cors_settings_def fresh_def new_writer_def)

text \<open>
  C38: What the two routes of the current user tell, whatever the request's headers and whatever other
  handlers are installed: nothing (an empty body or an empty line), or the data of the user that the
  bearer token was verified for: that user's own name, that user's own active stream key. The database
  is not changed.
\<close>

theorem current_user_only:
  assumes "sql_transactions (hd_query d) users skeys valid begin_tx commit" and "valid db" and "origins \<noteq> []"
    and "rq_method req = ''GET''" and "rq_path req \<in> {''/api/v1/users/current'', ''/api/v1/stream-keys/current''}"
  shows "\<exists>w'. run_server d ora hs fallback origins req (new_writer, db) = Some (w', db)
    \<and> (wr_body w' \<in> {'''', newline}
      \<or> (\<exists>u. token_verify (hd_parse d) (ho_now ora) (hd_token d) (get_bearer_token req) = Inr u
          \<and> ((\<exists>v \<in> set (users db). us_id v = u \<and> wr_body w' = user_res (hd_json d) v @ newline)
            \<or> (\<exists>k \<in> set (skeys db). sk_userID k = u \<and> sk_active k
                \<and> wr_body w' = stream_key_res (hd_json d) k @ newline))))"
  using run_server_cases [OF assms(3), of d ora hs fallback req db]
proof (elim disjE exE conjE)
  fix w' :: writer
  let ?req = "req\<lparr>rq_remoteAddr := get_real_ip req\<rparr>"
  assume w': "fresh w'" and run: "run_server d ora hs fallback origins req (new_writer, db)
    = serve_mux (routes d ora hs) fallback ?req (w', db)"
  have bearer: "get_bearer_token ?req = get_bearer_token req" by (simp add: get_bearer_token_def)
  note db = sql_transactions.axioms(1) [OF assms(1)]
  from assms(5) consider (user) "rq_path ?req = ''/api/v1/users/current''" | (key) "rq_path ?req = ''/api/v1/stream-keys/current''"
    by auto
  then show ?thesis
  proof cases
    case user
    have "rq_method ?req = ''GET''" using assms(4) by simp
    from current_user_answer [OF db assms(2) w', of "hd_parse d" "ho_now ora" "hd_token d" ?req]
      current_user_route [OF user this, of d ora hs fallback] show ?thesis unfolding run bearer by auto
  next
    case key
    have "rq_method ?req = ''GET''" using assms(4) by simp
    from current_key_answer [OF assms(1,2) w', of "hd_parse d" "ho_now ora" "hd_token d" ?req]
      stream_key_route [OF key this, of d ora hs fallback] show ?thesis unfolding run bearer by auto
  qed
qed auto

theorem current_user_only_witness:
  "\<exists>w'. run_server plain_deps some_oracle [] (\<lambda>req ws. Some ws) [''https://a''] (get_request ''/api/v1/stream-keys/current'' (\<lambda>_. ''''))
     (new_writer, alice_tables) = Some (w', alice_tables)"
proof -
  let ?req = "get_request ''/api/v1/stream-keys/current'' (\<lambda>_. '''')"
  have db: "sql_transactions (hd_query plain_deps) tb_users tb_keys tables_valid table_begin table_commit"
    using schema.sql_transactions_axioms by (simp add: plain_deps_def)
  have req: "[''https://a''] \<noteq> []" "rq_method ?req = ''GET''"
    "rq_path ?req \<in> {''/api/v1/users/current'', ''/api/v1/stream-keys/current''}" by (simp_all add: get_request_def)
  from current_user_only [OF db alice_tables_valid req] show ?thesis by blast
qed

section \<open>Other origins\<close>



end
