(* ===== verification/Spec2Isabelle.thy ===== *)
theory Spec2Isabelle
  imports ProgramProps ProgramRaces ProgramAccounts ProgramEvents ProgramViewers MediaProps RtmpProps EventProps ServerProps AccountProps ApiProps
begin

text \<open>
  A model of the live-streaming backend \<open>lively\<close>, translated from its Go sources under \<open>src/\<close>, and the
  theorems that make it correct.

  \<^bold>\<open>The program.\<close> A publisher sends a stream over RTMP (\<open>transport/rtmp\<close>). Each connection authenticates
  with a stream key, becomes a publisher of the media channel (\<open>transport/media_channel\<close>) and cuts what it
  receives into messages in reference-counted buffers (\<open>core/media\<close>). Viewers connect over WebSocket
  (\<open>transport/ws_media\<close>), become consumers of one publisher and are sent its messages through bounded
  channels. Viewers are counted per stream (\<open>core/service/stream.go\<close>), changes are published on an event
  bus (\<open>infra/mem_pubsub\<close>), and a second WebSocket transport (\<open>transport/ws_main\<close>) forwards events to
  connections that subscribed to their topics. Accounts and stream keys live in a database
  (\<open>store\<close>, \<open>db\<close>, \<open>core/service/auth.go\<close>, \<open>stream_key.go\<close>) and are served by a REST interface
  (\<open>transport/http\<close>, \<open>security\<close>, \<open>middleware\<close>); the settings come from the environment (\<open>config\<close>).

  \<^bold>\<open>How Go is modelled.\<close> A panic is \<open>None\<close>; an \<open>error\<close> is a value. Pointers that several components share
  are indices into arenas (theory \<open>MediaWorld\<close>: buffers, publishers, consumers), so aliasing is visible.
  Integers of the code that may wrap are words. Channels are bounded queues with a closed flag (\<open>GoIO\<close>);
  a blocked receive is a value of its own. Where Go iterates over a map, the order is an argument, any
  permutation of the keys (\<open>permutes_keys\<close>). Goroutines and critical sections that interleave are steps of
  machines (\<open>Systems\<close>); a state is reachable through any sequence of allowed steps. A step is one call of the
  media channel, the stream service or the bus, or one message. \<open>AddPublisher\<close> is two steps, its check and its
  store, and the goroutine that forwards events takes one per read, per key of its range and per send. A handler is a function on the response and the state
  that may panic, which \<open>net/http\<close> recovers. Logging is left out.

  \<^bold>\<open>The theories.\<close>
  \<^item> Prelude, GoBytes, GoIO, GoStrings, GoErrors: lists, big-endian integers, readers and channels, strings
    and numbers, wrapped errors; the locale \<open>byte_codec\<close>.
  \<^item> SharedBuffer (\<open>core/media/shared_buffer.go\<close>): \<open>sb_write\<close>, \<open>sb_read_n\<close>, \<open>sb_acquire\<close>, \<open>sb_release\<close>; the
    locale \<open>ref_counted\<close> is the abstract balance the 32-bit counter implements.
  \<^item> MediaMessage (\<open>core/media/message.go\<close>, \<open>ws_media/packet.go\<close>), Flv (\<open>container/flv\<close>): encodings and headers.
  \<^item> MediaWorld, MediaAccounting: the shared state and its accounting invariant \<open>heap_ok\<close>: each buffer's
    count covers what running code holds, what channels hold and what publishers keep.
  \<^item> Consumer (\<open>ws_media/consumer.go\<close>): writing frames, \<open>Stop\<close>, the goroutine \<open>readMessages\<close> by steps.
  \<^item> Publisher (\<open>media_channel/publisher.go\<close>) with PublisherInv, PublisherSend, PublisherOps, PublisherJoin:
    sending to everybody, stopping, keeping headers, joining; the fan-out is described pointwise.
  \<^item> MediaChannel (\<open>channel.go\<close>), MediaSystem: the table of publishers, the invariant \<open>media_ok\<close>, and the whole
    pipeline as the machine \<open>exec\<close>, which never panics when it is used as \<open>allowed\<close> says.
  \<^item> Rtmp, RtmpOk, RtmpHandlers, RtmpSession (\<open>transport/rtmp/rtmp.go\<close>): the message handlers down to the single
    read, and the life of a connection (\<open>on_conn\<close>).
  \<^item> EventBus, BusSystem, StreamService (\<open>infra/mem_pubsub\<close>, \<open>core/service/stream.go\<close>): the bus and its machine,
    the viewer counters as a refinement of the multiset of open connections. The locale \<open>event_sink\<close> is what
    the services need of the bus and is interpreted on it.
  \<^item> WsMain, WsMainOk, WsFeed, WsWriter (\<open>transport/ws_main\<close>): the topic transport. Its maps of connections are
    objects, since \<open>readEvents\<close> ranges over one while others change it; \<open>read_events_step\<close> is that goroutine by
    steps, \<open>read_data_step\<close> the writing goroutine of a connection, and \<open>feed_step\<close> joins them by the send that
    waits. The locale \<open>topic_source\<close> is what the transport needs of its subscriber, interpreted on the bus.
  \<^item> WorldFrame, RtmpFrame: what a step on behalf of one publisher may change (the relation \<open>effect\<close>), for every
    operation of the media channel and every RTMP handler; the type \<open>well_typed\<close> of the messages they queue.
  \<^item> ViewerSession, ViewerServer (\<open>ws_media/ws.go\<close>, \<open>consumer.go\<close>): viewer sessions as state machines inside
    the server \<open>server_exec\<close>, which runs the pipeline, the counters, the bus and all sessions.
  \<^item> Backend, BackendOk, ConnSteps: publishing connections as state machines (\<open>accept_conn\<close>, \<open>conn_step\<close>) beside the
    server of viewers, the invariant \<open>backend_ok\<close> that links them through the media channel, and the steps by
    which a connection goes on air. A store of \<open>AddPublisher\<close> over a publisher that was stored since the check is
    the case \<open>overwrites\<close>; the invariant holds in runs without it. ViewerPipe: each of these steps as
    seen from the queue and the connection of a viewer (\<open>flows\<close>).
  \<^item> Database, SchemaTables, Accounts: the stores over a parameter \<open>query\<close>, the contracts \<open>sql_database\<close> and
    \<open>sql_transactions\<close>, their interpretation on the tables of \<open>db/pg/migrations\<close>, and the services.
  \<^item> Http, Security, HttpApi, WebFront, Config: responses, tokens and their middleware, the handlers, CORS and
    routes, the settings. HandlerContracts: for every handler a relation between the states before and after
    (\<open>acts\<close>) and the requests it panics on; the locale \<open>handler_contract\<close> carries it through middleware and mux
    and is interpreted on the accounts.
  \<^item> Servers, Program, ProgramOk (\<open>main.go\<close>, \<open>scripts/migrate.go\<close>): the accept loop and the end of the servers,
    the start and the wiring, and the whole program as the machine \<open>program_exec\<close>: requests, incoming
    connections, and steps of what runs already. The locale \<open>deployment\<close> names what is assumed (a database that
    follows its schema, accepted settings); with the two races \<open>store_races\<close> and \<open>sends_on_closed\<close> set apart it
    gives the contract \<open>panic_free\<close>, and it holds of the tables of the
    migrations (ProgramScenario). The locale \<open>program_view\<close> is a property that no request breaks.
  \<^item> Scenario, ApiScenario, ProgramScenario and EventScenario hold concrete states and runs; ProgramProps,
    ProgramRaces, ProgramAccounts, ProgramEvents, ProgramViewers, MediaProps, RtmpProps, EventProps, ServerProps, AccountProps
    and ApiProps hold the properties with instances at these states.

  \<^bold>\<open>What is shown.\<close> In runs in which no store of \<open>AddPublisher\<close> overwrites another, the whole program panics
  exactly when an event is sent to a connection that was closed since the goroutine got it from its range (and
  an HTTP handler, recovered, on one kind of request only), its table of publishers is the connections on air,
  one per user and each with a stream key, viewers get the stream they asked for, are counted for it and get
  only well-formed messages, and a key or a request leads to a stream on air or a session (ProgramProps). What
  the store that overwrites leads to, up to a crash, is shown in ProgramRaces. Accounts change only by signing up and stay as long as the program runs (ProgramAccounts).
  Whatever runs, a viewer is sent exactly what was queued for it, in order and with the bytes it had then,
  although buffers are shared and pooled (ProgramViewers). Clients of the topic transport get the
  events in order, a round of forwarding misses nobody, and one client that does not read holds up all of them
  (ProgramEvents). Inside it, nothing in the media pipeline, the bus or the server of viewers panics in a
  reachable state, given what the callers guarantee: they send and release only buffers they hold, through a
  publisher in the table, store a publisher while its identifier is free, and keep fewer than \<open>2^31\<close> references
  per buffer; the program gives these guarantees but the last two. Pooled buffers are free. Messages reach the consumers that keep up
  complete and in order, down to the bytes of each NALU and audio payload; consumers that do not keep up are
  stopped. Handlers and goroutines end. Sign-up is all or nothing, an account can do what it should, and the
  routes of the current user tell only that user's data. Some theorems show behaviour that is not intended:
  leaked references, races between critical sections, a panic after \<open>Stop\<close>, events that are never forwarded,
  an accept loop that never ends.

  \<^bold>\<open>Recursion.\<close> \<open>read_n_loop\<close> and \<open>discard_nalu\<close> are total by a measure on the reader; the loops over
  fragments and NALUs are \<open>partial_function\<close>s whose results are proved to exist on every reader; the accept
  loop is one whose result is proved not to exist.
  \<open>run_reader\<close> takes a number of steps; two more than the queue is long are enough.

  \<^bold>\<open>Parameters.\<close> The RTMP library's messages and readers, the WebSocket library's frame header (\<open>ws_lib\<close>) and the
  answers of a connection, the JSON, JWT, bcrypt and UUID libraries, the clock, random bytes, the database, and
  what \<open>ServeMux\<close> answers when no pattern fits. What is assumed of them is named where it is used:
  \<open>jwt_contract\<close>, the two SQL locales, \<open>fair\<close> for the runtime's iteration orders.

  \<^bold>\<open>Not modelled.\<close> The network below \<open>Accept\<close> and \<open>ListenAndServe\<close>, the pass-through methods of \<open>pg.Client\<close>,
  logging, and the mocks under \<open>testing\<close>: they are input and output or calls of libraries. Memory races that
  the Go runtime detects (\<open>SendMessage\<close> assigns to a map under a read lock, \<open>readEvents\<close> reads maps without the
  lock) are outside the model; so is a call of the media channel between whose lookup and whose use of the
  publisher that publisher is removed, other than between the check and the store of \<open>AddPublisher\<close>. Paths that
  are not clean and headers with spaces beyond ASCII are outside what the routes and \<open>get_real_ip\<close> describe.
\<close>

end
